(* ===== verification/Wk_Prelude.thy ===== *)
theory Wk_Prelude
  imports Main "HOL-Library.AList" "HOL-Library.Sublist"
begin

section \<open>Shared vocabulary of the Wikistead model\<close>

text \<open>
  What every component shares: the rule collections, the readings of the JavaScript built-ins
  the sources use (\<open>??\<close>, \<open>String(n)\<close>, \<open>slice\<close> loops, the insertion-ordered \<open>Map\<close>), and the
  lemmas about them. JavaScript strings are \<^typ>\<open>string\<close>, one \<^typ>\<open>char\<close> per code unit below 256.
  A \<open>Map\<close> is an association list in insertion order with distinct keys: \<^const>\<open>AList.update\<close>
  overwrites in place and appends a new key at the end, as \<open>Map.prototype.set\<close> does.
\<close>

named_theorems wk_defs \<open>definitions a proof about one operation unfolds\<close>

subsection \<open>Nullish values\<close>

definition nullish :: "'a \<Rightarrow> 'a option \<Rightarrow> 'a" where
  \<comment> \<open>\<open>o ?? d\<close>\<close>
  "nullish d o' = (case o' of None \<Rightarrow> d | Some x \<Rightarrow> x)"

lemma nullish_simps [simp]: "nullish d None = d" "nullish d (Some x) = x"
  by (simp_all add: nullish_def)

subsection \<open>\<open>String(n)\<close> for a natural number\<close>

fun nat_str :: "nat \<Rightarrow> string" where
  "nat_str n =
     (if n < 10 then [char_of (48 + n)] else nat_str (n div 10) @ [char_of (48 + n mod 10)])"

declare nat_str.simps [simp del]

fun str_nat :: "string \<Rightarrow> nat" where
  "str_nat s = foldl (\<lambda>acc c. 10 * acc + (of_char c - 48)) 0 s"

declare str_nat.simps [simp del]

lemma of_char_digit: "d < 10 \<Longrightarrow> (of_char (char_of (48 + d) :: char) :: nat) - 48 = d"
  by (simp add: of_char_of)

lemma str_nat_nat_str [simp]: "str_nat (nat_str n) = n"
proof (induction n rule: nat_str.induct)
  case (1 n)
  show ?case
  proof (cases "n < 10")
    case True
    then show ?thesis
      by (simp add: nat_str.simps [of n] str_nat.simps of_char_digit)
  next
    case False
    with "1.IH" have ih: "str_nat (nat_str (n div 10)) = n div 10" by simp
    have d: "(of_char (char_of (48 + n mod 10) :: char) :: nat) - 48 = n mod 10"
      by (rule of_char_digit) simp
    have "str_nat (nat_str n) = 10 * str_nat (nat_str (n div 10)) + n mod 10"
      using False d by (simp add: nat_str.simps [of n] str_nat.simps)
    then show ?thesis by (simp only: ih) simp
  qed
qed

lemma nat_str_inject [simp]: "nat_str m = nat_str n \<longleftrightarrow> m = n"
  by (metis str_nat_nat_str)

lemma nat_str_nonempty [simp]: "nat_str n \<noteq> []"
  by (subst nat_str.simps) simp

definition is_digit :: "char \<Rightarrow> bool" where
  "is_digit c \<longleftrightarrow> (48::nat) \<le> of_char c \<and> (of_char c :: nat) \<le> 57"

lemma nat_str_digits: "\<forall>c \<in> set (nat_str n). is_digit c"
proof (induction n rule: nat_str.induct)
  case (1 n)
  have d: "is_digit (char_of (48 + m))" if "m < 10" for m :: nat
    using that by (simp add: is_digit_def of_char_of)
  show ?case
  proof (cases "n < 10")
    case True
    then show ?thesis by (simp add: nat_str.simps [of n] d)
  next
    case False
    with 1 show ?thesis by (simp add: nat_str.simps [of n] d ball_Un)
  qed
qed

subsection \<open>Loops that walk a list in slices\<close>

text \<open>\<open>for (let i = 0; i < xs.length; i += n) out.push(xs.slice(i, i + n))\<close>\<close>

function chunks :: "nat \<Rightarrow> 'a list \<Rightarrow> 'a list list" where
  "chunks n xs = (if n = 0 \<or> xs = [] then [] else take n xs # chunks n (drop n xs))"
  by pat_completeness auto
termination
  by (relation "measure (\<lambda>(n, xs). length xs)") auto

declare chunks.simps [simp del]

lemma chunks_Nil [simp]: "chunks n [] = []"
  by (simp add: chunks.simps)

lemma concat_chunks [simp]: "0 < n \<Longrightarrow> concat (chunks n xs) = xs"
  by (induction n xs rule: chunks.induct) (simp add: chunks.simps)

lemma chunks_length: "c \<in> set (chunks n xs) \<Longrightarrow> 0 < length c \<and> length c \<le> n"
proof (induction n xs rule: chunks.induct)
  case (1 n xs)
  show ?case
  proof (cases "n = 0 \<or> xs = []")
    case True
    with "1.prems" show ?thesis by (auto simp: chunks.simps [of n xs])
  next
    case False
    with "1.prems" have "c = take n xs \<or> c \<in> set (chunks n (drop n xs))"
      by (auto simp: chunks.simps [of n xs])
    with False "1.IH" show ?thesis by auto
  qed
qed

lemma set_chunks: "0 < n \<Longrightarrow> (\<Union>c \<in> set (chunks n xs). set c) = set xs"
  by (metis concat_chunks set_concat)

lemma chunks_subset: "0 < n \<Longrightarrow> c \<in> set (chunks n xs) \<Longrightarrow> set c \<subseteq> set xs"
  using set_chunks [of n xs] by (metis UN_upper)

lemma chunks_small: "xs \<noteq> [] \<Longrightarrow> length xs \<le> n \<Longrightarrow> chunks n xs = [xs]"
  by (cases xs) (simp_all add: chunks.simps)

subsection \<open>The insertion-ordered \<open>Map\<close>\<close>

definition omap_drop_oldest :: "('k \<times> 'v) list \<Rightarrow> ('k \<times> 'v) list" where
  \<comment> \<open>\<open>m.delete(m.keys().next().value)\<close>, nothing on an empty map\<close>
  "omap_drop_oldest m = (case m of [] \<Rightarrow> [] | p # ps \<Rightarrow> AList.delete (fst p) m)"

lemma map_of_drop_oldest:
  "map_of (omap_drop_oldest m) k = (if m \<noteq> [] \<and> k = fst (hd m) then None else map_of m k)"
  by (cases m) (auto simp: omap_drop_oldest_def delete_conv')

lemma distinct_drop_oldest:
  "distinct (map fst m) \<Longrightarrow> distinct (map fst (omap_drop_oldest m))"
  by (cases m) (auto simp: omap_drop_oldest_def distinct_delete)

lemma length_drop_oldest:
  "distinct (map fst m) \<Longrightarrow> length (omap_drop_oldest m) = length m - 1"
proof (cases m)
  case (Cons p ps)
  assume "distinct (map fst m)"
  with Cons have "fst p \<notin> set (map fst ps)" by simp
  then have "AList.delete (fst p) ps = ps"
    by (simp add: delete_id)
  with Cons show ?thesis
    by (cases p) (simp add: omap_drop_oldest_def)
qed (simp add: omap_drop_oldest_def)

lemma length_AList_update_le: "length (AList.update k v m) \<le> Suc (length m)"
  by (induction m) auto

lemma map_of_filter_key:
  "map_of (filter (\<lambda>p. P (fst p)) m) k = (if P k then map_of m k else None)"
  by (induction m) auto

subsection \<open>Strings\<close>

definition starts_with :: "string \<Rightarrow> string \<Rightarrow> bool" where
  \<comment> \<open>\<open>s.startsWith(p)\<close>\<close>
  "starts_with s p \<longleftrightarrow> take (length p) s = p"

lemma starts_with_append [simp]: "starts_with (p @ s) p"
  by (simp add: starts_with_def)

lemma starts_with_iff: "starts_with s p \<longleftrightarrow> (\<exists>r. s = p @ r)"
  by (metis append_take_drop_id starts_with_def append_eq_conv_conj)

definition ends_with :: "string \<Rightarrow> string \<Rightarrow> bool" where
  \<comment> \<open>\<open>s.endsWith(p)\<close>\<close>
  "ends_with s p \<longleftrightarrow> length p \<le> length s \<and> drop (length s - length p) s = p"

lemma ends_with_iff: "ends_with s p \<longleftrightarrow> (\<exists>r. s = r @ p)"
  by (metis append_take_drop_id append_eq_conv_conj diff_add_inverse2 ends_with_def
      le_add2 length_append length_drop diff_diff_cancel)

text \<open>Joining with a separator that occurs in no part is injective.\<close>

lemma sep_inject:
  assumes "c \<notin> set a" "c \<notin> set b" "a @ c # x = b @ c # y"
  shows "a = b \<and> x = y"
  using assms
proof (induction a arbitrary: b)
  case Nil
  then show ?case by (cases b) auto
next
  case (Cons z a)
  then show ?case by (cases b) auto
qed

subsection \<open>White space, case and separators\<close>

definition js_space :: "char \<Rightarrow> bool" where
  \<comment> \<open>the white space \<open>trim\<close> removes, below code unit 256\<close>
  "js_space c \<longleftrightarrow> (of_char c :: nat) \<in> {9, 10, 11, 12, 13, 32, 160}"

definition js_trim :: "string \<Rightarrow> string" where
  "js_trim s = rev (dropWhile js_space (rev (dropWhile js_space s)))"

definition NUL :: string where "NUL = [CHR 0x00]"

definition js_lower_char :: "char \<Rightarrow> char" where
  \<comment> \<open>\<open>toLowerCase\<close> on a code unit below 256\<close>
  "js_lower_char c =
     (let n = of_char c :: nat
      in if 65 \<le> n \<and> n \<le> 90 \<or> 192 \<le> n \<and> n \<le> 222 \<and> n \<noteq> 215 then char_of (n + 32) else c)"

definition js_lower :: "string \<Rightarrow> string" where
  "js_lower = map js_lower_char"

end
