(* ===== verification/Wk_Scope.thy ===== *)
theory Wk_Scope
  imports Wk_Prelude
begin

section \<open>The per-request authorization scope and its restriction\<close>

text \<open>
  Models \<^verbatim>\<open>packages/authz/src/scope.ts\<close>, \<^verbatim>\<open>packages/authz/src/restriction.ts\<close>,
  \<^verbatim>\<open>packages/hooks/src/api-key-narrowing.ts\<close> and the hook registry of
  \<^verbatim>\<open>packages/hooks/src/authz-hooks.ts\<close>, with the resource vocabulary of
  \<^verbatim>\<open>packages/types/src/index.ts\<close>.

  The module-level variables (\<open>storage\<close>, \<open>required\<close>, \<open>_evaluator\<close>, \<open>_hooks\<close>) are one record
  \<open>authz_env\<close> that every operation takes and returns. \<open>AsyncLocalStorage.run\<close> is dynamic binding: the
  callback sees the new scope and the caller's binding is back when it ends. What an evaluator
  or a hook answers is code that other packages register, so it is a field of the record.
\<close>

subsection \<open>Resources and capabilities\<close>

datatype capability =
  View | Comment | Edit | Manage | Moderate | Delete | Share | Settings | Publish | ManageAccess

datatype resource_type = PageR | SpaceR

record resource_ref =
  rtype :: resource_type
  rid :: string

definition rtype_str :: "resource_type \<Rightarrow> string" where
  "rtype_str t = (case t of PageR \<Rightarrow> ''page'' | SpaceR \<Rightarrow> ''space'')"

definition fga_object :: "resource_type \<Rightarrow> string \<Rightarrow> string" where
  \<comment> \<open>\<open>`${resource.type}:${resource.id}`\<close>\<close>
  "fga_object t i = rtype_str t @ '':'' @ i"

lemma fga_object_inject [simp]: "fga_object t i = fga_object t' i' \<longleftrightarrow> t = t' \<and> i = i'"
  by (cases t; cases t') (auto simp: fga_object_def rtype_str_def)

subsection \<open>The ambient scope\<close>

record authz_scope =
  restriction :: "string set option"
    \<comment> \<open>\<open>restriction.spaces\<close>; \<open>None\<close> is the source's \<open>null\<close>: not restricted\<close>
  space_of_page :: "(string \<Rightarrow> string option) option"
  scope_api_key :: "string option"
  scope_frozen :: bool
    \<comment> \<open>\<open>Object.freeze\<close>: an assignment to a field throws\<close>

definition SYSTEM_SCOPE :: authz_scope where
  "SYSTEM_SCOPE =
     \<lparr>restriction = None, space_of_page = None, scope_api_key = None, scope_frozen = True\<rparr>"

definition empty_scope :: authz_scope where
  "empty_scope =
     \<lparr>restriction = None, space_of_page = None, scope_api_key = None, scope_frozen = False\<rparr>"

datatype verdict = AllowV | DenyV | UnresolvableV

type_synonym restriction_evaluator = "string set \<Rightarrow> resource_ref \<Rightarrow> authz_scope \<Rightarrow> verdict"

record check_context =
  ctx_user :: string
  ctx_relation :: string
  ctx_resource :: resource_ref

record authz_hooks =
  before_check :: "(check_context \<Rightarrow> bool option) option"
  after_check :: "(check_context \<Rightarrow> bool \<Rightarrow> bool option) option"

definition no_hooks :: authz_hooks where
  "no_hooks = \<lparr>before_check = None, after_check = None\<rparr>"

record authz_env =
  als_store :: "authz_scope option"
  scope_required :: bool
  evaluator :: "restriction_evaluator option"
  hooks :: authz_hooks

definition initial_env :: authz_env where
  "initial_env =
     \<lparr>als_store = None, scope_required = False, evaluator = None, hooks = no_hooks\<rparr>"

datatype scope_error =
    SetRestrictionOutsideScope
  | SetApiKeyOutsideScope
  | CallOutsideScope
  | FrozenScope

definition run_in_authz_scope ::
  "authz_scope \<Rightarrow> (authz_env \<Rightarrow> authz_env \<times> 'a) \<Rightarrow> authz_env \<Rightarrow> authz_env \<times> 'a" where
  "run_in_authz_scope sc f e =
     (let (e', r) = f (e\<lparr>als_store := Some sc\<rparr>) in (e'\<lparr>als_store := als_store e\<rparr>, r))"

definition open_authz_scope :: "(authz_env \<Rightarrow> authz_env \<times> 'a) \<Rightarrow> authz_env \<Rightarrow> authz_env \<times> 'a" where
  "open_authz_scope run e = run_in_authz_scope empty_scope run e"

definition set_authz_restriction ::
  "string set option \<Rightarrow> (string \<Rightarrow> string option) option \<Rightarrow> authz_env \<Rightarrow> scope_error + authz_env" where
  "set_authz_restriction r sop e =
     (case als_store e of
        None \<Rightarrow> Inl SetRestrictionOutsideScope
      | Some sc \<Rightarrow>
          if scope_frozen sc then Inl FrozenScope
          else
            let sc1 = sc\<lparr>restriction := r\<rparr>;
                sc2 = (case sop of None \<Rightarrow> sc1 | Some f \<Rightarrow> sc1\<lparr>space_of_page := Some f\<rparr>)
            in Inr (e\<lparr>als_store := Some sc2\<rparr>))"

definition set_authz_api_key :: "string \<Rightarrow> authz_env \<Rightarrow> scope_error + authz_env" where
  "set_authz_api_key k e =
     (case als_store e of
        None \<Rightarrow> Inl SetApiKeyOutsideScope
      | Some sc \<Rightarrow>
          if scope_frozen sc then Inl FrozenScope
          else Inr (e\<lparr>als_store := Some (sc\<lparr>scope_api_key := Some k\<rparr>)\<rparr>))"

definition current_authz_scope :: "authz_env \<Rightarrow> authz_scope option" where
  "current_authz_scope e = als_store e"

definition require_authz_scope :: "authz_env \<Rightarrow> authz_env" where
  "require_authz_scope e = e\<lparr>scope_required := True\<rparr>"

definition reset_authz_scope_requirement :: "authz_env \<Rightarrow> authz_env" where
  "reset_authz_scope_requirement e = e\<lparr>scope_required := False\<rparr>"

definition authz_scope_for_check :: "authz_env \<Rightarrow> scope_error + authz_scope" where
  "authz_scope_for_check e =
     (case als_store e of
        Some sc \<Rightarrow> Inr sc
      | None \<Rightarrow> if scope_required e then Inl CallOutsideScope else Inr SYSTEM_SCOPE)"

subsection \<open>The restriction at the primitives\<close>

definition register_restriction_evaluator :: "restriction_evaluator \<Rightarrow> authz_env \<Rightarrow> authz_env" where
  "register_restriction_evaluator f e = e\<lparr>evaluator := Some f\<rparr>"

definition reset_restriction_evaluator :: "authz_env \<Rightarrow> authz_env" where
  "reset_restriction_evaluator e = e\<lparr>evaluator := None\<rparr>"

definition restriction_allows :: "authz_env \<Rightarrow> resource_ref \<Rightarrow> scope_error + bool" where
  "restriction_allows e res =
     (case authz_scope_for_check e of
        Inl err \<Rightarrow> Inl err
      | Inr sc \<Rightarrow>
          (case restriction sc of
             None \<Rightarrow> Inr True
           | Some r \<Rightarrow>
               (case evaluator e of
                  None \<Rightarrow> Inr False
                | Some ev \<Rightarrow> Inr (ev r res sc = AllowV))))"

definition register_authz_hooks :: "authz_hooks \<Rightarrow> authz_env \<Rightarrow> authz_env" where
  \<comment> \<open>\<open>{ ..._hooks, ...hooks }\<close>: a hook the caller leaves out keeps the registered one\<close>
  "register_authz_hooks h e =
     e\<lparr>hooks :=
         \<lparr>before_check = (case before_check h of None \<Rightarrow> before_check (hooks e) | Some f \<Rightarrow> Some f),
          after_check = (case after_check h of None \<Rightarrow> after_check (hooks e) | Some f \<Rightarrow> Some f)\<rparr>\<rparr>"

subsection \<open>Narrowed API keys\<close>

record narrowed_key =
  key_capabilities :: "string list option"
  key_spaces :: "string set option"
  key_permissions :: "(string \<rightharpoonup> string) option"

definition is_narrowed_key :: "narrowed_key \<Rightarrow> bool" where
  "is_narrowed_key k \<longleftrightarrow>
     key_capabilities k \<noteq> None \<or> key_spaces k \<noteq> None \<or> key_permissions k \<noteq> None"

lemmas scope_defs [wk_defs] =
  run_in_authz_scope_def open_authz_scope_def set_authz_restriction_def set_authz_api_key_def
  current_authz_scope_def require_authz_scope_def reset_authz_scope_requirement_def
  authz_scope_for_check_def register_restriction_evaluator_def reset_restriction_evaluator_def
  restriction_allows_def register_authz_hooks_def

subsection \<open>What the scope guarantees\<close>

text \<open>The restriction a primitive applies, as one boolean; \<open>False\<close> covers every refusal.\<close>

definition within_restriction :: "authz_env \<Rightarrow> resource_ref \<Rightarrow> bool" where
  "within_restriction e res \<longleftrightarrow> restriction_allows e res = Inr True"

lemma restriction_allows_cases:
  "restriction_allows e res = Inr b \<Longrightarrow> b = within_restriction e res"
  by (cases b) (auto simp: within_restriction_def)

lemma restriction_error_iff:
  "(\<exists>err. restriction_allows e res = Inl err) \<longleftrightarrow> als_store e = None \<and> scope_required e"
  by (auto simp: restriction_allows_def authz_scope_for_check_def
      split: option.splits if_splits sum.splits)

lemma restriction_error_is_call_outside:
  "restriction_allows e res = Inl err \<Longrightarrow> err = CallOutsideScope"
  by (auto simp: restriction_allows_def authz_scope_for_check_def
      split: option.splits if_splits sum.splits)

text \<open>Two calls in the same environment agree on whether they throw.\<close>

lemma restriction_error_uniform:
  "restriction_allows e res = Inl err \<Longrightarrow> restriction_allows e res' = Inl err"
  by (auto simp: restriction_allows_def authz_scope_for_check_def
      split: option.splits if_splits sum.splits)

lemma unrestricted_allows:
  "als_store e = Some sc \<Longrightarrow> restriction sc = None \<Longrightarrow> restriction_allows e res = Inr True"
  by (simp add: restriction_allows_def authz_scope_for_check_def)

lemma no_evaluator_refuses:
  "als_store e = Some sc \<Longrightarrow> restriction sc = Some r \<Longrightarrow> evaluator e = None \<Longrightarrow>
   restriction_allows e res = Inr False"
  by (simp add: restriction_allows_def authz_scope_for_check_def)

lemma run_restores_scope: "als_store (fst (run_in_authz_scope sc f e)) = als_store e"
  by (simp add: run_in_authz_scope_def split: prod.split)

lemma set_restriction_effect:
  "set_authz_restriction r sop e = Inr e' \<Longrightarrow>
   \<exists>sc. als_store e' = Some sc \<and> restriction sc = r \<and> \<not> scope_frozen sc \<and>
     evaluator e' = evaluator e \<and> hooks e' = hooks e \<and> scope_required e' = scope_required e"
  by (auto simp: set_authz_restriction_def Let_def split: option.splits if_splits)

end
