(* ===== verification/Wk_Authz.thy ===== *)
theory Wk_Authz
  imports Wk_Scope
begin

section \<open>The authorization primitives\<close>

text \<open>
  Models \<^verbatim>\<open>packages/authz/src/check.ts\<close> with the degradation port of
  \<^verbatim>\<open>packages/authz/src/degradation.ts\<close>. OpenFGA is not part of the repository: a store is a
  record of functions over an abstract store state \<open>'s\<close>, so that two calls may answer
  differently, an answer may be missing, and a call may throw. Every operation takes the state
  and returns the next one. The chunks of one wave run in list order here; in the code they run
  concurrently under \<open>Promise.all\<close>, which only affects the order in which the store sees
  them. After a chunk fails the model stops, where the code lets the chunks of the same wave
  finish and then rejects with the first failure.
\<close>

subsection \<open>The store interface\<close>

record check_req =
  rq_user :: string
  rq_relation :: string
  rq_object :: string
  rq_corr :: string
  rq_context :: "(string \<times> string) list option"

record batch_entry =
  en_corr :: string
  en_error :: "string option" \<comment> \<open>\<open>JSON.stringify(r.error)\<close> of a truthy \<open>r.error\<close>\<close>
  en_allowed :: "bool option" \<comment> \<open>\<open>undefined\<close> when the store left it out\<close>

record 's fga =
  fga_check :: "'s \<Rightarrow> check_req \<Rightarrow> 's \<times> (string + bool option)"
  fga_batch_check :: "'s \<Rightarrow> check_req list \<Rightarrow> 's \<times> (string + batch_entry list)"

record degradation =
  dg_relation :: string
  dg_resource_type :: resource_type
  dg_candidates :: nat
  dg_unanswered :: nat
  dg_recovered :: nat
  dg_first_error :: string

datatype authz_error =
    ScopeErr scope_error
  | NoRelation capability resource_type
  | StoreThrew string
  | AnsweredNone nat string resource_type
  | RequesterGone

subsection \<open>Capabilities to relations\<close>

fun RELATION :: "resource_type \<Rightarrow> capability \<Rightarrow> string option" where
  "RELATION PageR View = Some ''view''"
| "RELATION PageR Comment = Some ''comment''"
| "RELATION PageR Edit = Some ''edit''"
| "RELATION PageR Manage = Some ''manage''"
| "RELATION PageR Moderate = Some ''moderate''"
| "RELATION PageR Delete = Some ''delete''"
| "RELATION PageR Share = Some ''share''"
| "RELATION PageR Settings = Some ''settings''"
| "RELATION PageR Publish = Some ''publish''"
| "RELATION PageR ManageAccess = None"
| "RELATION SpaceR View = Some ''viewer''"
| "RELATION SpaceR Edit = Some ''editor''"
| "RELATION SpaceR Manage = Some ''manager''"
| "RELATION SpaceR Moderate = Some ''moderator''"
| "RELATION SpaceR Delete = Some ''deleter''"
| "RELATION SpaceR Share = Some ''sharer''"
| "RELATION SpaceR Settings = Some ''settings_editor''"
| "RELATION SpaceR Publish = Some ''publisher''"
| "RELATION SpaceR Comment = Some ''commenter''"
| "RELATION SpaceR ManageAccess = Some ''access_manager''"

definition resolve_relation :: "capability \<Rightarrow> resource_type \<Rightarrow> authz_error + string" where
  "resolve_relation c t =
     (case RELATION t c of None \<Rightarrow> Inl (NoRelation c t) | Some r \<Rightarrow> Inr r)"

definition to_boolean :: "bool option \<Rightarrow> bool" where
  \<comment> \<open>\<open>Boolean(allowed)\<close>: an absent answer is false\<close>
  "to_boolean a = (a = Some True)"

definition run_before :: "authz_env \<Rightarrow> check_context \<Rightarrow> bool option" where
  \<comment> \<open>\<open>await hooks.beforeCheck?.(ctx)\<close>\<close>
  "run_before e ctx = (case before_check (hooks e) of None \<Rightarrow> None | Some f \<Rightarrow> f ctx)"

definition run_after :: "authz_env \<Rightarrow> check_context \<Rightarrow> bool \<Rightarrow> bool" where
  \<comment> \<open>\<open>(await hooks.afterCheck?.(ctx, b)) ?? b\<close>\<close>
  "run_after e ctx b = (case after_check (hooks e) of None \<Rightarrow> b | Some f \<Rightarrow> nullish b (f ctx b))"

subsection \<open>\<open>check\<close> and \<open>checkRelation\<close>\<close>

definition check ::
  "'s fga \<Rightarrow> authz_env \<Rightarrow> string \<Rightarrow> capability \<Rightarrow> resource_ref \<Rightarrow> (string \<times> string) list option
   \<Rightarrow> 's \<Rightarrow> 's \<times> (authz_error + bool)" where
  "check fga e user cap res context s =
     (case authz_scope_for_check e of
        Inl err \<Rightarrow> (s, Inl (ScopeErr err))
      | Inr _ \<Rightarrow>
     (case restriction_allows e res of
        Inl err \<Rightarrow> (s, Inl (ScopeErr err))
      | Inr False \<Rightarrow> (s, Inr False)
      | Inr True \<Rightarrow>
     (case resolve_relation cap (rtype res) of
        Inl err \<Rightarrow> (s, Inl err)
      | Inr relation \<Rightarrow>
          let ctx = \<lparr>ctx_user = user, ctx_relation = relation, ctx_resource = res\<rparr> in
     (case run_before e ctx of
        Some b \<Rightarrow> (s, Inr b)
      | None \<Rightarrow>
     (case fga_check fga s
             \<lparr>rq_user = user, rq_relation = relation,
              rq_object = fga_object (rtype res) (rid res), rq_corr = '''', rq_context = context\<rparr> of
        (s', Inl msg) \<Rightarrow> (s', Inl (StoreThrew msg))
      | (s', Inr allowed) \<Rightarrow> (s', Inr (run_after e ctx (to_boolean allowed))))))))"

definition check_relation ::
  "'s fga \<Rightarrow> authz_env \<Rightarrow> string \<Rightarrow> string \<Rightarrow> resource_ref \<Rightarrow> (string \<times> string) list option
   \<Rightarrow> 's \<Rightarrow> 's \<times> (authz_error + bool)" where
  "check_relation fga e user relation res context s =
     (case restriction_allows e res of
        Inl err \<Rightarrow> (s, Inl (ScopeErr err))
      | Inr False \<Rightarrow> (s, Inr False)
      | Inr True \<Rightarrow>
     (case fga_check fga s
             \<lparr>rq_user = user, rq_relation = relation,
              rq_object = fga_object (rtype res) (rid res), rq_corr = '''', rq_context = context\<rparr> of
        (s', Inl msg) \<Rightarrow> (s', Inl (StoreThrew msg))
      | (s', Inr allowed) \<Rightarrow> (s', Inr (to_boolean allowed))))"

subsection \<open>One round trip of \<open>filterAuthorized\<close>\<close>

record query =
  q_user :: string
  q_relation :: string
  q_rtype :: resource_type
  q_context :: "(string \<times> string) list option"

definition query_ctx :: "query \<Rightarrow> string \<Rightarrow> check_context" where
  "query_ctx q i =
     \<lparr>ctx_user = q_user q, ctx_relation = q_relation q,
      ctx_resource = \<lparr>rtype = q_rtype q, rid = i\<rparr>\<rparr>"

definition by_corr :: "string list \<Rightarrow> (string \<times> string) list" where
  "by_corr batch = map (\<lambda>(j, i). (nat_str j, i)) (enumerate 0 batch)"

definition batch_checks :: "query \<Rightarrow> string list \<Rightarrow> check_req list" where
  "batch_checks q batch =
     map (\<lambda>(j, i). \<lparr>rq_user = q_user q, rq_relation = q_relation q,
                    rq_object = fga_object (q_rtype q) i, rq_corr = nat_str j,
                    rq_context = q_context q\<rparr>) (enumerate 0 batch)"

text \<open>The walk over the response: what it adds to \<open>out\<close>, to \<open>answered\<close>, and the first error.\<close>

record walk =
  w_out :: "string set"
  w_answered :: "string set"
  w_first_error :: string

definition walk_entry ::
  "authz_env \<Rightarrow> query \<Rightarrow> (string \<times> string) list \<Rightarrow> batch_entry \<Rightarrow> walk \<Rightarrow> walk" where
  "walk_entry e q corr r w =
     (case map_of corr (en_corr r) of
        None \<Rightarrow> w
      | Some i \<Rightarrow>
          (case en_error r of
             Some msg \<Rightarrow> w\<lparr>w_first_error := (if w_first_error w = [] then msg else w_first_error w)\<rparr>
           | None \<Rightarrow>
               let final = run_after e (query_ctx q i) (to_boolean (en_allowed r)) in
               w\<lparr>w_answered := insert i (w_answered w),
                 w_out := (if final then insert i (w_out w) else w_out w)\<rparr>))"

fun walk_result ::
  "authz_env \<Rightarrow> query \<Rightarrow> (string \<times> string) list \<Rightarrow> batch_entry list \<Rightarrow> walk \<Rightarrow> walk" where
  "walk_result e q corr [] w = w"
| "walk_result e q corr (r # rs) w = walk_result e q corr rs (walk_entry e q corr r w)"

definition ask_store ::
  "'s fga \<Rightarrow> authz_env \<Rightarrow> query \<Rightarrow> string list \<Rightarrow> string set \<Rightarrow> 's
   \<Rightarrow> 's \<times> (authz_error + string set \<times> string list \<times> string)" where
  "ask_store fga e q batch out s =
     (case fga_batch_check fga s (batch_checks q batch) of
        (s', Inl msg) \<Rightarrow> (s', Inl (StoreThrew msg))
      | (s', Inr result) \<Rightarrow>
          let w = walk_result e q (by_corr batch) result
                    \<lparr>w_out = out, w_answered = {}, w_first_error = []\<rparr>
          in (s', Inr (w_out w, filter (\<lambda>i. i \<notin> w_answered w) batch, w_first_error w)))"


subsection \<open>The degradation port\<close>

text \<open>
  A sink observes one report and changes its own state \<open>'l\<close>. One that throws is caught, so it is
  a function too: what it did before it threw.
\<close>

type_synonym 'l sink = "(degradation \<Rightarrow> 'l \<Rightarrow> 'l) option"

definition report_authz_degradation :: "'l sink \<Rightarrow> degradation \<Rightarrow> 'l \<Rightarrow> 'l" where
  "report_authz_degradation sink d l = (case sink of None \<Rightarrow> l | Some f \<Rightarrow> f d l)"

subsection \<open>\<open>runChunk\<close>: one wide trip, one narrower pass, the report and the refusal\<close>

definition BATCH_CHECK_MAX :: nat where "BATCH_CHECK_MAX = 50"
definition BATCH_RETRY_WIDTH :: nat where "BATCH_RETRY_WIDTH = 10"

fun retry_silent ::
  "'s fga \<Rightarrow> authz_env \<Rightarrow> query \<Rightarrow> string list list \<Rightarrow> string set \<Rightarrow> string list \<Rightarrow> string \<Rightarrow> 's
   \<Rightarrow> 's \<times> (authz_error + string set \<times> string list \<times> string)" where
  "retry_silent fga e q [] out silent first_error s = (s, Inr (out, silent, first_error))"
| "retry_silent fga e q (b # bs) out silent first_error s =
     (case ask_store fga e q b out s of
        (s', Inl err) \<Rightarrow> (s', Inl err)
      | (s', Inr (out', un, fe)) \<Rightarrow>
          retry_silent fga e q bs out' (silent @ un) (if fe \<noteq> [] then fe else first_error) s')"

definition no_entry_message :: string where
  "no_entry_message = ''{\"message\":\"the response carried no entry for these ids\"}''"

definition ask_narrower ::
  "'s fga \<Rightarrow> authz_env \<Rightarrow> query \<Rightarrow> ('s \<Rightarrow> bool) \<Rightarrow> string set \<Rightarrow> string list \<Rightarrow> string \<Rightarrow> 's
   \<Rightarrow> 's \<times> (authz_error + string set \<times> string list \<times> string)" where
  \<comment> \<open>the \<open>if (unanswered.length > 0)\<close> block\<close>
  "ask_narrower fga e q aborted out unanswered first_error s =
     (if unanswered = [] then (s, Inr (out, [], first_error))
      else if aborted s then (s, Inl RequesterGone)
      else retry_silent fga e q (chunks BATCH_RETRY_WIDTH unanswered) out [] first_error s)"

definition run_chunk ::
  "'s fga \<Rightarrow> authz_env \<Rightarrow> query \<Rightarrow> ('s \<Rightarrow> bool) \<Rightarrow> 'l sink \<Rightarrow> string list \<Rightarrow> string set \<Rightarrow> 's \<times> 'l
   \<Rightarrow> ('s \<times> 'l) \<times> (authz_error + string set)" where
  "run_chunk fga e q aborted sink chunk out sl =
     (case ask_store fga e q chunk out (fst sl) of
        (s1, Inl err) \<Rightarrow> ((s1, snd sl), Inl err)
      | (s1, Inr (out1, un1, fe1)) \<Rightarrow>
     (case ask_narrower fga e q aborted out1 un1 fe1 s1 of
        (s2, Inl err) \<Rightarrow> ((s2, snd sl), Inl err)
      | (s2, Inr (out2, un2, fe2)) \<Rightarrow>
          let recovered = length un1 - length un2;
              fe3 = (if un2 \<noteq> [] \<and> fe2 = [] then no_entry_message else fe2);
              l2 = (if un2 \<noteq> [] \<or> 0 < recovered
                    then report_authz_degradation sink
                           \<lparr>dg_relation = q_relation q, dg_resource_type = q_rtype q,
                            dg_candidates = length chunk, dg_unanswered = length un2,
                            dg_recovered = recovered, dg_first_error = fe3\<rparr> (snd sl)
                    else snd sl)
          in if chunk \<noteq> [] \<and> length un2 = length chunk
             then ((s2, l2), Inl (AnsweredNone (length chunk) (q_relation q) (q_rtype q)))
             else ((s2, l2), Inr out2)))"

subsection \<open>\<open>filterAuthorized\<close>\<close>

text \<open>Step 1: the restriction and \<open>beforeCheck\<close> decide which ids the store is asked about.\<close>

fun prefilter ::
  "authz_env \<Rightarrow> query \<Rightarrow> string list \<Rightarrow> string set \<Rightarrow> string list
   \<Rightarrow> authz_error + string set \<times> string list" where
  "prefilter e q [] out to_batch = Inr (out, to_batch)"
| "prefilter e q (i # ids) out to_batch =
     (case restriction_allows e \<lparr>rtype = q_rtype q, rid = i\<rparr> of
        Inl err \<Rightarrow> Inl (ScopeErr err)
      | Inr False \<Rightarrow> prefilter e q ids out to_batch
      | Inr True \<Rightarrow>
          (case run_before e (query_ctx q i) of
             Some b \<Rightarrow> prefilter e q ids (if b then insert i out else out) to_batch
           | None \<Rightarrow> prefilter e q ids out (to_batch @ [i])))"

fun run_wave ::
  "'s fga \<Rightarrow> authz_env \<Rightarrow> query \<Rightarrow> ('s \<Rightarrow> bool) \<Rightarrow> 'l sink \<Rightarrow> string list list \<Rightarrow> string set
   \<Rightarrow> 's \<times> 'l \<Rightarrow> ('s \<times> 'l) \<times> (authz_error + string set)" where
  "run_wave fga e q aborted sink [] out sl = (sl, Inr out)"
| "run_wave fga e q aborted sink (c # cs) out sl =
     (case run_chunk fga e q aborted sink c out sl of
        (sl', Inl err) \<Rightarrow> (sl', Inl err)
      | (sl', Inr out') \<Rightarrow> run_wave fga e q aborted sink cs out' sl')"

fun run_waves ::
  "'s fga \<Rightarrow> authz_env \<Rightarrow> query \<Rightarrow> ('s \<Rightarrow> bool) \<Rightarrow> 'l sink \<Rightarrow> string list list list \<Rightarrow> string set
   \<Rightarrow> 's \<times> 'l \<Rightarrow> ('s \<times> 'l) \<times> (authz_error + string set)" where
  "run_waves fga e q aborted sink [] out sl = (sl, Inr out)"
| "run_waves fga e q aborted sink (w # ws) out sl =
     (if aborted (fst sl) then (sl, Inl RequesterGone)
      else
        (case run_wave fga e q aborted sink w out sl of
           (sl', Inl err) \<Rightarrow> (sl', Inl err)
         | (sl', Inr out') \<Rightarrow> run_waves fga e q aborted sink ws out' sl'))"

definition lanes_of :: "int \<Rightarrow> nat" where
  "lanes_of concurrency = nat (max 1 (min concurrency 8))"

definition filter_authorized ::
  "'s fga \<Rightarrow> authz_env \<Rightarrow> string \<Rightarrow> capability \<Rightarrow> string list \<Rightarrow> (string \<times> string) list option
   \<Rightarrow> resource_type \<Rightarrow> int \<Rightarrow> ('s \<Rightarrow> bool) \<Rightarrow> 'l sink \<Rightarrow> 's \<times> 'l
   \<Rightarrow> ('s \<times> 'l) \<times> (authz_error + string set)" where
  "filter_authorized fga e user cap ids context rt concurrency aborted sink sl =
     (case resolve_relation cap rt of
        Inl err \<Rightarrow> (sl, Inl err)
      | Inr relation \<Rightarrow>
          let q = \<lparr>q_user = user, q_relation = relation, q_rtype = rt, q_context = context\<rparr> in
     (case prefilter e q ids {} [] of
        Inl err \<Rightarrow> (sl, Inl err)
      | Inr (out, to_batch) \<Rightarrow>
          run_waves fga e q aborted sink
            (chunks (lanes_of concurrency) (chunks BATCH_CHECK_MAX to_batch)) out sl))"

subsection \<open>\<open>checkMemberAccess\<close>\<close>

record member_access = read_only :: bool

definition find_relation :: "string \<Rightarrow> (string \<times> bool option) list \<Rightarrow> bool" where
  \<comment> \<open>\<open>result.find((r) => r.request.relation === rel)?.allowed ?? false\<close>\<close>
  "find_relation rel result =
     (case find (\<lambda>r. fst r = rel) result of None \<Rightarrow> False | Some r \<Rightarrow> nullish False (snd r))"

definition check_member_access ::
  "('s \<Rightarrow> check_req list \<Rightarrow> 's \<times> (string + (string \<times> bool option) list)) \<Rightarrow> string \<Rightarrow> resource_ref
   \<Rightarrow> 's \<Rightarrow> 's \<times> (authz_error + member_access option)" where
  \<comment> \<open>each result is its request's relation and its \<open>allowed\<close>\<close>
  "check_member_access batch user_id res s =
     (let object = fga_object (rtype res) (rid res);
          user = ''user:'' @ user_id;
          rq = (\<lambda>rel. \<lparr>rq_user = user, rq_relation = rel, rq_object = object, rq_corr = rel,
                       rq_context = None\<rparr>)
      in case batch s [rq ''edit'', rq ''view''] of
           (s', Inl msg) \<Rightarrow> (s', Inl (StoreThrew msg))
         | (s', Inr result) \<Rightarrow>
             (s', Inr (if find_relation ''edit'' result then Some \<lparr>read_only = False\<rparr>
                       else if find_relation ''view'' result then Some \<lparr>read_only = True\<rparr>
                       else None)))"

end
