(* ===== verification/Wk_Authz_Laws.thy ===== *)
theory Wk_Authz_Laws
  imports Wk_Authz
begin

section \<open>What the authorization primitives guarantee\<close>

text \<open>
  The lemmas about \<open>filter_authorized\<close> climb the code: one response entry, one round trip, the
  narrower pass, one chunk, one wave, all waves. Each level is stated for a predicate \<open>P\<close> that the
  store's error-free positive verdicts satisfy, so the same chain gives the facts about an
  arbitrary store (\<open>P\<close> is \<open>True\<close>) and about a store that answers truthfully.
\<close>

definition confirms :: "'s fga \<Rightarrow> authz_env \<Rightarrow> query \<Rightarrow> (string \<Rightarrow> bool) \<Rightarrow> bool" where
  "confirms fga e q P \<longleftrightarrow>
     (\<forall>s batch s' res r i. fga_batch_check fga s (batch_checks q batch) = (s', Inr res) \<longrightarrow>
        r \<in> set res \<longrightarrow> en_error r = None \<longrightarrow> map_of (by_corr batch) (en_corr r) = Some i \<longrightarrow>
        run_after e (query_ctx q i) (to_boolean (en_allowed r)) \<longrightarrow> P i)"

text \<open>A store that answers every check of every batch, without an error.\<close>

definition responsive :: "'s fga \<Rightarrow> query \<Rightarrow> bool" where
  "responsive fga q \<longleftrightarrow>
     (\<forall>s batch s' r. fga_batch_check fga s (batch_checks q batch) = (s', r) \<longrightarrow>
        (\<exists>res. r = Inr res \<and>
          (\<forall>i \<in> set batch. \<exists>r \<in> set res. en_error r = None \<and>
             map_of (by_corr batch) (en_corr r) = Some i)))"

text \<open>A store whose error-free verdicts are those of \<open>V\<close>.\<close>

definition truthful :: "'s fga \<Rightarrow> query \<Rightarrow> (string \<Rightarrow> bool) \<Rightarrow> bool" where
  "truthful fga q V \<longleftrightarrow>
     (\<forall>s batch s' res r i. fga_batch_check fga s (batch_checks q batch) = (s', Inr res) \<longrightarrow>
        r \<in> set res \<longrightarrow> en_error r = None \<longrightarrow> map_of (by_corr batch) (en_corr r) = Some i \<longrightarrow>
        to_boolean (en_allowed r) = V i)"

text \<open>A store that gives no usable verdict: every entry carries an error or names no check.\<close>

definition mute :: "'s fga \<Rightarrow> query \<Rightarrow> bool" where
  "mute fga q \<longleftrightarrow>
     (\<forall>s batch s' res. fga_batch_check fga s (batch_checks q batch) = (s', Inr res) \<longrightarrow>
        (\<forall>r \<in> set res. en_error r = None \<longrightarrow> map_of (by_corr batch) (en_corr r) = None))"

definition final :: "authz_env \<Rightarrow> query \<Rightarrow> (string \<Rightarrow> bool) \<Rightarrow> string \<Rightarrow> bool" where
  "final e q V i = run_after e (query_ctx q i) (V i)"

lemma confirms_True [simp]: "confirms fga e q (\<lambda>_. True)"
  by (simp add: confirms_def)

lemma truthfulD:
  "truthful fga q V \<Longrightarrow> fga_batch_check fga s (batch_checks q batch) = (s', Inr res) \<Longrightarrow>
   r \<in> set res \<Longrightarrow> en_error r = None \<Longrightarrow> map_of (by_corr batch) (en_corr r) = Some i \<Longrightarrow>
   to_boolean (en_allowed r) = V i"
  unfolding truthful_def by blast

lemma truthful_confirms: "truthful fga q V \<Longrightarrow> confirms fga e q (final e q V)"
  by (auto simp: confirms_def final_def dest: truthfulD)

subsection \<open>Correlation ids\<close>

lemma by_corr_fst: "map fst (by_corr batch) = map nat_str [0..<length batch]"
  by (rule nth_equalityI) (auto simp: by_corr_def nth_enumerate_eq)

lemma by_corr_distinct: "distinct (map fst (by_corr batch))"
  by (auto simp: by_corr_fst distinct_map inj_on_def)

lemma by_corr_nth: "j < length batch \<Longrightarrow> map_of (by_corr batch) (nat_str j) = Some (batch ! j)"
proof -
  assume "j < length batch"
  then have "(nat_str j, batch ! j) \<in> set (by_corr batch)"
    by (force simp: by_corr_def in_set_enumerate_eq)
  with by_corr_distinct show ?thesis by (rule map_of_is_SomeI)
qed

lemma by_corr_range: "map_of (by_corr batch) c = Some i \<Longrightarrow> i \<in> set batch"
  by (drule map_of_SomeD) (auto simp: by_corr_def in_set_enumerate_eq)

subsection \<open>One response\<close>

lemma walk_entry_grows:
  "w_out w \<subseteq> w_out (walk_entry e q corr r w) \<and> w_answered w \<subseteq> w_answered (walk_entry e q corr r w)"
  by (auto simp: walk_entry_def Let_def split: option.splits)

lemma walk_grows:
  "w_out w \<subseteq> w_out (walk_result e q corr rs w) \<and> w_answered w \<subseteq> w_answered (walk_result e q corr rs w)"
proof (induction rs arbitrary: w)
  case (Cons r rs)
  then show ?case using walk_entry_grows [of w e q corr r] by fastforce
qed simp

lemma walk_sound:
  assumes "\<forall>r \<in> set rs. en_error r = None \<longrightarrow> (\<forall>i. map_of corr (en_corr r) = Some i \<longrightarrow>
             run_after e (query_ctx q i) (to_boolean (en_allowed r)) \<longrightarrow> P i)"
  shows "w_out (walk_result e q corr rs w) \<subseteq> w_out w \<union> {i. P i \<and> (\<exists>c. map_of corr c = Some i)}"
  using assms
proof (induction rs arbitrary: w)
  case (Cons r rs)
  have "w_out (walk_entry e q corr r w) \<subseteq> w_out w \<union> {i. P i \<and> (\<exists>c. map_of corr c = Some i)}"
    using Cons.prems by (auto simp: walk_entry_def Let_def split: option.splits)
  with Cons.IH [of "walk_entry e q corr r w"] Cons.prems show ?case by fastforce
qed simp

lemma walk_answered_range:
  "w_answered (walk_result e q corr rs w) \<subseteq> w_answered w \<union> {i. \<exists>c. map_of corr c = Some i}"
proof (induction rs arbitrary: w)
  case (Cons r rs)
  have "w_answered (walk_entry e q corr r w) \<subseteq> w_answered w \<union> {i. \<exists>c. map_of corr c = Some i}"
    by (auto simp: walk_entry_def Let_def split: option.splits)
  with Cons.IH [of "walk_entry e q corr r w"] show ?case by fastforce
qed simp

lemma walk_answers:
  "r \<in> set rs \<Longrightarrow> en_error r = None \<Longrightarrow> map_of corr (en_corr r) = Some i \<Longrightarrow>
   i \<in> w_answered (walk_result e q corr rs w) \<and>
   (run_after e (query_ctx q i) (to_boolean (en_allowed r)) \<longrightarrow> i \<in> w_out (walk_result e q corr rs w))"
proof (induction rs arbitrary: w)
  case (Cons r' rs)
  show ?case
  proof (cases "r = r'")
    case True
    then have "i \<in> w_answered (walk_entry e q corr r' w) \<and>
        (run_after e (query_ctx q i) (to_boolean (en_allowed r)) \<longrightarrow> i \<in> w_out (walk_entry e q corr r' w))"
      using Cons.prems by (simp add: walk_entry_def Let_def)
    then show ?thesis using walk_grows [of "walk_entry e q corr r' w" e q corr rs] by auto
  next
    case False
    with Cons show ?thesis by simp
  qed
qed simp

lemma walk_mute:
  "\<forall>r \<in> set rs. en_error r = None \<longrightarrow> map_of corr (en_corr r) = None \<Longrightarrow>
   w_answered (walk_result e q corr rs w) = w_answered w"
proof (induction rs arbitrary: w)
  case (Cons r rs)
  have "w_answered (walk_entry e q corr r w) = w_answered w"
    using Cons.prems by (auto simp: walk_entry_def split: option.splits)
  with Cons show ?case by simp
qed simp

subsection \<open>One round trip\<close>

lemma ask_store_sound:
  assumes "ask_store fga e q batch out s = (s', Inr (out', un, fe))" and "confirms fga e q P"
  shows "out \<subseteq> out'" "out' \<subseteq> out \<union> {i \<in> set batch. P i}"
    and "set un \<subseteq> set batch" "length un \<le> length batch"
proof -
  obtain res where res: "fga_batch_check fga s (batch_checks q batch) = (s', Inr res)"
    and out': "out' = w_out (walk_result e q (by_corr batch) res \<lparr>w_out = out, w_answered = {}, w_first_error = []\<rparr>)"
    and un: "un = filter (\<lambda>i. i \<notin> w_answered (walk_result e q (by_corr batch) res
                \<lparr>w_out = out, w_answered = {}, w_first_error = []\<rparr>)) batch"
    using assms(1) by (auto simp: ask_store_def Let_def split: prod.splits sum.splits)
  show "out \<subseteq> out'"
    using walk_grows [of "\<lparr>w_out = out, w_answered = {}, w_first_error = []\<rparr>" e q "by_corr batch" res]
    by (simp add: out')
  have "\<forall>r \<in> set res. en_error r = None \<longrightarrow> (\<forall>i. map_of (by_corr batch) (en_corr r) = Some i \<longrightarrow>
             run_after e (query_ctx q i) (to_boolean (en_allowed r)) \<longrightarrow> P i)"
    using assms(2) res unfolding confirms_def by blast
  from walk_sound [OF this, of "\<lparr>w_out = out, w_answered = {}, w_first_error = []\<rparr>"]
  show "out' \<subseteq> out \<union> {i \<in> set batch. P i}" by (auto simp: out' dest: by_corr_range)
  show "set un \<subseteq> set batch" "length un \<le> length batch" by (auto simp: un)
qed

lemma ask_store_complete:
  assumes "ask_store fga e q batch out s = (s', r)" and "responsive fga q" and "truthful fga q V"
  shows "\<exists>out' fe. r = Inr (out', [], fe) \<and> {i \<in> set batch. final e q V i} \<subseteq> out'"
proof -
  obtain s1 r1 where call: "fga_batch_check fga s (batch_checks q batch) = (s1, r1)" by fastforce
  then obtain res where r1: "r1 = Inr res"
    and ans: "\<forall>i \<in> set batch. \<exists>x \<in> set res. en_error x = None \<and> map_of (by_corr batch) (en_corr x) = Some i"
    using assms(2) unfolding responsive_def by blast
  define w where "w = walk_result e q (by_corr batch) res \<lparr>w_out = out, w_answered = {}, w_first_error = []\<rparr>"
  have "i \<in> w_answered w \<and> (final e q V i \<longrightarrow> i \<in> w_out w)" if i: "i \<in> set batch" for i
  proof -
    obtain x where x: "x \<in> set res" "en_error x = None" "map_of (by_corr batch) (en_corr x) = Some i"
      using ans i by blast
    have "to_boolean (en_allowed x) = V i"
      using assms(3) call r1 x unfolding truthful_def by blast
    with walk_answers [OF x, of e q] show ?thesis
      by (simp add: w_def final_def)
  qed
  then show ?thesis
    using assms(1) call r1 by (auto simp: ask_store_def w_def [symmetric] Let_def filter_empty_conv)
qed

lemma ask_store_mute:
  "ask_store fga e q batch out s = (s', Inr (out', un, fe)) \<Longrightarrow> mute fga q \<Longrightarrow> un = batch"
  by (auto simp: ask_store_def mute_def Let_def walk_mute split: prod.splits sum.splits)


subsection \<open>The narrower pass\<close>

lemma retry_silent_sound:
  assumes "retry_silent fga e q bs out silent fe s = (s', Inr (out', silent', fe'))"
    and "confirms fga e q P"
  shows "out \<subseteq> out' \<and> out' \<subseteq> out \<union> {i \<in> set (concat bs). P i} \<and>
    (\<exists>un. silent' = silent @ un \<and> set un \<subseteq> set (concat bs) \<and> length un \<le> length (concat bs))"
  using assms(1)
proof (induction bs arbitrary: out silent fe s)
  case (Cons b bs)
  then obtain s1 out1 un1 fe1 where ask: "ask_store fga e q b out s = (s1, Inr (out1, un1, fe1))"
    and rest: "retry_silent fga e q bs out1 (silent @ un1) (if fe1 \<noteq> [] then fe1 else fe) s1
                 = (s', Inr (out', silent', fe'))"
    by (auto split: prod.splits sum.splits)
  note a = ask_store_sound [OF ask assms(2)]
  from Cons.IH [OF rest] obtain un where un: "silent' = silent @ un1 @ un"
      "set un \<subseteq> set (concat bs)" "length un \<le> length (concat bs)"
    and out': "out1 \<subseteq> out'" "out' \<subseteq> out1 \<union> {i \<in> set (concat bs). P i}" by auto
  have "out \<subseteq> out' \<and> out' \<subseteq> out \<union> {i \<in> set (concat (b # bs)). P i}"
    using a(1,2) out' by auto
  moreover have "silent' = silent @ (un1 @ un) \<and> set (un1 @ un) \<subseteq> set (concat (b # bs)) \<and>
      length (un1 @ un) \<le> length (concat (b # bs))"
    using a(3,4) un by auto
  ultimately show ?case by blast
qed auto

lemma retry_silent_mute:
  "retry_silent fga e q bs out silent fe s = (s', Inr (out', silent', fe')) \<Longrightarrow> mute fga q \<Longrightarrow>
   silent' = silent @ concat bs"
proof (induction bs arbitrary: out silent fe s)
  case (Cons b bs)
  then obtain s1 out1 un1 fe1 where ask: "ask_store fga e q b out s = (s1, Inr (out1, un1, fe1))"
    and rest: "retry_silent fga e q bs out1 (silent @ un1) (if fe1 \<noteq> [] then fe1 else fe) s1
                 = (s', Inr (out', silent', fe'))"
    by (auto split: prod.splits sum.splits)
  from ask_store_mute [OF ask Cons.prems(2)] Cons.IH [OF rest Cons.prems(2)] show ?case by simp
qed auto

lemma BATCH_RETRY_WIDTH_pos [simp]: "0 < BATCH_RETRY_WIDTH"
  by (simp add: BATCH_RETRY_WIDTH_def)

lemma BATCH_CHECK_MAX_pos [simp]: "0 < BATCH_CHECK_MAX"
  by (simp add: BATCH_CHECK_MAX_def)

lemma ask_narrower_sound:
  assumes "ask_narrower fga e q ab out un fe s = (s', Inr (out', un', fe'))" and "confirms fga e q P"
  shows "out \<subseteq> out' \<and> out' \<subseteq> out \<union> {i \<in> set un. P i} \<and> set un' \<subseteq> set un \<and> length un' \<le> length un"
proof (cases "un = []")
  case True
  with assms(1) show ?thesis by (simp add: ask_narrower_def)
next
  case False
  with assms(1) have "retry_silent fga e q (chunks BATCH_RETRY_WIDTH un) out [] fe s = (s', Inr (out', un', fe'))"
    by (auto simp: ask_narrower_def split: if_splits)
  from retry_silent_sound [OF this assms(2)] show ?thesis by auto
qed

subsection \<open>One chunk\<close>

lemma run_chunk_sound:
  assumes "run_chunk fga e q ab sink c out sl = (sl', Inr out')" and "confirms fga e q P"
  shows "out \<subseteq> out' \<and> out' \<subseteq> out \<union> {i \<in> set c. P i}"
proof -
  obtain s1 out1 un1 fe1 s2 out2 un2 fe2
    where ask: "ask_store fga e q c out (fst sl) = (s1, Inr (out1, un1, fe1))"
      and nar: "ask_narrower fga e q ab out1 un1 fe1 s1 = (s2, Inr (out2, un2, fe2))"
      and out': "out' = out2"
    using assms(1) by (auto simp: run_chunk_def Let_def split: prod.splits sum.splits if_splits)
  from ask_store_sound [OF ask assms(2)] ask_narrower_sound [OF nar assms(2)] show ?thesis
    by (auto simp: out')
qed

lemma run_chunk_complete:
  assumes "run_chunk fga e q (\<lambda>_. False) sink c out sl = (sl', r)"
    and "responsive fga q" "truthful fga q V"
  shows "\<exists>out'. r = Inr out' \<and> {i \<in> set c. final e q V i} \<subseteq> out'"
proof -
  obtain s1 r1 where ask: "ask_store fga e q c out (fst sl) = (s1, r1)" by fastforce
  from ask_store_complete [OF this assms(2,3)]
  obtain out1 fe1 where "r1 = Inr (out1, [], fe1)" and "{i \<in> set c. final e q V i} \<subseteq> out1" by blast
  with ask assms(1) show ?thesis
    by (auto simp: run_chunk_def ask_narrower_def)
qed

lemma run_chunk_mute:
  assumes "run_chunk fga e q ab sink c out sl = (sl', r)" and "mute fga q" and "c \<noteq> []"
  shows "\<exists>err. r = Inl err"
proof (rule ccontr)
  assume "\<nexists>err. r = Inl err"
  then obtain out' where r: "r = Inr out'" by (cases r) auto
  with assms(1) obtain s1 out1 un1 fe1 s2 out2 un2 fe2
    where ask: "ask_store fga e q c out (fst sl) = (s1, Inr (out1, un1, fe1))"
      and nar: "ask_narrower fga e q ab out1 un1 fe1 s1 = (s2, Inr (out2, un2, fe2))"
      and ne: "length un2 \<noteq> length c"
    using assms(3) by (auto simp: run_chunk_def Let_def split: prod.splits sum.splits if_splits)
  from ask_store_mute [OF ask assms(2)] have un1: "un1 = c" .
  with nar assms(3) have "retry_silent fga e q (chunks BATCH_RETRY_WIDTH c) out1 [] fe1 s1 = (s2, Inr (out2, un2, fe2))"
    by (auto simp: ask_narrower_def split: if_splits)
  from retry_silent_mute [OF this assms(2)] ne show False by simp
qed

subsection \<open>Waves\<close>

lemma run_wave_sound:
  "run_wave fga e q ab sink cs out sl = (sl', Inr out') \<Longrightarrow> confirms fga e q P \<Longrightarrow>
   out \<subseteq> out' \<and> out' \<subseteq> out \<union> {i \<in> set (concat cs). P i}"
proof (induction cs arbitrary: out sl)
  case (Cons c cs)
  then obtain sl1 out1 where one: "run_chunk fga e q ab sink c out sl = (sl1, Inr out1)"
    and rest: "run_wave fga e q ab sink cs out1 sl1 = (sl', Inr out')"
    by (auto split: prod.splits sum.splits)
  from run_chunk_sound [OF one Cons.prems(2)] Cons.IH [OF rest Cons.prems(2)] show ?case by auto
qed auto

lemma run_waves_sound:
  "run_waves fga e q ab sink ws out sl = (sl', Inr out') \<Longrightarrow> confirms fga e q P \<Longrightarrow>
   out \<subseteq> out' \<and> out' \<subseteq> out \<union> {i \<in> set (concat (concat ws)). P i}"
proof (induction ws arbitrary: out sl)
  case (Cons w ws)
  then obtain sl1 out1 where one: "run_wave fga e q ab sink w out sl = (sl1, Inr out1)"
    and rest: "run_waves fga e q ab sink ws out1 sl1 = (sl', Inr out')"
    by (auto split: prod.splits sum.splits if_splits)
  from run_wave_sound [OF one Cons.prems(2)] Cons.IH [OF rest Cons.prems(2)] show ?case by auto
qed auto

lemma run_wave_complete:
  "run_wave fga e q (\<lambda>_. False) sink cs out sl = (sl', r) \<Longrightarrow> responsive fga q \<Longrightarrow> truthful fga q V \<Longrightarrow>
   \<exists>out'. r = Inr out' \<and> out \<subseteq> out' \<and> {i \<in> set (concat cs). final e q V i} \<subseteq> out'"
proof (induction cs arbitrary: out sl)
  case (Cons c cs)
  obtain sl1 r1 where one: "run_chunk fga e q (\<lambda>_. False) sink c out sl = (sl1, r1)" by fastforce
  from run_chunk_complete [OF one Cons.prems(2,3)]
  obtain out1 where r1: "r1 = Inr out1" and c: "{i \<in> set c. final e q V i} \<subseteq> out1" by blast
  from one r1 have grow: "out \<subseteq> out1" using run_chunk_sound [of fga e q _ sink c out sl sl1 out1 "\<lambda>_. True"] by simp
  from Cons.prems(1) one r1 have "run_wave fga e q (\<lambda>_. False) sink cs out1 sl1 = (sl', r)" by simp
  from Cons.IH [OF this Cons.prems(2,3)] obtain out'
    where r: "r = Inr out'" and o: "out1 \<subseteq> out'" "{i \<in> set (concat cs). final e q V i} \<subseteq> out'" by blast
  have "{i \<in> set (concat (c # cs)). final e q V i} \<subseteq> out'" using c o by fastforce
  with r grow o(1) show ?case by blast
qed auto

lemma run_waves_complete:
  "run_waves fga e q (\<lambda>_. False) sink ws out sl = (sl', r) \<Longrightarrow> responsive fga q \<Longrightarrow> truthful fga q V \<Longrightarrow>
   \<exists>out'. r = Inr out' \<and> out \<subseteq> out' \<and> {i \<in> set (concat (concat ws)). final e q V i} \<subseteq> out'"
proof (induction ws arbitrary: out sl)
  case (Cons w ws)
  obtain sl1 r1 where one: "run_wave fga e q (\<lambda>_. False) sink w out sl = (sl1, r1)" by fastforce
  from run_wave_complete [OF one Cons.prems(2,3)]
  obtain out1 where r1: "r1 = Inr out1" and w: "out \<subseteq> out1" "{i \<in> set (concat w). final e q V i} \<subseteq> out1"
    by blast
  from Cons.prems(1) one r1 have "run_waves fga e q (\<lambda>_. False) sink ws out1 sl1 = (sl', r)" by simp
  from Cons.IH [OF this Cons.prems(2,3)] obtain out'
    where r: "r = Inr out'" and o: "out1 \<subseteq> out'" "{i \<in> set (concat (concat ws)). final e q V i} \<subseteq> out'"
    by blast
  have "{i \<in> set (concat (concat (w # ws))). final e q V i} \<subseteq> out'" using w(2) o by fastforce
  with r w(1) o(1) show ?case by blast
qed auto


lemma run_wave_mute:
  "run_wave fga e q ab sink cs out sl = (sl', r) \<Longrightarrow> mute fga q \<Longrightarrow> cs \<noteq> [] \<Longrightarrow> \<forall>c \<in> set cs. c \<noteq> [] \<Longrightarrow>
   \<exists>err. r = Inl err"
proof (induction cs arbitrary: out sl)
  case (Cons c cs)
  obtain sl1 r1 where one: "run_chunk fga e q ab sink c out sl = (sl1, r1)" by fastforce
  from run_chunk_mute [OF one Cons.prems(2)] Cons.prems(4) obtain err where "r1 = Inl err" by auto
  with one Cons.prems(1) show ?case by auto
qed simp

subsection \<open>The first step\<close>

definition res_of :: "query \<Rightarrow> string \<Rightarrow> resource_ref" where
  "res_of q i = \<lparr>rtype = q_rtype q, rid = i\<rparr>"

lemma prefilter_result:
  assumes "\<not> (als_store e = None \<and> scope_required e)"
  shows "prefilter e q ids out tb =
    Inr (out \<union> {i \<in> set ids. within_restriction e (res_of q i) \<and> run_before e (query_ctx q i) = Some True},
         tb @ filter (\<lambda>i. within_restriction e (res_of q i) \<and> run_before e (query_ctx q i) = None) ids)"
proof (induction ids arbitrary: out tb)
  case (Cons i ids)
  obtain b where b: "restriction_allows e (res_of q i) = Inr b"
    using restriction_error_iff [of e "res_of q i"] assms
    by (cases "restriction_allows e (res_of q i)") auto
  then have w: "within_restriction e (res_of q i) = b" by (simp add: within_restriction_def)
  show ?case
    using b w by (cases b; cases "run_before e (query_ctx q i)")
      (auto simp: Cons.IH res_of_def)
qed simp

lemma prefilter_error:
  "als_store e = None \<Longrightarrow> scope_required e \<Longrightarrow> ids \<noteq> [] \<Longrightarrow>
   prefilter e q ids out tb = Inl (ScopeErr CallOutsideScope)"
  by (cases ids) (auto simp: restriction_allows_def authz_scope_for_check_def)

lemma prefilter_Inr_scope:
  "prefilter e q ids out tb = Inr r \<Longrightarrow> ids \<noteq> [] \<Longrightarrow> \<not> (als_store e = None \<and> scope_required e)"
  using prefilter_error by fastforce

text \<open>What one id's verdict is when the store says \<open>V\<close>: the specification of the filter.\<close>

definition decide :: "authz_env \<Rightarrow> query \<Rightarrow> (string \<Rightarrow> bool) \<Rightarrow> string \<Rightarrow> bool" where
  "decide e q V i \<longleftrightarrow>
     within_restriction e (res_of q i) \<and>
     (case run_before e (query_ctx q i) of Some b \<Rightarrow> b | None \<Rightarrow> final e q V i)"

subsection \<open>\<open>filterAuthorized\<close>\<close>

definition the_query :: "string \<Rightarrow> string \<Rightarrow> (string \<times> string) list option \<Rightarrow> resource_type \<Rightarrow> query" where
  "the_query user relation context rt =
     \<lparr>q_user = user, q_relation = relation, q_rtype = rt, q_context = context\<rparr>"

lemma lanes_pos [simp]: "0 < lanes_of c"
  by (simp add: lanes_of_def)

lemma lanes_bound: "lanes_of c \<le> 8"
  by (auto simp: lanes_of_def)

lemma filter_authorized_run:
  assumes "filter_authorized fga e user cap ids context rt conc ab sink sl = (sl', Inr S)"
  obtains relation out tb where
    "RELATION rt cap = Some relation"
    "prefilter e (the_query user relation context rt) ids {} [] = Inr (out, tb)"
    "run_waves fga e (the_query user relation context rt) ab sink
       (chunks (lanes_of conc) (chunks BATCH_CHECK_MAX tb)) out sl = (sl', Inr S)"
  using assms
  by (auto simp: filter_authorized_def resolve_relation_def Let_def the_query_def
      split: sum.splits option.splits)

lemma filter_authorized_within:
  assumes run: "filter_authorized fga e user cap ids context rt conc ab sink sl = (sl', Inr S)"
    and rel: "RELATION rt cap = Some relation"
    and conf: "confirms fga e (the_query user relation context rt) P"
    and i: "i \<in> S"
  shows "i \<in> set ids \<and> within_restriction e \<lparr>rtype = rt, rid = i\<rparr> \<and>
    (run_before e (query_ctx (the_query user relation context rt) i) = Some True \<or>
     run_before e (query_ctx (the_query user relation context rt) i) = None \<and> P i)"
proof -
  let ?q = "the_query user relation context rt"
  from run rel obtain out tb
    where pre: "prefilter e ?q ids {} [] = Inr (out, tb)"
      and waves: "run_waves fga e ?q ab sink (chunks (lanes_of conc) (chunks BATCH_CHECK_MAX tb)) out sl
                    = (sl', Inr S)"
    by (elim filter_authorized_run) simp
  have "ids \<noteq> []"
  proof
    assume "ids = []"
    with pre have "out = {} \<and> tb = []" by simp
    with waves i show False by simp
  qed
  with pre have "\<not> (als_store e = None \<and> scope_required e)" by (rule prefilter_Inr_scope)
  from prefilter_result [OF this, of ?q ids "{}" "[]"] pre
  have out: "out = {i \<in> set ids. within_restriction e (res_of ?q i) \<and> run_before e (query_ctx ?q i) = Some True}"
    and tb: "tb = filter (\<lambda>i. within_restriction e (res_of ?q i) \<and> run_before e (query_ctx ?q i) = None) ids"
    by auto
  have "i \<in> out \<or> i \<in> set tb \<and> P i"
    using run_waves_sound [OF waves conf] i by auto
  then show ?thesis by (auto simp: out tb res_of_def the_query_def)
qed

lemma filter_authorized_sound:
  assumes "filter_authorized fga e user cap ids context rt conc ab sink sl = (sl', Inr S)"
    and "RELATION rt cap = Some relation"
    and "truthful fga (the_query user relation context rt) V"
  shows "S \<subseteq> {i \<in> set ids. decide e (the_query user relation context rt) V i}"
proof
  fix i assume "i \<in> S"
  from filter_authorized_within [OF assms(1,2) truthful_confirms [OF assms(3)] this]
  show "i \<in> {i \<in> set ids. decide e (the_query user relation context rt) V i}"
    by (auto simp: decide_def res_of_def the_query_def)
qed

lemma filter_authorized_exact:
  assumes run: "filter_authorized fga e user cap ids context rt conc (\<lambda>_. False) sink sl = (sl', r)"
    and rel: "RELATION rt cap = Some relation"
    and scope: "als_store e \<noteq> None \<or> \<not> scope_required e"
    and resp: "responsive fga (the_query user relation context rt)"
    and truth: "truthful fga (the_query user relation context rt) V"
  shows "r = Inr {i \<in> set ids. decide e (the_query user relation context rt) V i}"
proof -
  let ?q = "the_query user relation context rt"
  let ?out = "{i \<in> set ids. within_restriction e (res_of ?q i) \<and> run_before e (query_ctx ?q i) = Some True}"
  let ?tb = "filter (\<lambda>i. within_restriction e (res_of ?q i) \<and> run_before e (query_ctx ?q i) = None) ids"
  have "prefilter e ?q ids {} [] = Inr (?out, ?tb)"
    using prefilter_result [of e ?q ids "{}" "[]"] scope by auto
  with run rel have waves:
    "run_waves fga e ?q (\<lambda>_. False) sink (chunks (lanes_of conc) (chunks BATCH_CHECK_MAX ?tb)) ?out sl = (sl', r)"
    by (simp add: filter_authorized_def resolve_relation_def the_query_def Let_def)
  from run_waves_complete [OF this resp truth] obtain S where r: "r = Inr S"
    and S: "?out \<subseteq> S" "{i \<in> set ?tb. final e ?q V i} \<subseteq> S" by auto
  have "i \<in> S" if "i \<in> set ids" "decide e ?q V i" for i
    using S that by (cases "run_before e (query_ctx ?q i)") (auto simp: decide_def)
  then have "{i \<in> set ids. decide e ?q V i} \<subseteq> S" by blast
  with filter_authorized_sound [OF run [unfolded r] rel truth] r show ?thesis by blast
qed

lemma filter_authorized_mute:
  assumes run: "filter_authorized fga e user cap ids context rt conc ab sink sl = (sl', r)"
    and rel: "RELATION rt cap = Some relation"
    and mute: "mute fga (the_query user relation context rt)"
    and i: "i \<in> set ids" "within_restriction e \<lparr>rtype = rt, rid = i\<rparr>"
      "run_before e (query_ctx (the_query user relation context rt) i) = None"
  shows "\<exists>err. r = Inl err"
proof (rule ccontr)
  assume "\<nexists>err. r = Inl err"
  then obtain S where r: "r = Inr S" by (cases r) auto
  let ?q = "the_query user relation context rt"
  from run [unfolded r] rel obtain out tb
    where pre: "prefilter e ?q ids {} [] = Inr (out, tb)"
      and waves: "run_waves fga e ?q ab sink (chunks (lanes_of conc) (chunks BATCH_CHECK_MAX tb)) out sl
                    = (sl', Inr S)"
    by (elim filter_authorized_run) simp
  from i(1) have "ids \<noteq> []" by auto
  with pre have "\<not> (als_store e = None \<and> scope_required e)" by (rule prefilter_Inr_scope)
  from prefilter_result [OF this, of ?q ids "{}" "[]"] pre i have tb: "tb \<noteq> []"
    by (fastforce simp: res_of_def the_query_def filter_empty_conv)
  then obtain w ws where ws: "chunks (lanes_of conc) (chunks BATCH_CHECK_MAX tb) = w # ws"
    by (cases "chunks (lanes_of conc) (chunks BATCH_CHECK_MAX tb)")
      (auto dest: arg_cong [where f = concat] arg_cong [where f = "concat \<circ> concat"])
  then have w: "w \<noteq> []" "\<forall>c \<in> set w. c \<noteq> []"
    using chunks_length [of w "lanes_of conc" "chunks BATCH_CHECK_MAX tb"]
      chunks_subset [of "lanes_of conc" w "chunks BATCH_CHECK_MAX tb"] chunks_length [of _ BATCH_CHECK_MAX tb]
    by force+
  obtain sl1 r1 where one: "run_wave fga e ?q ab sink w out sl = (sl1, r1)" by fastforce
  from run_wave_mute [OF one mute w] one waves ws show False by (auto split: if_splits)
qed

subsection \<open>What the store is asked\<close>

text \<open>
  An invariant of the store state that every batch of 1 to 50 checks preserves is preserved by
  the whole filter: instantiated with a recording store, no request is ever wider than the
  server's limit.
\<close>

definition kept_by_small :: "'s fga \<Rightarrow> ('s \<Rightarrow> bool) \<Rightarrow> bool" where
  "kept_by_small fga I \<longleftrightarrow>
     (\<forall>s cs s' r. I s \<longrightarrow> 0 < length cs \<longrightarrow> length cs \<le> 50 \<longrightarrow>
        fga_batch_check fga s cs = (s', r) \<longrightarrow> I s')"

lemma length_batch_checks [simp]: "length (batch_checks q batch) = length batch"
  by (simp add: batch_checks_def)

lemma ask_store_keeps:
  assumes "ask_store fga e q batch out s = (s', r)" "kept_by_small fga I" "I s" "batch \<noteq> []" "length batch \<le> 50"
  shows "I s'"
proof -
  obtain r' where "fga_batch_check fga s (batch_checks q batch) = (s', r')"
    using assms(1) by (auto simp: ask_store_def Let_def split: prod.splits sum.splits)
  with assms(2-) show ?thesis unfolding kept_by_small_def
    by (metis length_batch_checks length_greater_0_conv)
qed

lemma retry_silent_keeps:
  "retry_silent fga e q bs out silent fe s = (s', r) \<Longrightarrow> kept_by_small fga I \<Longrightarrow> I s \<Longrightarrow>
   \<forall>b \<in> set bs. b \<noteq> [] \<and> length b \<le> 50 \<Longrightarrow> I s'"
proof (induction bs arbitrary: out silent fe s)
  case (Cons b bs)
  obtain s1 r1 where ask: "ask_store fga e q b out s = (s1, r1)" by fastforce
  have "I s1" using ask_store_keeps [OF ask Cons.prems(2,3)] Cons.prems(4) by simp
  with Cons ask show ?case by (auto split: sum.splits)
qed auto

lemma ask_narrower_keeps:
  assumes "ask_narrower fga e q ab out un fe s = (s', r)" "kept_by_small fga I" "I s"
  shows "I s'"
proof -
  have "\<forall>b \<in> set (chunks BATCH_RETRY_WIDTH un). b \<noteq> [] \<and> length b \<le> 50"
    using chunks_length [of _ BATCH_RETRY_WIDTH un] by (fastforce simp: BATCH_RETRY_WIDTH_def)
  with assms show ?thesis
    by (auto simp: ask_narrower_def split: if_splits dest: retry_silent_keeps)
qed

lemma run_chunk_keeps:
  assumes "run_chunk fga e q ab sink c out sl = (sl', r)" "kept_by_small fga I" "I (fst sl)"
    "c \<noteq> []" "length c \<le> 50"
  shows "I (fst sl')"
proof -
  obtain s1 r1 where ask: "ask_store fga e q c out (fst sl) = (s1, r1)" by fastforce
  from ask_store_keeps [OF this assms(2-)] have s1: "I s1" .
  show ?thesis
  proof (cases r1)
    case (Inl err)
    with ask assms(1) s1 show ?thesis by (auto simp: run_chunk_def)
  next
    case (Inr x)
    obtain out1 un1 fe1 where x: "x = (out1, un1, fe1)" by (cases x)
    obtain s2 r2 where nar: "ask_narrower fga e q ab out1 un1 fe1 s1 = (s2, r2)" by fastforce
    from ask_narrower_keeps [OF this assms(2) s1] have "I s2" .
    with ask nar Inr x assms(1) show ?thesis
      by (auto simp: run_chunk_def Let_def split: sum.splits prod.splits if_splits)
  qed
qed

lemma run_wave_keeps:
  "run_wave fga e q ab sink cs out sl = (sl', r) \<Longrightarrow> kept_by_small fga I \<Longrightarrow> I (fst sl) \<Longrightarrow>
   \<forall>c \<in> set cs. c \<noteq> [] \<and> length c \<le> 50 \<Longrightarrow> I (fst sl')"
proof (induction cs arbitrary: out sl)
  case (Cons c cs)
  obtain sl1 r1 where one: "run_chunk fga e q ab sink c out sl = (sl1, r1)" by fastforce
  have "I (fst sl1)" using run_chunk_keeps [OF one Cons.prems(2,3)] Cons.prems(4) by simp
  with Cons one show ?case by (auto split: sum.splits)
qed auto

lemma run_waves_keeps:
  "run_waves fga e q ab sink ws out sl = (sl', r) \<Longrightarrow> kept_by_small fga I \<Longrightarrow> I (fst sl) \<Longrightarrow>
   \<forall>c \<in> set (concat ws). c \<noteq> [] \<and> length c \<le> 50 \<Longrightarrow> I (fst sl')"
proof (induction ws arbitrary: out sl)
  case (Cons w ws)
  obtain sl1 r1 where one: "run_wave fga e q ab sink w out sl = (sl1, r1)" by fastforce
  have "I (fst sl1)" using run_wave_keeps [OF one Cons.prems(2,3)] Cons.prems(4) by simp
  with Cons one show ?case by (auto split: sum.splits if_splits)
qed auto

lemma filter_authorized_keeps:
  assumes "filter_authorized fga e user cap ids context rt conc ab sink sl = (sl', r)"
    and "kept_by_small fga I" and "I (fst sl)"
  shows "I (fst sl')"
proof -
  have "\<forall>c \<in> set (chunks BATCH_CHECK_MAX tb). c \<noteq> [] \<and> length c \<le> 50" for tb :: "string list"
    using chunks_length [of _ BATCH_CHECK_MAX tb] by (fastforce simp: BATCH_CHECK_MAX_def)
  then have ok: "\<forall>c \<in> set (concat (chunks (lanes_of conc) (chunks BATCH_CHECK_MAX tb))). c \<noteq> [] \<and> length c \<le> 50"
    for tb :: "string list" by (simp only: concat_chunks [OF lanes_pos])
  show ?thesis
    using assms(1) run_waves_keeps [OF _ assms(2,3) ok] assms(3)
    by (auto simp: filter_authorized_def Let_def split: sum.splits prod.splits)
qed

subsection \<open>The degradation port observes and does not decide\<close>

lemma run_chunk_sink:
  "(fst (fst (run_chunk fga e q ab sink c out (s, l))), snd (run_chunk fga e q ab sink c out (s, l))) =
   (fst (fst (run_chunk fga e q ab sink' c out (s, l'))), snd (run_chunk fga e q ab sink' c out (s, l')))"
  by (auto simp: run_chunk_def Let_def split: sum.splits prod.splits)

lemma run_wave_sink:
  "fst (fst (run_wave fga e q ab sink cs out (s, l))) = fst (fst (run_wave fga e q ab sink' cs out (s, l'))) \<and>
   snd (run_wave fga e q ab sink cs out (s, l)) = snd (run_wave fga e q ab sink' cs out (s, l'))"
proof (induction cs arbitrary: out s l l')
  case (Cons c cs)
  obtain s1 l1 r1 where one: "run_chunk fga e q ab sink c out (s, l) = ((s1, l1), r1)" by (metis prod.exhaust)
  with run_chunk_sink [of fga e q ab sink c out s l sink' l'] obtain l2
    where "run_chunk fga e q ab sink' c out (s, l') = ((s1, l2), r1)" by (metis fst_conv prod.exhaust snd_conv)
  with one show ?case using Cons.IH by (cases r1) auto
qed simp

lemma run_waves_sink:
  "fst (fst (run_waves fga e q ab sink ws out (s, l))) = fst (fst (run_waves fga e q ab sink' ws out (s, l'))) \<and>
   snd (run_waves fga e q ab sink ws out (s, l)) = snd (run_waves fga e q ab sink' ws out (s, l'))"
proof (induction ws arbitrary: out s l l')
  case (Cons w ws)
  obtain s1 l1 r1 where one: "run_wave fga e q ab sink w out (s, l) = ((s1, l1), r1)" by (metis prod.exhaust)
  with run_wave_sink [of fga e q ab sink w out s l sink' l'] obtain l2
    where "run_wave fga e q ab sink' w out (s, l') = ((s1, l2), r1)" by (metis fst_conv prod.exhaust snd_conv)
  with one show ?case using Cons.IH by (cases r1) auto
qed simp

subsection \<open>\<open>check\<close> against the specification\<close>

text \<open>A store whose single checks answer \<open>V\<close>.\<close>

definition check_truthful :: "'s fga \<Rightarrow> query \<Rightarrow> (string \<Rightarrow> bool) \<Rightarrow> bool" where
  "check_truthful fga q V \<longleftrightarrow>
     (\<forall>s i. \<exists>s' a. fga_check fga s
        \<lparr>rq_user = q_user q, rq_relation = q_relation q, rq_object = fga_object (q_rtype q) i,
         rq_corr = [], rq_context = q_context q\<rparr> = (s', Inr a) \<and> to_boolean a = V i)"

lemma check_decides:
  assumes "RELATION rt cap = Some relation" and "als_store e \<noteq> None \<or> \<not> scope_required e"
    and "check_truthful fga (the_query user relation context rt) V"
  shows "snd (check fga e user cap \<lparr>rtype = rt, rid = i\<rparr> context s)
           = Inr (decide e (the_query user relation context rt) V i)"
proof -
  obtain s' a where call: "fga_check fga s
        \<lparr>rq_user = user, rq_relation = relation, rq_object = fga_object rt i,
         rq_corr = [], rq_context = context\<rparr> = (s', Inr a)" and a: "to_boolean a = V i"
    using assms(3) unfolding check_truthful_def the_query_def by fastforce
  obtain b where b: "restriction_allows e \<lparr>rtype = rt, rid = i\<rparr> = Inr b"
    using restriction_error_iff [of e "\<lparr>rtype = rt, rid = i\<rparr>"] assms(2)
    by (cases "restriction_allows e \<lparr>rtype = rt, rid = i\<rparr>") auto
  obtain sc where sc: "authz_scope_for_check e = Inr sc"
    using assms(2) by (cases "als_store e") (auto simp: authz_scope_for_check_def)
  have ctx: "\<lparr>ctx_user = user, ctx_relation = relation, ctx_resource = \<lparr>rtype = rt, rid = i\<rparr>\<rparr>
      = query_ctx (the_query user relation context rt) i"
    by (simp add: query_ctx_def the_query_def)
  show ?thesis
    using assms(1) b sc call a
    by (cases b; cases "run_before e (query_ctx (the_query user relation context rt) i)")
      (auto simp: check_def resolve_relation_def decide_def within_restriction_def res_of_def
        final_def ctx the_query_def Let_def)
qed

subsection \<open>A concrete store\<close>

text \<open>
  A store that answers every check with the verdict \<open>V\<close> on its object: what a healthy OpenFGA
  does. It shows that the hypotheses about stores above can hold; nothing rests on it.
\<close>

definition verdict_store :: "(string \<Rightarrow> bool) \<Rightarrow> unit fga" where
  "verdict_store V =
     \<lparr>fga_check = (\<lambda>s c. (s, Inr (Some (V (rq_object c))))),
      fga_batch_check = (\<lambda>s cs. (s, Inr (map (\<lambda>c. \<lparr>en_corr = rq_corr c, en_error = None,
         en_allowed = Some (V (rq_object c))\<rparr>) cs)))\<rparr>"

lemma verdict_store_responsive: "responsive (verdict_store V) q"
proof -
  have "\<exists>r \<in> set (map (\<lambda>c. \<lparr>en_corr = rq_corr c, en_error = None, en_allowed = Some (V (rq_object c))\<rparr>)
            (batch_checks q batch)). en_error r = None \<and> map_of (by_corr batch) (en_corr r) = Some i"
    if i: "i \<in> set batch" for batch i
  proof -
    obtain j where j: "j < length batch" "batch ! j = i" using i by (auto simp: in_set_conv_nth)
    then have "(j, i) \<in> set (enumerate 0 batch)" by (auto simp: in_set_enumerate_eq)
    then show ?thesis using by_corr_nth [OF j(1)] j(2)
      by (force simp: batch_checks_def)
  qed
  then show ?thesis by (simp add: responsive_def verdict_store_def)
qed

lemma verdict_store_truthful: "truthful (verdict_store V) q (\<lambda>i. V (fga_object (q_rtype q) i))"
  by (auto simp: truthful_def verdict_store_def batch_checks_def in_set_enumerate_eq by_corr_nth
      to_boolean_def)

lemma verdict_store_check: "check_truthful (verdict_store V) q (\<lambda>i. V (fga_object (q_rtype q) i))"
  by (simp add: check_truthful_def verdict_store_def to_boolean_def)

text \<open>A store that drops every answer, and one that records how wide each batch was.\<close>

definition silent_store :: "unit fga" where
  "silent_store = \<lparr>fga_check = (\<lambda>s c. (s, Inr None)), fga_batch_check = (\<lambda>s cs. (s, Inr []))\<rparr>"

lemma silent_store_mute: "mute silent_store q"
  by (simp add: mute_def silent_store_def)

definition recording :: "'s fga \<Rightarrow> ('s \<times> nat list) fga" where
  "recording f =
     \<lparr>fga_check = (\<lambda>(s, ws) c. let (s', r) = fga_check f s c in ((s', ws), r)),
      fga_batch_check = (\<lambda>(s, ws) cs. let (s', r) = fga_batch_check f s cs in ((s', length cs # ws), r))\<rparr>"

lemma recording_kept: "kept_by_small (recording f) (\<lambda>(s, ws). list_all (\<lambda>w. 0 < w \<and> w \<le> 50) ws)"
  by (auto simp: kept_by_small_def recording_def split: prod.splits)

subsection \<open>Properties\<close>

text \<open>
  C1. The batched filter is the per-id check. On a store that answers every check and answers the
  batch and the single question alike, \<open>filterAuthorized\<close> returns exactly the ids for which
  \<open>check\<close> returns true, whatever the registered hooks, the restriction in scope, the lane count,
  the chunking and the degradation sink are.
\<close>

theorem filter_authorized_equals_check:
  assumes "RELATION rt cap = Some relation"
    and "als_store e \<noteq> None \<or> \<not> scope_required e"
    and "responsive fga (the_query user relation context rt)"
    and "truthful fga (the_query user relation context rt) V"
    and "check_truthful fga (the_query user relation context rt) V"
  shows "snd (filter_authorized fga e user cap ids context rt conc (\<lambda>_. False) sink (s, l)) =
    Inr {i \<in> set ids. snd (check fga e user cap \<lparr>rtype = rt, rid = i\<rparr> context s) = Inr True}"
proof -
  obtain sl' r where run: "filter_authorized fga e user cap ids context rt conc (\<lambda>_. False) sink (s, l) = (sl', r)"
    by fastforce
  from filter_authorized_exact [OF run assms(1-4)]
  show ?thesis by (simp add: run check_decides [OF assms(1,2,5)])
qed

theorem filter_authorized_equals_check_witness:
  "snd (filter_authorized (verdict_store (\<lambda>ob. ob = ''page:b'')) initial_env ''user:u'' View [''a'', ''b'', ''b'']
       None PageR 1 (\<lambda>_. False) (None :: unit sink) ((), ())) =
     Inr {i \<in> set [''a'', ''b'', ''b''].
       snd (check (verdict_store (\<lambda>ob. ob = ''page:b'')) initial_env ''user:u'' View
              \<lparr>rtype = PageR, rid = i\<rparr> None ()) = Inr True}"
  by (rule filter_authorized_equals_check [OF _ _ verdict_store_responsive verdict_store_truthful])
    (auto simp: initial_env_def check_truthful_def verdict_store_def to_boolean_def the_query_def)

text \<open>
  C2. A failing store only removes ids. If the store's error-free verdicts are true ones, then an
  answer of \<open>filterAuthorized\<close> contains only ids that \<open>check\<close> would admit, however many
  checks came back with an error, came back with no entry, or had to be asked twice.
\<close>

theorem filter_authorized_never_over_grants:
  assumes "RELATION rt cap = Some relation"
    and "als_store e \<noteq> None \<or> \<not> scope_required e"
    and "truthful fga (the_query user relation context rt) V"
    and "check_truthful fga (the_query user relation context rt) V"
    and "snd (filter_authorized fga e user cap ids context rt conc ab sink sl) = Inr S"
    and "i \<in> S"
  shows "i \<in> set ids \<and> snd (check fga e user cap \<lparr>rtype = rt, rid = i\<rparr> context s) = Inr True"
proof -
  from assms(5) obtain sl' where "filter_authorized fga e user cap ids context rt conc ab sink sl = (sl', Inr S)"
    by (metis prod.collapse)
  from filter_authorized_sound [OF this assms(1,3)] assms(6)
  show ?thesis by (auto simp: check_decides [OF assms(1,2,4)])
qed

theorem filter_authorized_never_over_grants_witness:
  "''b'' \<in> set [''a'', ''b''] \<and>
   snd (check (verdict_store (\<lambda>ob. ob = ''page:b'')) initial_env ''user:u'' View \<lparr>rtype = PageR, rid = ''b''\<rparr> None ())
     = Inr True"
proof (rule filter_authorized_never_over_grants [OF _ _ verdict_store_truthful])
  show "snd (filter_authorized (verdict_store (\<lambda>ob. ob = ''page:b'')) initial_env ''user:u'' View [''a'', ''b'']
       None PageR 1 (\<lambda>_. False) (None :: unit sink) ((), ())) = Inr {''b''}"
    by code_simp
qed (auto simp: initial_env_def check_truthful_def verdict_store_def to_boolean_def the_query_def)

text \<open>
  C3. Confinement holds whatever the store says. Every id \<open>filterAuthorized\<close> returns was asked
  about, is inside the restriction of the scope the request runs in, and was not refused by
  \<open>beforeCheck\<close>; this needs no hypothesis about the store.
\<close>

theorem filter_authorized_confined:
  assumes "snd (filter_authorized fga e user cap ids context rt conc ab sink sl) = Inr S" and "i \<in> S"
  shows "i \<in> set ids \<and> restriction_allows e \<lparr>rtype = rt, rid = i\<rparr> = Inr True \<and>
    (\<exists>relation. RELATION rt cap = Some relation \<and>
       run_before e \<lparr>ctx_user = user, ctx_relation = relation, ctx_resource = \<lparr>rtype = rt, rid = i\<rparr>\<rparr>
         \<noteq> Some False)"
proof -
  from assms(1) obtain sl' where run: "filter_authorized fga e user cap ids context rt conc ab sink sl = (sl', Inr S)"
    by (metis prod.collapse)
  from run obtain relation where rel: "RELATION rt cap = Some relation" by (elim filter_authorized_run)
  from filter_authorized_within [OF run rel confirms_True assms(2)] rel show ?thesis
    by (auto simp: within_restriction_def query_ctx_def the_query_def)
qed

definition confined_env :: "string set \<Rightarrow> authz_env" where
  \<comment> \<open>a request on a key confined to some pages' spaces, with the space of each page its first letter\<close>
  "confined_env spaces = initial_env
     \<lparr>als_store := Some (empty_scope\<lparr>restriction := Some spaces\<rparr>),
      evaluator := Some (\<lambda>r res sc. if take 1 (rid res) \<in> r then AllowV else DenyV)\<rparr>"

theorem filter_authorized_confined_witness:
  "''a1'' \<in> set [''a1'', ''b1''] \<and>
   restriction_allows (confined_env {''a''}) \<lparr>rtype = PageR, rid = ''a1''\<rparr> = Inr True \<and>
   (\<exists>relation. RELATION PageR View = Some relation \<and>
      run_before (confined_env {''a''})
        \<lparr>ctx_user = ''user:u'', ctx_relation = relation, ctx_resource = \<lparr>rtype = PageR, rid = ''a1''\<rparr>\<rparr>
        \<noteq> Some False)"
proof (rule filter_authorized_confined)
  show "snd (filter_authorized (verdict_store (\<lambda>_. True)) (confined_env {''a''}) ''user:u'' View
       [''a1'', ''b1''] None PageR 1 (\<lambda>_. False) (None :: unit sink) ((), ())) = Inr {''a1''}"
    by code_simp
qed simp

text \<open>
  C4. No lying-empty. If the store gives no usable verdict at all (each entry missing, or carrying
  an error) and at least one id has to be asked about, \<open>filterAuthorized\<close> fails instead of
  answering with an empty set.
\<close>

theorem filter_authorized_refuses_silence:
  assumes "RELATION rt cap = Some relation"
    and "mute fga (the_query user relation context rt)"
    and "i \<in> set ids"
    and "restriction_allows e \<lparr>rtype = rt, rid = i\<rparr> = Inr True"
    and "run_before e (query_ctx (the_query user relation context rt) i) = None"
  shows "\<exists>err. snd (filter_authorized fga e user cap ids context rt conc ab sink sl) = Inl err"
proof -
  obtain sl' r where "filter_authorized fga e user cap ids context rt conc ab sink sl = (sl', r)" by fastforce
  from filter_authorized_mute [OF this assms(1-3) _ assms(5)] assms(4) this show ?thesis
    by (simp add: within_restriction_def)
qed

theorem filter_authorized_refuses_silence_witness:
  "\<exists>err. snd (filter_authorized silent_store initial_env ''user:u'' View [''a'', ''b''] None PageR 1
       (\<lambda>_. False) (None :: unit sink) ((), ())) = Inl err"
  by (rule filter_authorized_refuses_silence [OF _ silent_store_mute, where i = "''a''"])
    (auto simp: initial_env_def no_hooks_def restriction_allows_def authz_scope_for_check_def
      SYSTEM_SCOPE_def run_before_def)

text \<open>
  C5. No request to the store is wider than the server's limit: run against a store that records
  the width of each batch, the filter leaves only widths between 1 and 50, in the first pass and
  in the narrower one, whatever the store answers.
\<close>

theorem filter_authorized_batch_width:
  "list_all (\<lambda>w. 0 < w \<and> w \<le> 50)
     (snd (fst (fst (filter_authorized (recording fga) e user cap ids context rt conc ab sink ((s, []), l)))))"
proof -
  obtain s' ws l' r where run: "filter_authorized (recording fga) e user cap ids context rt conc ab sink ((s, []), l)
      = (((s', ws), l'), r)"
    by (metis prod.exhaust)
  from filter_authorized_keeps [OF run recording_kept] show ?thesis by (simp add: run)
qed

text \<open>
  The degradation port cannot reach into the answer: with any two sinks (or none), the filter
  leaves the store in the same state and returns the same result.
\<close>

theorem degradation_never_decides:
  "fst (fst (filter_authorized fga e user cap ids context rt conc ab sink (s, l))) =
     fst (fst (filter_authorized fga e user cap ids context rt conc ab sink' (s, l'))) \<and>
   snd (filter_authorized fga e user cap ids context rt conc ab sink (s, l)) =
     snd (filter_authorized fga e user cap ids context rt conc ab sink' (s, l'))"
  using run_waves_sink [where sink = sink and sink' = sink' and s = s and l = l and l' = l']
  by (auto simp: filter_authorized_def Let_def split: sum.splits)

text \<open>
  C6. A restriction nobody can interpret stands: with a restricted scope and no registered
  evaluator, \<open>check\<close>, \<open>checkRelation\<close> and \<open>filterAuthorized\<close> admit nothing and the store
  and the hooks are not consulted.
\<close>

theorem restriction_without_evaluator_refuses:
  assumes "als_store e = Some sc" and "restriction sc = Some r" and "evaluator e = None"
    and "RELATION rt cap' \<noteq> None"
  shows "check fga e user cap res context s = (s, Inr False) \<and>
    check_relation fga e user relation res context s = (s, Inr False) \<and>
    filter_authorized fga e user cap' ids context rt conc ab sink sl = (sl, Inr {})"
proof -
  have no: "restriction_allows e res' = Inr False" for res'
    using assms(1-3) by (rule no_evaluator_refuses)
  then have w: "\<not> within_restriction e res'" for res' by (simp add: within_restriction_def)
  have "prefilter e q ids {} [] = Inr ({}, [])" for q
    using prefilter_result [of e q ids "{}" "[]"] assms(1) by (simp add: w)
  then show ?thesis
    using no assms(1,4)
    by (auto simp: check_def check_relation_def authz_scope_for_check_def filter_authorized_def
        resolve_relation_def)
qed

theorem restriction_without_evaluator_refuses_witness:
  "check (verdict_store (\<lambda>_. True)) ((confined_env {''a''})\<lparr>evaluator := None\<rparr>) ''user:u'' View
      \<lparr>rtype = PageR, rid = ''a1''\<rparr> None () = ((), Inr False) \<and>
   check_relation (verdict_store (\<lambda>_. True)) ((confined_env {''a''})\<lparr>evaluator := None\<rparr>) ''user:u'' ''view''
      \<lparr>rtype = PageR, rid = ''a1''\<rparr> None () = ((), Inr False) \<and>
   filter_authorized (verdict_store (\<lambda>_. True)) ((confined_env {''a''})\<lparr>evaluator := None\<rparr>) ''user:u'' View
      [''a1''] None PageR 1 (\<lambda>_. False) (None :: unit sink) ((), ()) = (((), ()), Inr {})"
  by (rule restriction_without_evaluator_refuses [where r = "{''a''}"]) (simp add: confined_env_def empty_scope_def)+

text \<open>
  C7. Forgetting the scope is a crash, not a widening: in a process that declared
  \<open>requireAuthzScope\<close>, a \<open>check\<close>, a \<open>checkRelation\<close> or a non-empty \<open>filterAuthorized\<close> outside a
  scope throws before the store is asked; inside \<open>runInAuthzScope\<close> the same call does not throw
  for that reason, and the caller's scope is back afterwards.
\<close>

theorem scope_requirement_has_teeth:
  assumes "als_store e = None" and "scope_required e" and "ids \<noteq> []" and "RELATION rt cap' \<noteq> None"
  shows "check fga e user cap res context s = (s, Inl (ScopeErr CallOutsideScope)) \<and>
    check_relation fga e user relation res context s = (s, Inl (ScopeErr CallOutsideScope)) \<and>
    filter_authorized fga e user cap' ids context rt conc ab sink sl = (sl, Inl (ScopeErr CallOutsideScope)) \<and>
    (\<exists>b. snd (run_in_authz_scope SYSTEM_SCOPE (\<lambda>e'. (e', restriction_allows e' res)) e) = Inr b) \<and>
    als_store (fst (run_in_authz_scope SYSTEM_SCOPE (\<lambda>e'. (e', restriction_allows e' res)) e)) = None"
  using assms
  by (auto simp: check_def check_relation_def filter_authorized_def resolve_relation_def prefilter_error
      run_in_authz_scope_def restriction_allows_def authz_scope_for_check_def SYSTEM_SCOPE_def Let_def)

theorem scope_requirement_has_teeth_witness:
  "check (verdict_store (\<lambda>_. True)) (require_authz_scope initial_env) ''user:u'' View
      \<lparr>rtype = PageR, rid = ''a''\<rparr> None () = ((), Inl (ScopeErr CallOutsideScope)) \<and>
   check_relation (verdict_store (\<lambda>_. True)) (require_authz_scope initial_env) ''user:u'' ''view''
      \<lparr>rtype = PageR, rid = ''a''\<rparr> None () = ((), Inl (ScopeErr CallOutsideScope)) \<and>
   filter_authorized (verdict_store (\<lambda>_. True)) (require_authz_scope initial_env) ''user:u'' View [''a'']
      None PageR 1 (\<lambda>_. False) (None :: unit sink) ((), ()) = (((), ()), Inl (ScopeErr CallOutsideScope)) \<and>
   (\<exists>b. snd (run_in_authz_scope SYSTEM_SCOPE (\<lambda>e'. (e', restriction_allows e' \<lparr>rtype = PageR, rid = ''a''\<rparr>))
          (require_authz_scope initial_env)) = Inr b) \<and>
   als_store (fst (run_in_authz_scope SYSTEM_SCOPE (\<lambda>e'. (e', restriction_allows e' \<lparr>rtype = PageR, rid = ''a''\<rparr>))
      (require_authz_scope initial_env))) = None"
  by (rule scope_requirement_has_teeth) (simp_all add: require_authz_scope_def initial_env_def)

end
