(* ===== verification/Wk_Rate.thy ===== *)
theory Wk_Rate
  imports Wk_Prelude
begin

section \<open>Fixed-window rate caps for guests\<close>

text \<open>
  Models \<^verbatim>\<open>apps/server/src/rate-limit.ts\<close>, \<^verbatim>\<open>apps/server/src/abuse-rate.ts\<close> and their twin
  \<^verbatim>\<open>apps/collab/src/abuse-rate.ts\<close>. Valkey is the pair of the counters and the time-to-live it
  was told to give each key; a key that expires is removed by the environment
  (\<open>expire_window\<close>). A cap is a number or \<open>Infinity\<close>. The database row of the tenant's
  caps is an argument; \<open>None\<close> is a missing row or an SQL \<open>NULL\<close>.
\<close>

datatype cap = Unlimited | Cap int

record valkey =
  vk_count :: "string \<rightharpoonup> nat"
  vk_ttl :: "string \<rightharpoonup> nat"

definition vk_incr :: "valkey \<Rightarrow> string \<Rightarrow> valkey \<times> nat" where
  "vk_incr vk k = (let n = Suc (nullish 0 (vk_count vk k)) in (vk\<lparr>vk_count := (vk_count vk)(k \<mapsto> n)\<rparr>, n))"

definition vk_expire :: "valkey \<Rightarrow> string \<Rightarrow> nat \<Rightarrow> valkey" where
  "vk_expire vk k w = vk\<lparr>vk_ttl := (vk_ttl vk)(k \<mapsto> w)\<rparr>"

definition expire_window :: "valkey \<Rightarrow> string \<Rightarrow> valkey" where
  "expire_window vk k = vk\<lparr>vk_count := (vk_count vk)(k := None), vk_ttl := (vk_ttl vk)(k := None)\<rparr>"

subsection \<open>The bucket, in the server and in the collab process\<close>

definition bump_rate_bucket :: "valkey \<Rightarrow> string \<Rightarrow> cap \<Rightarrow> nat \<Rightarrow> valkey \<times> bool" where
  "bump_rate_bucket vk key mx window_s =
     (case mx of
        Unlimited \<Rightarrow> (vk, True)
      | Cap m \<Rightarrow>
          (let (vk1, n) = vk_incr vk key;
               vk2 = (if n = 1 then vk_expire vk1 key window_s else vk1)
           in (vk2, int n \<le> m)))"

definition normalize_rate_max :: "int option \<Rightarrow> cap" where
  "normalize_rate_max mx = (case mx of None \<Rightarrow> Unlimited | Some m \<Rightarrow> if 0 < m then Cap m else Unlimited)"

definition collab_bump_rate_bucket :: "valkey \<Rightarrow> string \<Rightarrow> cap \<Rightarrow> nat \<Rightarrow> valkey \<times> bool" where
  "collab_bump_rate_bucket vk key mx window_s =
     (case mx of
        Unlimited \<Rightarrow> (vk, True)
      | Cap m \<Rightarrow>
          (let (vk1, n) = vk_incr vk key;
               vk2 = (if n = 1 then vk_expire vk1 key window_s else vk1)
           in (vk2, int n \<le> m)))"

definition collab_normalize_rate_max :: "int option \<Rightarrow> cap" where
  "collab_normalize_rate_max mx =
     (case mx of None \<Rightarrow> Unlimited | Some m \<Rightarrow> if 0 < m then Cap m else Unlimited)"

subsection \<open>The two buckets of one guest action\<close>

record guest_identity =
  gi_tenant :: string
  gi_link :: string
  gi_anon :: "string option"

definition js_truthy :: "string option \<Rightarrow> bool" where
  "js_truthy s = (case s of None \<Rightarrow> False | Some x \<Rightarrow> x \<noteq> [])"

definition link_key :: "string \<Rightarrow> guest_identity \<Rightarrow> string" where
  "link_key surface i = ''rl:abuse:'' @ surface @ '':link:'' @ gi_tenant i @ '':'' @ gi_link i"

definition anon_key :: "string \<Rightarrow> guest_identity \<Rightarrow> string" where
  "anon_key surface i = ''rl:abuse:'' @ surface @ '':anon:'' @ gi_tenant i @ '':'' @ nullish [] (gi_anon i)"

definition two_bucket_allowed ::
  "nat \<Rightarrow> valkey \<Rightarrow> guest_identity \<Rightarrow> string \<Rightarrow> int option \<Rightarrow> int option \<Rightarrow> valkey \<times> bool" where
  "two_bucket_allowed window_s vk i surface link_raw session_raw =
     (let link_max = normalize_rate_max link_raw;
          session_max = normalize_rate_max session_raw;
          (vk1, ok_link) = bump_rate_bucket vk (link_key surface i) link_max window_s;
          (vk2, ok_session) = (if js_truthy (gi_anon i)
                               then bump_rate_bucket vk1 (anon_key surface i) session_max window_s
                               else (vk1, True))
      in (vk2, ok_link \<and> ok_session))"

record abuse_caps =
  publish_link_max :: "int option"
  publish_session_max :: "int option"
  create_link_max :: "int option"
  create_session_max :: "int option"
  attach_link_max :: "int option"
  attach_session_max :: "int option"
  attach_guest_max_bytes :: "int option"
  search_link_max :: "int option"
  search_session_max :: "int option"
  connect_link_max :: "int option"
  connect_session_max :: "int option"

definition col :: "(abuse_caps \<Rightarrow> int option) \<Rightarrow> abuse_caps option \<Rightarrow> int option" where
  \<comment> \<open>\<open>caps?.column\<close>\<close>
  "col f caps = (case caps of None \<Rightarrow> None | Some c \<Rightarrow> f c)"


definition guest_create_page_rate_allowed ::
  "nat \<Rightarrow> valkey \<Rightarrow> abuse_caps option \<Rightarrow> guest_identity \<Rightarrow> valkey \<times> bool" where
  "guest_create_page_rate_allowed w vk caps i =
     two_bucket_allowed w vk i ''create'' (col create_link_max caps) (col create_session_max caps)"

definition guest_attach_rate_allowed ::
  "nat \<Rightarrow> valkey \<Rightarrow> abuse_caps option \<Rightarrow> guest_identity \<Rightarrow> valkey \<times> bool" where
  "guest_attach_rate_allowed w vk caps i =
     two_bucket_allowed w vk i ''attach'' (col attach_link_max caps) (col attach_session_max caps)"

definition guest_attach_max_bytes :: "abuse_caps option \<Rightarrow> cap" where
  "guest_attach_max_bytes caps = normalize_rate_max (col attach_guest_max_bytes caps)"

definition guest_search_rate_allowed ::
  "nat \<Rightarrow> valkey \<Rightarrow> abuse_caps option \<Rightarrow> guest_identity \<Rightarrow> valkey \<times> bool" where
  "guest_search_rate_allowed w vk caps i =
     two_bucket_allowed w vk i ''search'' (col search_link_max caps) (col search_session_max caps)"

record connect_caps =
  cc_link_max :: cap
  cc_session_max :: cap

definition read_connect_caps :: "abuse_caps option \<Rightarrow> connect_caps" where
  "read_connect_caps row =
     \<lparr>cc_link_max = collab_normalize_rate_max (col connect_link_max row),
      cc_session_max = collab_normalize_rate_max (col connect_session_max row)\<rparr>"

definition guest_connect_rate_allowed ::
  "nat \<Rightarrow> valkey \<Rightarrow> connect_caps \<Rightarrow> guest_identity \<Rightarrow> valkey \<times> bool" where
  "guest_connect_rate_allowed w vk caps i =
     (let (vk1, ok_link) = collab_bump_rate_bucket vk (link_key ''conn'' i) (cc_link_max caps) w;
          (vk2, ok_session) = (if js_truthy (gi_anon i)
                               then collab_bump_rate_bucket vk1 (anon_key ''conn'' i) (cc_session_max caps) w
                               else (vk1, True))
      in (vk2, ok_link \<and> ok_session))"

subsection \<open>The contract of a bucket\<close>

definition count_of :: "valkey \<Rightarrow> string \<Rightarrow> nat" where
  "count_of vk k = nullish 0 (vk_count vk k)"

text \<open>The state and the verdicts of a series of bumps of one key.\<close>

fun bumps ::
  "(valkey \<Rightarrow> string \<Rightarrow> cap \<Rightarrow> nat \<Rightarrow> valkey \<times> bool) \<Rightarrow> valkey \<Rightarrow> string \<Rightarrow> cap \<Rightarrow> nat \<Rightarrow> nat \<Rightarrow> valkey \<times> bool list" where
  "bumps bump vk k mx w 0 = (vk, [])"
| "bumps bump vk k mx w (Suc n) =
     (let (vk1, ok) = bump vk k mx w; (vk2, oks) = bumps bump vk1 k mx w n in (vk2, ok # oks))"

definition link_then_session ::
  "(valkey \<Rightarrow> string \<Rightarrow> cap \<Rightarrow> nat \<Rightarrow> valkey \<times> bool) \<Rightarrow> nat \<Rightarrow> valkey \<Rightarrow> string \<Rightarrow> cap \<Rightarrow> string option \<Rightarrow> cap
   \<Rightarrow> valkey \<times> bool" where
  "link_then_session bump w vk lk lmax sk smax =
     (let (vk1, ok_link) = bump vk lk lmax w;
          (vk2, ok_session) = (case sk of Some k \<Rightarrow> bump vk1 k smax w | None \<Rightarrow> (vk1, True))
      in (vk2, ok_link \<and> ok_session))"

locale fixed_window_bucket =
  fixes bump :: "valkey \<Rightarrow> string \<Rightarrow> cap \<Rightarrow> nat \<Rightarrow> valkey \<times> bool"
  assumes unlimited: "bump vk k Unlimited w = (vk, True)"
    and counts: "count_of (fst (bump vk k (Cap m) w)) k' = (if k' = k then Suc (count_of vk k) else count_of vk k')"
    and verdict: "snd (bump vk k (Cap m) w) \<longleftrightarrow> int (Suc (count_of vk k)) \<le> m"
    and ttl: "vk_ttl (fst (bump vk k (Cap m) w)) = (if count_of vk k = 0 then (vk_ttl vk)(k \<mapsto> w) else vk_ttl vk)"
begin

lemma count_after: "count_of (fst (bumps bump vk k (Cap m) w n)) k = count_of vk k + n"
  by (induction n arbitrary: vk) (simp_all add: Let_def case_prod_beta counts)

lemma bumps_verdicts:
  "snd (bumps bump vk k (Cap m) w n) = map (\<lambda>j. int (Suc (count_of vk k + j)) \<le> m) [0..<n]"
proof (induction n arbitrary: vk)
  case (Suc n)
  obtain vk1 ok where b: "bump vk k (Cap m) w = (vk1, ok)" by fastforce
  have c: "count_of vk1 k = Suc (count_of vk k)" using counts [of vk k m w k] b by simp
  have ok: "ok \<longleftrightarrow> int (Suc (count_of vk k)) \<le> m" using verdict [of vk k m w] b by simp
  have "snd (bumps bump vk k (Cap m) w (Suc n)) = ok # map (\<lambda>j. int (Suc (count_of vk1 k + j)) \<le> m) [0..<n]"
    using Suc [of vk1] by (simp add: b Let_def case_prod_beta)
  also have "\<dots> = map (\<lambda>j. int (Suc (count_of vk k + j)) \<le> m) [0..<Suc n]"
    by (simp add: c ok upt_conv_Cons map_Suc_upt [symmetric] del: upt_Suc)
  finally show ?case .
qed simp

text \<open>From an empty window exactly the first \<open>m\<close> bumps are within budget.\<close>

lemma budget:
  "count_of vk k = 0 \<Longrightarrow> 0 \<le> m \<Longrightarrow>
   length (filter id (snd (bumps bump vk k (Cap m) w n))) = min n (nat m)"
proof -
  assume "count_of vk k = 0" and m: "0 \<le> m"
  then have "filter id (snd (bumps bump vk k (Cap m) w n)) = map (\<lambda>_. True) (filter (\<lambda>j. j < nat m) [0..<n])"
    by (simp add: bumps_verdicts filter_map comp_def)
      (auto intro!: map_cong filter_cong)
  moreover have "filter (\<lambda>j. j < nat m) [0..<n] = [0..<min n (nat m)]"
    by (induction n) auto
  ultimately show ?thesis by simp
qed

lemma link_then_session_allowed:
  "snd (link_then_session bump w vk lk (Cap m) sk smax) \<Longrightarrow> int (count_of vk lk) < m"
  using verdict [of vk lk m w] by (auto simp: link_then_session_def Let_def split: prod.splits)

lemma link_then_session_other:
  "k \<noteq> lk \<Longrightarrow> sk \<noteq> Some k \<Longrightarrow> count_of (fst (link_then_session bump w vk lk lmax sk smax)) k = count_of vk k"
proof -
  assume k: "k \<noteq> lk" "sk \<noteq> Some k"
  have one: "count_of (fst (bump v k' mx w)) k = count_of v k" if "k \<noteq> k'" for v k' mx
    using that by (cases mx) (simp_all add: unlimited counts)
  show ?thesis
    using k by (cases sk) (simp_all add: link_then_session_def Let_def case_prod_beta one)
qed

end

subsection \<open>Both processes meet the contract\<close>

lemma vk_incr_simps:
  "snd (vk_incr vk k) = Suc (count_of vk k)"
  "count_of (fst (vk_incr vk k)) k' = (if k' = k then Suc (count_of vk k) else count_of vk k')"
  "vk_ttl (fst (vk_incr vk k)) = vk_ttl vk"
  by (simp_all add: vk_incr_def count_of_def Let_def)

lemma vk_expire_simps:
  "count_of (vk_expire vk k w) k' = count_of vk k'"
  "vk_ttl (vk_expire vk k w) = (vk_ttl vk)(k \<mapsto> w)"
  by (simp_all add: vk_expire_def count_of_def)

lemmas valkey_simps = vk_incr_simps vk_expire_simps

interpretation server: fixed_window_bucket bump_rate_bucket
  by unfold_locales (simp_all add: bump_rate_bucket_def Let_def case_prod_beta valkey_simps)

interpretation collab: fixed_window_bucket collab_bump_rate_bucket
  by unfold_locales (simp_all add: collab_bump_rate_bucket_def Let_def case_prod_beta valkey_simps)

definition session_key :: "string \<Rightarrow> guest_identity \<Rightarrow> string option" where
  "session_key surface i = (if js_truthy (gi_anon i) then Some (anon_key surface i) else None)"


lemma connect_is_link_then_session:
  "guest_connect_rate_allowed w vk caps i =
     link_then_session collab_bump_rate_bucket w vk (link_key ''conn'' i) (cc_link_max caps)
       (session_key ''conn'' i) (cc_session_max caps)"
  by (simp add: guest_connect_rate_allowed_def link_then_session_def session_key_def Let_def)

lemma normalize_rate_max_Cap [simp]: "0 < m \<Longrightarrow> normalize_rate_max (Some m) = Cap m"
  by (simp add: normalize_rate_max_def)

lemma normalize_agree: "collab_normalize_rate_max = normalize_rate_max"
  by (simp add: collab_normalize_rate_max_def normalize_rate_max_def fun_eq_iff)

text \<open>A guest identity with a colon-free tenant has its own keys.\<close>

lemma append_eq_same_length: "length a = length b \<Longrightarrow> a @ x = b @ y \<longleftrightarrow> a = b \<and> x = y"
  by (rule append_eq_append_conv) simp

lemma link_key_inject:
  assumes "CHR '':'' \<notin> set (gi_tenant i)" "CHR '':'' \<notin> set (gi_tenant j)"
  shows "link_key s i = link_key s j \<longleftrightarrow> gi_tenant i = gi_tenant j \<and> gi_link i = gi_link j"
  using sep_inject [OF assms, of "gi_link i" "gi_link j"] by (auto simp: link_key_def)

lemma link_key_anon_key [simp]: "link_key s i \<noteq> anon_key s j"
  by (simp add: link_key_def anon_key_def)

subsection \<open>Properties\<close>

text \<open>
  C15. The budget of one window. Whoever bumps a bucket, in the server or in the collab process,
  out of \<open>n\<close> attempts in a window that starts empty exactly \<open>min n m\<close> are allowed when the cap
  is \<open>m\<close>: never more, and never fewer.
\<close>

theorem bucket_budget:
  assumes "count_of vk k = 0" and "0 \<le> m"
  shows "length (filter id (snd (bumps bump_rate_bucket vk k (Cap m) w n))) = min n (nat m) \<and>
         length (filter id (snd (bumps collab_bump_rate_bucket vk k (Cap m) w n))) = min n (nat m)"
  using server.budget [OF assms] collab.budget [OF assms] by blast

definition empty_valkey :: valkey where
  "empty_valkey = \<lparr>vk_count = Map.empty, vk_ttl = Map.empty\<rparr>"

theorem bucket_budget_witness:
  "length (filter id (snd (bumps bump_rate_bucket empty_valkey ''k'' (Cap 3) 60 5))) = min 5 (nat 3) \<and>
   length (filter id (snd (bumps collab_bump_rate_bucket empty_valkey ''k'' (Cap 3) 60 5))) = min 5 (nat 3)"
  by (rule bucket_budget) (simp_all add: empty_valkey_def count_of_def)





end
