(* ===== verification/Wk_Base64.thy ===== *)
theory Wk_Base64
  imports Wk_Prelude
begin

section \<open>Base64url and decimal numbers as the Node runtime codes them\<close>

text \<open>
  What \<open>Buffer.from(s).toString('base64url')\<close> and \<open>Buffer.from(s, 'base64url')\<close> compute, and the
  decimal branch of \<open>Number(s)\<close>. Encoding is unpadded with the URL alphabet. Decoding stops
  at the first \<open>=\<close>, skips characters of neither alphabet, takes the standard and the URL
  alphabet alike, and drops a trailing sextet that makes no byte.
\<close>

definition b64_char :: "nat \<Rightarrow> char" where
  "b64_char v =
     (if v < 26 then char_of (65 + v) else if v < 52 then char_of (71 + v)
      else if v < 62 then char_of (v - 4) else if v = 62 then CHR ''-'' else CHR ''_'')"

definition b64_val :: "char \<Rightarrow> nat option" where
  "b64_val c =
     (let n = of_char c :: nat in
      if 65 \<le> n \<and> n \<le> 90 then Some (n - 65)
      else if 97 \<le> n \<and> n \<le> 122 then Some (n - 71)
      else if 48 \<le> n \<and> n \<le> 57 then Some (n + 4)
      else if c = CHR ''-'' \<or> c = CHR ''+'' then Some 62
      else if c = CHR ''_'' \<or> c = CHR ''/'' then Some 63
      else None)"

lemma b64_val_char [simp]: "v < 64 \<Longrightarrow> b64_val (b64_char v) = Some v"
  by (auto simp: b64_val_def b64_char_def Let_def of_char_of)

fun b64_sextets :: "nat list \<Rightarrow> nat list" where
  "b64_sextets (a # b # c # r) =
     (a div 4) # ((a mod 4) * 16 + b div 16) # ((b mod 16) * 4 + c div 64) # (c mod 64) # b64_sextets r"
| "b64_sextets [a, b] = [a div 4, (a mod 4) * 16 + b div 16, (b mod 16) * 4]"
| "b64_sextets [a] = [a div 4, (a mod 4) * 16]"
| "b64_sextets [] = []"

fun b64_bytes :: "nat list \<Rightarrow> nat list" where
  "b64_bytes (w # x # y # z # r) =
     (w * 4 + x div 16) # ((x mod 16) * 16 + y div 4) # ((y mod 4) * 64 + z) # b64_bytes r"
| "b64_bytes [w, x, y] = [w * 4 + x div 16, (x mod 16) * 16 + y div 4]"
| "b64_bytes [w, x] = [w * 4 + x div 16]"
| "b64_bytes [w] = []"
| "b64_bytes [] = []"

definition base64url_encode :: "string \<Rightarrow> string" where
  "base64url_encode s = map b64_char (b64_sextets (map of_char s))"

definition base64url_decode :: "string \<Rightarrow> string" where
  "base64url_decode s =
     map char_of (b64_bytes (List.map_filter b64_val (takeWhile (\<lambda>c. c \<noteq> CHR ''='') s)))"

lemma b64_sextets_range: "\<forall>x \<in> set bs. x < 256 \<Longrightarrow> \<forall>v \<in> set (b64_sextets bs). v < 64"
  by (induction bs rule: b64_sextets.induct) auto

lemma b64_bytes_sextets: "\<forall>x \<in> set bs. x < 256 \<Longrightarrow> b64_bytes (b64_sextets bs) = bs"
  by (induction bs rule: b64_sextets.induct) auto

lemma b64_char_not_eq: "v < 64 \<Longrightarrow> b64_char v \<noteq> CHR ''='' \<and> b64_char v \<noteq> CHR ''.''"
proof -
  assume "v < 64"
  then have "b64_val (b64_char v) = Some v" by simp
  moreover have "b64_val (CHR ''='') = None" "b64_val (CHR ''.'') = None"
    by (simp_all add: b64_val_def)
  ultimately show ?thesis by auto
qed

lemma map_filter_b64:
  "\<forall>v \<in> set vs. v < 64 \<Longrightarrow> List.map_filter b64_val (map b64_char vs) = vs"
  by (induction vs) (simp_all add: List.map_filter_simps)

lemma base64url_roundtrip [simp]: "base64url_decode (base64url_encode s) = s"
proof -
  let ?bs = "map of_char s :: nat list"
  have b: "\<forall>x \<in> set ?bs. x < 256" by auto
  have v: "\<forall>v \<in> set (b64_sextets ?bs). v < 64" using b by (rule b64_sextets_range)
  then have tw: "takeWhile (\<lambda>c. c \<noteq> CHR ''='') (map b64_char (b64_sextets ?bs)) = map b64_char (b64_sextets ?bs)"
    by (subst takeWhile_eq_all_conv) (auto simp: b64_char_not_eq)
  show ?thesis
    unfolding base64url_decode_def base64url_encode_def tw map_filter_b64 [OF v] b64_bytes_sextets [OF b]
    by (simp add: comp_def)
qed

lemma base64url_no_dot: "CHR ''.'' \<notin> set (base64url_encode s)"
proof -
  have b: "\<forall>x \<in> set (map of_char s :: nat list). x < 256" by auto
  show ?thesis
    using b64_sextets_range [OF b] b64_char_not_eq by (force simp: base64url_encode_def)
qed

lemma b64_sextets_nonempty: "bs \<noteq> [] \<Longrightarrow> b64_sextets bs \<noteq> []"
  by (induction bs rule: b64_sextets.induct) auto

lemma base64url_nonempty: "s \<noteq> [] \<Longrightarrow> base64url_encode s \<noteq> []"
  by (simp add: base64url_encode_def b64_sextets_nonempty)

text \<open>
  \<open>Number(s)\<close>, when it is an integer: exact on a string of decimal digits up to
  \<open>Number.MAX_SAFE_INTEGER\<close>, and \<open>other\<close> on every other string (signs, spaces, exponents, other
  radices, values a double rounds).
\<close>

definition MAX_SAFE_INTEGER :: nat where "MAX_SAFE_INTEGER = 9007199254740991"

definition js_integer :: "(string \<Rightarrow> int option) \<Rightarrow> string \<Rightarrow> int option" where
  "js_integer other s =
     (if s \<noteq> [] \<and> list_all is_digit s \<and> str_nat s \<le> MAX_SAFE_INTEGER
      then Some (int (str_nat s)) else other s)"

lemma js_integer_nat_str [simp]: "n \<le> MAX_SAFE_INTEGER \<Longrightarrow> js_integer other (nat_str n) = Some (int n)"
  using nat_str_digits [of n] by (simp add: js_integer_def list_all_iff)

end
