(* ===== verification/Wk_Search.thy ===== *)
theory Wk_Search
  imports Wk_Authz_Laws Wk_Base64 Wk_Rate
begin

section \<open>Two-stage search\<close>

text \<open>
  Models \<^verbatim>\<open>apps/server/src/search/paginate.ts\<close>, \<^verbatim>\<open>apps/server/src/search/cursor.ts\<close>, the filter that
  \<^verbatim>\<open>apps/server/src/search/driver.ts\<close> sends, and the handler of \<^verbatim>\<open>apps/server/src/routes/search.ts\<close>.
  The index (Meilisearch), the authorization answer and the HMAC are parameters. Both stages act
  on a state \<open>'s\<close> and may throw.
\<close>

record search_hit =
  hit_id :: string
  hit_tenant :: string
  hit_space :: string
  hit_title :: string
  hit_snippet :: "string option"

definition SEARCH_PAGE_SIZE :: nat where "SEARCH_PAGE_SIZE = 20"
definition SEARCH_CANDIDATE_LIMIT :: nat where "SEARCH_CANDIDATE_LIMIT = 60"
definition SEARCH_MAX_SCAN :: nat where "SEARCH_MAX_SCAN = SEARCH_PAGE_SIZE * 10"

subsection \<open>\<open>paginateAuthorized\<close>\<close>

definition paginate_authorized ::
  "search_hit list \<Rightarrow> string set \<Rightarrow> nat \<Rightarrow> nat \<Rightarrow> search_hit list \<times> bool" where
  "paginate_authorized candidates authorized page_size candidate_limit =
     (let authed = filter (\<lambda>h. hit_id h \<in> authorized) candidates
      in (take page_size authed,
          page_size < length authed \<or> candidate_limit \<le> length candidates))"

subsection \<open>\<open>fillAuthorizedPage\<close>\<close>

type_synonym 's fetch_window = "nat \<Rightarrow> nat \<Rightarrow> 's \<Rightarrow> 's \<times> (authz_error + search_hit list)"
type_synonym 's authorize_ids = "string list \<Rightarrow> 's \<Rightarrow> 's \<times> (authz_error + string set)"

text \<open>\<open>for (const h of window) if (authed.has(h.id) && results.length < pageSize) results.push(h)\<close>\<close>

fun push_authorized :: "string set \<Rightarrow> nat \<Rightarrow> search_hit list \<Rightarrow> search_hit list \<Rightarrow> search_hit list" where
  "push_authorized authed page_size [] results = results"
| "push_authorized authed page_size (h # hs) results =
     push_authorized authed page_size hs
       (if hit_id h \<in> authed \<and> length results < page_size then results @ [h] else results)"

text \<open>
  The \<open>while\<close> loop. An iteration that goes round again has read a non-empty window, so the rest
  of the scan budget shrinks.
\<close>

function fill_loop ::
  "'s fetch_window \<Rightarrow> 's authorize_ids \<Rightarrow> nat \<Rightarrow> nat \<Rightarrow> nat \<Rightarrow> nat \<Rightarrow> search_hit list \<Rightarrow> nat \<Rightarrow> 's
   \<Rightarrow> 's \<times> (authz_error + search_hit list \<times> nat option)" where
  "fill_loop fetch auth page_size window_size max_scan offset results scanned s =
     (if \<not> (length results < page_size \<and> scanned < max_scan) then (s, Inr (results, Some offset))
      else
        (case fetch offset window_size s of
           (s1, Inl err) \<Rightarrow> (s1, Inl err)
         | (s1, Inr window) \<Rightarrow>
             if window = [] then (s1, Inr (results, None))
             else
               (case auth (map hit_id window) s1 of
                  (s2, Inl err) \<Rightarrow> (s2, Inl err)
                | (s2, Inr authed) \<Rightarrow>
                    let results' = push_authorized authed page_size window results
                    in if length window < window_size then (s2, Inr (results', None))
                       else fill_loop fetch auth page_size window_size max_scan
                              (offset + length window) results' (scanned + length window) s2)))"
  by pat_completeness auto
termination
  by (relation "measure (\<lambda>(_, _, _, _, max_scan, _, _, scanned, _). max_scan - scanned)")
    (auto simp: diff_less_mono2 simp flip: length_greater_0_conv)

declare fill_loop.simps [simp del]

definition fill_authorized_page ::
  "'s fetch_window \<Rightarrow> 's authorize_ids \<Rightarrow> int option \<Rightarrow> nat option \<Rightarrow> nat option \<Rightarrow> nat option \<Rightarrow> 's
   \<Rightarrow> 's \<times> (authz_error + search_hit list \<times> nat option)" where
  "fill_authorized_page fetch auth start_offset page_size window_size max_scan s =
     fill_loop fetch auth (nullish SEARCH_PAGE_SIZE page_size) (nullish SEARCH_CANDIDATE_LIMIT window_size)
       (nullish SEARCH_MAX_SCAN max_scan) (nat (max 0 (nullish 0 start_offset))) [] 0 s"

subsection \<open>The signed cursor\<close>

record cursor_scope =
  cs_tenant :: string
  cs_principal :: string
  cs_q :: string
  cs_space :: "string option"

definition scope_key :: "cursor_scope \<Rightarrow> string" where
  "scope_key ctx =
     cs_tenant ctx @ NUL @ cs_principal ctx @ NUL @ cs_q ctx @ NUL @ nullish [] (cs_space ctx)"

definition cursor_mac :: "(string \<Rightarrow> string) \<Rightarrow> cursor_scope \<Rightarrow> int \<Rightarrow> string" where
  \<comment> \<open>\<open>hmac\<close> is HMAC-SHA256 under the secret, in base64url\<close>
  "cursor_mac hmac ctx n = hmac (scope_key ctx @ NUL @ (if n < 0 then ''-'' else []) @ nat_str (nat \<bar>n\<bar>))"

definition encode_cursor :: "(string \<Rightarrow> string) \<Rightarrow> nat \<Rightarrow> cursor_scope \<Rightarrow> string" where
  "encode_cursor hmac n ctx = base64url_encode (nat_str n) @ ''.'' @ cursor_mac hmac ctx (int n)"

fun index_of :: "char \<Rightarrow> string \<Rightarrow> nat option" where
  \<comment> \<open>\<open>indexOf\<close>, with \<open>None\<close> for \<open>-1\<close>\<close>
  "index_of c [] = None"
| "index_of c (x # xs) = (if x = c then Some 0 else map_option Suc (index_of c xs))"

definition decode_cursor ::
  "(string \<Rightarrow> string) \<Rightarrow> (string \<Rightarrow> int option) \<Rightarrow> string option \<Rightarrow> cursor_scope \<Rightarrow> nat" where
  "decode_cursor hmac other cursor ctx =
     (case cursor of
        None \<Rightarrow> 0
      | Some c \<Rightarrow>
          (case index_of (CHR ''.'') c of
             None \<Rightarrow> 0
           | Some dot \<Rightarrow>
               if dot = 0 \<or> dot = length c - 1 then 0
               else
                 (case js_integer other (base64url_decode (take dot c)) of
                    None \<Rightarrow> 0
                  | Some n \<Rightarrow>
                      if n \<le> 0 then 0
                      else if drop (dot + 1) c \<noteq> cursor_mac hmac ctx n then 0
                      else nat n)))"

lemma index_of_append: "c \<notin> set xs \<Longrightarrow> index_of c (xs @ c # ys) = Some (length xs)"
  by (induction xs) auto

lemma index_of_SomeD: "index_of c xs = Some n \<Longrightarrow> n < length xs \<and> xs ! n = c"
  by (induction xs arbitrary: n) (auto split: if_splits)

lemma decode_encode:
  "0 < n \<Longrightarrow> n \<le> MAX_SAFE_INTEGER \<Longrightarrow> hmac (scope_key ctx @ NUL @ nat_str n) \<noteq> [] \<Longrightarrow>
   decode_cursor hmac other (Some (encode_cursor hmac n ctx)) ctx = n"
proof -
  assume n: "0 < n" "n \<le> MAX_SAFE_INTEGER" and m: "hmac (scope_key ctx @ NUL @ nat_str n) \<noteq> []"
  have dot: "index_of (CHR ''.'') (encode_cursor hmac n ctx) = Some (length (base64url_encode (nat_str n)))"
    by (simp add: encode_cursor_def index_of_append base64url_no_dot)
  have "base64url_encode (nat_str n) \<noteq> []" by (simp add: base64url_nonempty)
  with n m dot show ?thesis
    by (simp add: decode_cursor_def encode_cursor_def cursor_mac_def)
qed

lemma decode_cursor_authentic:
  assumes "decode_cursor hmac other (Some c) ctx = n" and "0 < n"
  shows "\<exists>d. c = d @ ''.'' @ cursor_mac hmac ctx (int n)"
proof -
  obtain dot where dot: "index_of (CHR ''.'') c = Some dot" and "drop (dot + 1) c = cursor_mac hmac ctx (int n)"
    using assms by (auto simp: decode_cursor_def split: option.splits if_splits)
  with index_of_SomeD [OF dot] show ?thesis
    by (metis Suc_eq_plus1 append_Cons append_Nil id_take_nth_drop)
qed

subsection \<open>The stage-1 filter and the route\<close>

record search_params =
  sp_tenant :: string
  sp_user :: string
  sp_groups :: "string list"
  sp_q :: string
  sp_space :: "string option"
  sp_offset :: "nat option"
  sp_limit :: "nat option"
  sp_omit_viewer :: bool

fun join :: "string \<Rightarrow> string list \<Rightarrow> string" where
  "join sep [] = []"
| "join sep [x] = x"
| "join sep (x # xs) = x @ sep @ join sep xs"

definition QUOTE :: string where "QUOTE = [CHR 0x22]"

definition search_filter :: "(string \<Rightarrow> string \<Rightarrow> string) \<Rightarrow> search_params \<Rightarrow> string" where
  \<comment> \<open>\<open>group_id\<close> is \<open>groupFgaId\<close>, a hash\<close>
  "search_filter group_id p =
     (let base = [''tenantId = '' @ QUOTE @ sp_tenant p @ QUOTE];
          visibility = join '' OR ''
            ([''viewerUsers = '' @ QUOTE @ ''user:'' @ sp_user p @ QUOTE] @
             map (\<lambda>g. ''viewerGroups = '' @ QUOTE @ ''group:'' @ group_id (sp_tenant p) g @ QUOTE) (sp_groups p) @
             [''isPublic = true'']);
          f1 = (if sp_omit_viewer p then base else base @ [''('' @ visibility @ '')'']);
          f2 = (if js_truthy (sp_space p)
                then f1 @ [''spaceId = '' @ QUOTE @ nullish [] (sp_space p) @ QUOTE] else f1)
      in join '' AND '' f2)"

datatype search_principal =
    SMember string "string list"                \<comment> \<open>\<open>req.user\<close>: the sub and the groups\<close>
  | SGuest string "string option" resource_ref  \<comment> \<open>\<open>req.guest\<close>: link id, session id, resource\<close>

record search_request =
  sr_tenant :: string
  sr_principal :: search_principal
  sr_q :: "string option"
  sr_space :: "string option"
  sr_cursor :: "string option"

record search_reply =
  re_status :: nat
  re_hits :: "search_hit list"
  re_has_more :: "bool option"
  re_cursor :: "string option"

definition empty_reply :: search_reply where
  "empty_reply = \<lparr>re_status = 200, re_hits = [], re_has_more = None, re_cursor = None\<rparr>"

record 's search_deps =
  sd_driver :: "search_params \<Rightarrow> 's \<Rightarrow> 's \<times> (authz_error + search_hit list)"
  sd_fga :: "'s fga"
  sd_env :: authz_env
  sd_hmac :: "string \<Rightarrow> string"
  sd_other :: "string \<Rightarrow> int option"
  sd_now :: string
  sd_window_s :: nat

definition authorize_via ::
  "'s search_deps \<Rightarrow> string \<Rightarrow> (string \<times> string) list option \<Rightarrow> string list \<Rightarrow> 's \<Rightarrow> 's \<times> (authz_error + string set)" where
  \<comment> \<open>\<open>(ids) => filterAuthorized(fgaClient, principal, 'view', ids, context)\<close>\<close>
  "authorize_via d subj context ids s =
     (let (sl, r) = filter_authorized (sd_fga d) (sd_env d) subj View ids context PageR 1 (\<lambda>_. False)
                      (None :: unit sink) (s, ())
      in (fst sl, r))"

definition search_route ::
  "'s search_deps \<Rightarrow> search_request \<Rightarrow> abuse_caps option \<Rightarrow> valkey \<Rightarrow> 's
   \<Rightarrow> 's \<times> valkey \<times> (authz_error + search_reply)" where
  "search_route d req caps vk s =
     (let q = js_trim (nullish [] (sr_q req)) in
      if q = [] then (s, vk, Inr empty_reply)
      else
        (case sr_principal req of
           SGuest link anon res \<Rightarrow>
             if rtype res \<noteq> SpaceR then (s, vk, Inr empty_reply)
             else
               (let space = rid res;
                    (vk', ok) = guest_search_rate_allowed (sd_window_s d) vk caps
                                  \<lparr>gi_tenant = sr_tenant req, gi_link = link, gi_anon = anon\<rparr>
                in if \<not> ok
                   then (s, vk', Inr \<lparr>re_status = 429, re_hits = [], re_has_more = None, re_cursor = None\<rparr>)
                   else
                     (let sc = \<lparr>cs_tenant = sr_tenant req, cs_principal = ''share_link:'' @ link,
                                cs_q = q, cs_space = Some space\<rparr>;
                          start = decode_cursor (sd_hmac d) (sd_other d) (sr_cursor req) sc
                      in case fill_authorized_page
                               (\<lambda>offset limit. sd_driver d
                                  \<lparr>sp_tenant = sr_tenant req, sp_user = [], sp_groups = [], sp_q = q,
                                   sp_space = Some space, sp_offset = Some offset, sp_limit = Some limit,
                                   sp_omit_viewer = True\<rparr>)
                               (authorize_via d (''share_link:'' @ link) (Some [(''current_time'', sd_now d)]))
                               (Some (int start)) None (Some SEARCH_CANDIDATE_LIMIT) None s of
                           (s', Inl err) \<Rightarrow> (s', vk', Inl err)
                         | (s', Inr (results, next)) \<Rightarrow>
                             (s', vk', Inr \<lparr>re_status = 200, re_hits = results,
                                re_has_more = Some (SEARCH_PAGE_SIZE \<le> length results),
                                re_cursor = map_option (\<lambda>n. encode_cursor (sd_hmac d) n sc) next\<rparr>)))
         | SMember sub groups \<Rightarrow>
             (let sc = \<lparr>cs_tenant = sr_tenant req, cs_principal = sub, cs_q = q, cs_space = sr_space req\<rparr>;
                  start = decode_cursor (sd_hmac d) (sd_other d) (sr_cursor req) sc
              in case fill_authorized_page
                       (\<lambda>offset limit. sd_driver d
                          \<lparr>sp_tenant = sr_tenant req, sp_user = sub, sp_groups = groups, sp_q = q,
                           sp_space = sr_space req, sp_offset = Some offset, sp_limit = Some limit,
                           sp_omit_viewer = False\<rparr>)
                       (authorize_via d (''user:'' @ sub) None)
                       (Some (int start)) None (Some SEARCH_CANDIDATE_LIMIT) None s of
                   (s', Inl err) \<Rightarrow> (s', vk, Inl err)
                 | (s', Inr (results, next)) \<Rightarrow>
                     (s', vk, Inr \<lparr>re_status = 200, re_hits = results,
                        re_has_more = Some (next \<noteq> None),
                        re_cursor = map_option (\<lambda>n. encode_cursor (sd_hmac d) n sc) next\<rparr>))))"

subsection \<open>Laws of the page filler\<close>

lemma push_authorized_eq:
  "length results \<le> n \<Longrightarrow>
   push_authorized A n w results = take n (results @ filter (\<lambda>h. hit_id h \<in> A) w)"
proof (induction w arbitrary: results)
  case (Cons h w)
  show ?case
  proof (cases "hit_id h \<in> A \<and> length results < n")
    case True
    with Cons.IH [of "results @ [h]"] show ?thesis by simp
  next
    case False
    show ?thesis
    proof (cases "hit_id h \<in> A")
      case True
      with False Cons.prems have "length results = n" by simp
      with Cons.IH [OF Cons.prems] True show ?thesis by simp
    next
      case no: False
      with Cons.IH [OF Cons.prems] show ?thesis by simp
    qed
  qed
qed simp

text \<open>
  The loop rule. \<open>I offset results scanned\<close> is kept by every round that reads a non-empty window;
  the result is then a list that satisfies it, and a cursor is the offset it was reached at.
\<close>

lemma fill_loop_rule:
  assumes "fill_loop fetch auth ps ws ms off results scanned s = (s', Inr (hits, next))"
    and "I off results scanned"
    and "\<And>off results scanned s s1 window s2 authed.
      I off results scanned \<Longrightarrow> length results < ps \<Longrightarrow> scanned < ms \<Longrightarrow>
      fetch off ws s = (s1, Inr window) \<Longrightarrow> window \<noteq> [] \<Longrightarrow>
      auth (map hit_id window) s1 = (s2, Inr authed) \<Longrightarrow>
      I (off + length window) (push_authorized authed ps window results) (scanned + length window)"
  shows "\<exists>off' scanned'. I off' hits scanned' \<and>
    (next = None \<and> (\<exists>o1 w sA sB. off' = o1 + length w \<and> (w = [] \<or> length w < ws) \<and> fetch o1 ws sA = (sB, Inr w)) \<or>
     next = Some off' \<and> (ps \<le> length hits \<or> ms \<le> scanned'))"
  using assms
proof (induction fetch auth ps ws ms off results scanned s rule: fill_loop.induct)
  case (1 fetch auth ps ws ms off results scanned s)
  note unf = fill_loop.simps [of fetch auth ps ws ms off results scanned s]
  show ?case
  proof (cases "length results < ps \<and> scanned < ms")
    case False
    with "1.prems"(1,2) show ?thesis by (auto simp: unf not_less)
  next
    case True
    then have g: "\<not> \<not> (length results < ps \<and> scanned < ms)" by simp
    from True "1.prems"(1) obtain s1 window where f: "fetch off ws s = (s1, Inr window)"
      by (auto simp: unf split: prod.splits sum.splits)
    show ?thesis
    proof (cases "window = []")
      case w: True
      with True f "1.prems"(1) have "hits = results" "next = None" by (auto simp: unf)
      moreover have "off = off + length window" using w by simp
      ultimately show ?thesis using "1.prems"(2) f w by blast
    next
      case ne: False
      with True f "1.prems"(1) obtain s2 A where a: "auth (map hit_id window) s1 = (s2, Inr A)"
        by (auto simp: unf split: prod.splits sum.splits)
      have I': "I (off + length window) (push_authorized A ps window results) (scanned + length window)"
        using "1.prems"(2,3) True f ne a by blast
      show ?thesis
      proof (cases "length window < ws")
        case w: True
        with True f ne a "1.prems"(1) have "hits = push_authorized A ps window results" "next = None"
          by (auto simp: unf)
        with I' f w show ?thesis by blast
      next
        case w: False
        with True f ne a "1.prems"(1)
        have rest: "fill_loop fetch auth ps ws ms (off + length window)
            (push_authorized A ps window results) (scanned + length window) s2 = (s', Inr (hits, next))"
          by (simp add: unf)
        show ?thesis
          by (rule "1.IH" [OF g f [symmetric] refl ne a [symmetric] refl refl w rest I'])
            (rule "1.prems"(3))
      qed
    qed
  qed
qed

text \<open>An authorizer that only returns ids that pass \<open>ok\<close>, and what a page filled through it holds.\<close>

locale authorizer =
  fixes auth :: "'s authorize_ids" and ok :: "string \<Rightarrow> bool"
  assumes confirms: "auth ids s = (s', Inr S) \<Longrightarrow> i \<in> S \<Longrightarrow> i \<in> set ids \<and> ok i"
begin

lemma fill_loop_confirmed:
  assumes "fill_loop fetch auth ps ws ms off results scanned s = (s', Inr (hits, next))"
    and "length results \<le> ps" and "\<forall>h \<in> set results. ok (hit_id h)"
  shows "(\<forall>h \<in> set hits. ok (hit_id h)) \<and> length hits \<le> ps"
proof -
  let ?I = "\<lambda>(off :: nat) results (scanned :: nat). (\<forall>h \<in> set results. ok (hit_id h)) \<and> length results \<le> ps"
  have "?I off results scanned" using assms(2,3) by simp
  from fill_loop_rule [where I = ?I, OF assms(1) this] have "(\<forall>h \<in> set hits. ok (hit_id h)) \<and> length hits \<le> ps"
    if "\<And>results s1 window s2 authed. (\<forall>h \<in> set results. ok (hit_id h)) \<and> length results \<le> ps \<Longrightarrow>
      auth (map hit_id window) s1 = (s2, Inr authed) \<Longrightarrow>
      (\<forall>h \<in> set (push_authorized authed ps window results). ok (hit_id h)) \<and>
        length (push_authorized authed ps window results) \<le> ps"
    using that by blast
  moreover have "(\<forall>h \<in> set (push_authorized A ps window results). ok (hit_id h)) \<and>
        length (push_authorized A ps window results) \<le> ps"
    if I: "(\<forall>h \<in> set results. ok (hit_id h)) \<and> length results \<le> ps"
      and a: "auth (map hit_id window) s1 = (s2, Inr A)" for results s1 window s2 A
  proof -
    from a have "\<forall>i \<in> A. ok i" using confirms by blast
    with I show ?thesis
      by (auto simp: push_authorized_eq dest: in_set_takeD)
  qed
  ultimately show ?thesis by blast
qed

lemma page_confirmed:
  assumes "snd (fill_authorized_page fetch auth st ps ws ms s) = Inr (hits, next)"
  shows "(\<forall>h \<in> set hits. ok (hit_id h)) \<and> length hits \<le> nullish SEARCH_PAGE_SIZE ps"
proof -
  from assms have "fill_authorized_page fetch auth st ps ws ms s =
      (fst (fill_authorized_page fetch auth st ps ws ms s), Inr (hits, next))"
    by (simp add: prod_eq_iff)
  then show ?thesis
    unfolding fill_authorized_page_def by (rule fill_loop_confirmed) auto
qed

end

subsection \<open>The code's authorizer\<close>

definition view_query :: "string \<Rightarrow> (string \<times> string) list option \<Rightarrow> query" where
  "view_query subj context = the_query subj ''view'' context PageR"

text \<open>
  What stage 2 promises of an id: it is inside the scope restriction, and whatever verdicts
  \<open>V\<close> the store's answers tell, the specification \<^const>\<open>decide\<close> of the authorization layer admits it.
\<close>

definition view_confirmed :: "'s search_deps \<Rightarrow> string \<Rightarrow> (string \<times> string) list option \<Rightarrow> string \<Rightarrow> bool" where
  "view_confirmed d subj context i \<longleftrightarrow>
     within_restriction (sd_env d) \<lparr>rtype = PageR, rid = i\<rparr> \<and>
     (\<forall>V. truthful (sd_fga d) (view_query subj context) V \<longrightarrow>
        decide (sd_env d) (view_query subj context) V i)"

lemma authorize_via_confirms:
  assumes "authorize_via d subj context ids s = (s', Inr S)" and i: "i \<in> S"
  shows "i \<in> set ids \<and> view_confirmed d subj context i"
proof -
  from assms(1) obtain sl where run: "filter_authorized (sd_fga d) (sd_env d) subj View ids context PageR 1
      (\<lambda>_. False) (None :: unit sink) (s, ()) = (sl, Inr S)"
    by (auto simp: authorize_via_def split: prod.splits)
  have rel: "RELATION PageR View = Some ''view''" by simp
  from filter_authorized_within [OF run rel confirms_True i] filter_authorized_sound [OF run rel] i
  show ?thesis by (auto simp: view_confirmed_def view_query_def)
qed

interpretation stage2: authorizer "authorize_via d subj ctx" "view_confirmed d subj ctx"
  for d :: "'s search_deps" and subj ctx
  by unfold_locales (rule authorize_via_confirms)

definition request_subject :: "search_request \<Rightarrow> string" where
  "request_subject req =
     (case sr_principal req of SMember sub groups \<Rightarrow> ''user:'' @ sub
      | SGuest link anon res \<Rightarrow> ''share_link:'' @ link)"

definition request_context :: "'s search_deps \<Rightarrow> search_request \<Rightarrow> (string \<times> string) list option" where
  "request_context d req =
     (case sr_principal req of SMember sub groups \<Rightarrow> None
      | SGuest link anon res \<Rightarrow> Some [(''current_time'', sd_now d)])"

lemma search_route_page:
  assumes "search_route d req caps vk s = (s', vk', Inr rep)" and "re_hits rep \<noteq> []"
  obtains fetch st nx where
    "snd (fill_authorized_page fetch (authorize_via d (request_subject req) (request_context d req))
       st None (Some SEARCH_CANDIDATE_LIMIT) None s) = Inr (re_hits rep, nx)"
  using assms
  by (auto simp: search_route_def Let_def case_prod_beta empty_reply_def request_subject_def request_context_def
      split: if_splits search_principal.splits prod.splits sum.splits)

subsection \<open>Pages over a ranked stream\<close>

text \<open>The candidate stream as a list in rank order, and an authorizer that answers from a set.\<close>

definition ranked :: "search_hit list \<Rightarrow> 's fetch_window" where
  "ranked hs offset limit s = (s, Inr (take limit (drop offset hs)))"

definition admits :: "string set \<Rightarrow> 's authorize_ids" where
  "admits A ids s = (s, Inr (A \<inter> set ids))"

definition authorized_hits :: "string set \<Rightarrow> search_hit list \<Rightarrow> search_hit list" where
  "authorized_hits A hs = filter (\<lambda>h. hit_id h \<in> A) hs"

lemma push_window:
  "length results \<le> n \<Longrightarrow>
   push_authorized (A \<inter> set (map hit_id w)) n w results = take n (results @ authorized_hits A w)"
  by (simp add: push_authorized_eq authorized_hits_def cong: filter_cong)

lemma take_append_take: "take n (take n xs @ ys) = take n (xs @ ys)"
  by (cases "n \<le> length xs") auto

lemma ranked_window:
  "take k (drop o1 hs) @ take m (drop (o1 + k) hs) = take (k + m) (drop o1 hs)"
  by (simp add: take_add add.commute)

text \<open>
  Over a ranked stream the loop returns a prefix of the authorized hits of the part it scanned,
  and the cursor is the end of that part.
\<close>

lemma take_length_take: "take (length (take n ys)) ys = take n ys"
  by (cases "n \<le> length ys") auto

lemma ranked_page:
  assumes run: "fill_loop (ranked hs) (admits A) ps ws ms off [] 0 (s :: 's) = (s', Inr (hits, next))"
    and ws: "0 < ws"
  shows "\<exists>k. hits = take ps (authorized_hits A (take k (drop off hs))) \<and>
    (next = None \<and> length hs - off \<le> k \<or>
     next = Some (off + k) \<and> (ps \<le> length hits \<or> ms \<le> k)) \<and> (k = 0 \<or> k < ms + ws)"
proof -
  let ?I = "\<lambda>o1 results scanned. o1 = off + scanned \<and> (scanned = 0 \<or> scanned < ms + ws) \<and>
    results = take ps (authorized_hits A (take scanned (drop off hs)))"
  have base: "?I off [] 0" by (simp add: authorized_hits_def)
  have step: "?I (o1 + length w) (push_authorized B ps w results) (n + length w)"
    if I: "?I o1 results n" and "length results < ps" and n: "n < ms" and f: "ranked hs o1 ws sA = (sB, Inr w)"
      and "w \<noteq> []" and a: "admits A (map hit_id w) sB = (sC, Inr B)" for o1 results n sA sB sC w B
  proof -
    from f have w: "w = take ws (drop o1 hs)" by (simp add: ranked_def)
    then have w2: "w = take (length w) (drop (off + n) hs)" using I take_length_take [of ws "drop o1 hs"] by simp
    from a have B: "B = A \<inter> set (map hit_id w)" by (simp add: admits_def)
    have "push_authorized B ps w results = take ps (results @ authorized_hits A w)"
      unfolding B by (rule push_window) (use I in simp)
    also have "\<dots> = take ps (authorized_hits A (take n (drop off hs) @ w))"
      using I by (simp only: take_append_take authorized_hits_def filter_append)
    also have "take n (drop off hs) @ w = take (n + length w) (drop off hs)"
      using w2 ranked_window [of n off hs "length w"] by metis
    finally have "push_authorized B ps w results = take ps (authorized_hits A (take (n + length w) (drop off hs)))" .
    moreover have "length w \<le> ws" using w by simp
    ultimately show ?thesis using I n by auto
  qed
  have "\<exists>o2 n. ?I o2 hits n \<and> (next = None \<and> (\<exists>o1 w sA sB. o2 = o1 + length w \<and> (w = [] \<or> length w < ws) \<and>
      ranked hs o1 ws (sA :: 's) = (sB, Inr w)) \<or> next = Some o2 \<and> (ps \<le> length hits \<or> ms \<le> n))"
    by (rule fill_loop_rule [where I = ?I, OF run base]) (rule step, assumption+)
  then obtain o2 n where I: "?I o2 hits n"
    and e: "next = None \<and> (\<exists>o1 w sA sB. o2 = o1 + length w \<and> (w = [] \<or> length w < ws) \<and> ranked hs o1 ws (sA :: 's) = (sB, Inr w)) \<or>
     next = Some o2 \<and> (ps \<le> length hits \<or> ms \<le> n)"
    by (elim exE conjE) (rule that, simp, assumption)
  have "length hs - off \<le> n" if "o2 = o1 + length w" "w = [] \<or> length w < ws" "ranked hs o1 ws sA = (sB, Inr w)"
    for o1 w and sA sB :: 's
    using that I ws by (auto simp: ranked_def)
  with I e show ?thesis by blast
qed

text \<open>Every page over an all-authorized ranked stream, with the route's defaults.\<close>

lemma full_page:
  assumes "\<forall>h \<in> set hs. hit_id h \<in> A"
  shows "fill_authorized_page (ranked hs) (admits A) (Some (int off)) None None None s =
    (s, Inr (take 20 (drop off hs), if off + 60 \<le> length hs then Some (off + 60) else None))"
proof -
  let ?w = "take 60 (drop off hs)"
  have p: "push_authorized (A \<inter> set (map hit_id ?w)) 20 ?w [] = take 20 (drop off hs)"
  proof -
    have "authorized_hits A ?w = ?w"
      unfolding authorized_hits_def using assms by (auto simp: filter_id_conv dest: in_set_takeD in_set_dropD)
    then show ?thesis by (subst push_window) simp_all
  qed
  have e: "?w = [] \<longleftrightarrow> length hs \<le> off" by simp
  show ?thesis
  proof (cases "off + 60 \<le> length hs")
    case True
    then have w: "?w \<noteq> []" "length ?w = 60" by auto
    have r: "length (take 20 (drop off hs)) = 20" using True by simp
    have "fill_loop (ranked hs) (admits A) 20 60 200 off [] 0 s =
       fill_loop (ranked hs) (admits A) 20 60 200 (off + 60) (take 20 (drop off hs)) 60 s"
      using w p by (subst fill_loop.simps) (simp add: ranked_def admits_def Let_def)
    also have "\<dots> = (s, Inr (take 20 (drop off hs), Some (off + 60)))"
      using r by (subst fill_loop.simps) simp
    finally show ?thesis
      using True by (simp add: fill_authorized_page_def SEARCH_PAGE_SIZE_def SEARCH_CANDIDATE_LIMIT_def SEARCH_MAX_SCAN_def)
  next
    case False
    then have "fill_loop (ranked hs) (admits A) 20 60 200 off [] 0 s = (s, Inr (take 20 (drop off hs), None))"
      using p e by (subst fill_loop.simps) (auto simp: ranked_def admits_def Let_def)
    then show ?thesis
      using False by (simp add: fill_authorized_page_def SEARCH_PAGE_SIZE_def SEARCH_CANDIDATE_LIMIT_def SEARCH_MAX_SCAN_def)
  qed
qed

subsection \<open>Properties\<close>

text \<open>
  C17. No search result is unconfirmed: every hit the route returns, on the member path and on
  the guest path, is one the authorization layer decides to show to this very principal (the
  restriction of the request's scope, the registered hooks and the store's verdicts included),
  whatever the index returned; and a page never holds more than \<open>SEARCH_PAGE_SIZE\<close> hits.
\<close>

theorem search_hits_confirmed:
  assumes "search_route d req caps vk s = (s', vk', Inr rep)" and h: "h \<in> set (re_hits rep)"
    and "truthful (sd_fga d) (view_query (request_subject req) (request_context d req)) V"
  shows "decide (sd_env d) (view_query (request_subject req) (request_context d req)) V (hit_id h) \<and>
    length (re_hits rep) \<le> SEARCH_PAGE_SIZE"
proof -
  from h have "re_hits rep \<noteq> []" by auto
  with assms(1) obtain fetch st nx where
    "snd (fill_authorized_page fetch (authorize_via d (request_subject req) (request_context d req))
       st None (Some SEARCH_CANDIDATE_LIMIT) None s) = Inr (re_hits rep, nx)"
    by (rule search_route_page)
  then have "(\<forall>h \<in> set (re_hits rep). view_confirmed d (request_subject req) (request_context d req) (hit_id h)) \<and>
      length (re_hits rep) \<le> nullish SEARCH_PAGE_SIZE None"
    by (rule stage2.page_confirmed)
  with h assms(3) show ?thesis by (auto simp: view_confirmed_def)
qed

definition sample_hit :: "string \<Rightarrow> search_hit" where
  "sample_hit i = \<lparr>hit_id = i, hit_tenant = ''t'', hit_space = ''s'', hit_title = i, hit_snippet = None\<rparr>"

definition sample_deps :: "unit search_deps" where
  \<comment> \<open>an index that returns two pages whatever the query, and a store that shows only \<open>p1\<close>\<close>
  "sample_deps =
     \<lparr>sd_driver = (\<lambda>p s. (s, Inr [sample_hit ''p1'', sample_hit ''p2''])),
      sd_fga = verdict_store (\<lambda>ob. ob = ''page:p1''), sd_env = initial_env, sd_hmac = (\<lambda>m. ''mac''),
      sd_other = (\<lambda>_. None), sd_now = ''now'', sd_window_s = 0\<rparr>"

definition sample_search :: search_request where
  "sample_search = \<lparr>sr_tenant = ''t'', sr_principal = SMember ''u'' [], sr_q = Some ''x'', sr_space = None,
     sr_cursor = None\<rparr>"

lemma sample_search_reply:
  "snd (snd (search_route sample_deps sample_search None vk ())) =
     Inr \<lparr>re_status = 200, re_hits = [sample_hit ''p1''], re_has_more = Some False, re_cursor = None\<rparr>"
  by code_simp

lemma sample_search_run:
  "search_route sample_deps sample_search None vk () =
     ((), fst (snd (search_route sample_deps sample_search None vk ())),
      Inr \<lparr>re_status = 200, re_hits = [sample_hit ''p1''], re_has_more = Some False, re_cursor = None\<rparr>)"
  using sample_search_reply [of vk] by (simp add: prod_eq_iff)

theorem search_hits_confirmed_witness:
  "decide initial_env (view_query ''user:u'' None) (\<lambda>i. fga_object PageR i = ''page:p1'') ''p1''"
proof -
  have "view_query (request_subject sample_search) (request_context sample_deps sample_search) = view_query ''user:u'' None"
    by (simp add: request_subject_def request_context_def sample_search_def)
  moreover have "truthful (sd_fga sample_deps) (view_query ''user:u'' None) (\<lambda>i. fga_object PageR i = ''page:p1'')"
    using verdict_store_truthful [of "\<lambda>ob. ob = ''page:p1''" "view_query ''user:u'' None"]
    by (simp add: sample_deps_def view_query_def the_query_def)
  ultimately show ?thesis
    using search_hits_confirmed [OF sample_search_run, of "sample_hit ''p1''" "\<lambda>i. fga_object PageR i = ''page:p1''"]
    by (simp add: sample_hit_def sample_deps_def)
qed

text \<open>
  C18. Deep pagination is exact and bounded: over a ranked candidate stream a page holds the
  first \<open>pageSize\<close> authorized hits, in rank order, of the part of the stream it scanned, and
  nothing else; the page ends without a cursor only when the stream is exhausted; otherwise the
  cursor is the end of the scanned part and the page is full or the scan budget is spent; and the
  scan stops less than one window past the budget.
\<close>

theorem page_exact_and_bounded:
  assumes "fill_authorized_page (ranked hs) (admits A) (Some (int off)) (Some ps) (Some ws) (Some ms) s
      = (s', Inr (hits, cursor))"
    and "0 < ws"
  shows "\<exists>k. hits = take ps (authorized_hits A (take k (drop off hs))) \<and>
    (case cursor of None \<Rightarrow> length hs - off \<le> k
     | Some c \<Rightarrow> c = off + k \<and> (length hits = ps \<or> ms \<le> k)) \<and> k \<le> ms + ws - 1"
proof -
  from assms(1) have "fill_loop (ranked hs) (admits A) ps ws ms off [] 0 s = (s', Inr (hits, cursor))"
    by (simp add: fill_authorized_page_def)
  from ranked_page [OF this assms(2)] assms(2) show ?thesis by (auto intro: le_antisym)
qed

theorem page_exact_and_bounded_witness:
  "\<exists>k. [sample_hit ''b''] = take 1 (authorized_hits {''b''} (take k (drop 0 [sample_hit ''a'', sample_hit ''b'', sample_hit ''c'']))) \<and>
    (case Some 2 of None \<Rightarrow> length [sample_hit ''a'', sample_hit ''b'', sample_hit ''c''] - 0 \<le> k
     | Some c \<Rightarrow> c = 0 + k \<and> (length [sample_hit ''b''] = 1 \<or> (10::nat) \<le> k)) \<and> k \<le> 10 + 2 - 1"
  by (rule page_exact_and_bounded [where s = "()" and s' = "()"])
    (simp_all add: fill_authorized_page_def ranked_def admits_def sample_hit_def fill_loop.simps Let_def)

text \<open>
  C19. The cursor resumes exactly the scan it was minted for: under a MAC that tells two messages
  apart, a cursor minted for a scope decodes in that scope to its offset, and in any other scope
  (another tenant, principal, query or space, all free of NUL) to 0, a restart; and whatever a
  client sends, a non-zero offset is one whose MAC for this scope the client presented.
\<close>

definition nul_free :: "cursor_scope \<Rightarrow> bool" where
  "nul_free c \<longleftrightarrow> CHR 0x00 \<notin> set (cs_tenant c) \<and> CHR 0x00 \<notin> set (cs_principal c) \<and>
     CHR 0x00 \<notin> set (cs_q c) \<and> CHR 0x00 \<notin> set (nullish [] (cs_space c))"

definition same_scope :: "cursor_scope \<Rightarrow> cursor_scope \<Rightarrow> bool" where
  "same_scope c c' \<longleftrightarrow> cs_tenant c = cs_tenant c' \<and> cs_principal c = cs_principal c' \<and>
     cs_q c = cs_q c' \<and> nullish [] (cs_space c) = nullish [] (cs_space c')"

lemma scope_key_inject:
  assumes "nul_free c" "nul_free c'" "scope_key c @ NUL @ x = scope_key c' @ NUL @ x'"
  shows "same_scope c c' \<and> x = x'"
proof -
  from assms(3) have e: "cs_tenant c @ CHR 0x00 # cs_principal c @ CHR 0x00 # cs_q c @ CHR 0x00 # nullish [] (cs_space c) @ CHR 0x00 # x =
     cs_tenant c' @ CHR 0x00 # cs_principal c' @ CHR 0x00 # cs_q c' @ CHR 0x00 # nullish [] (cs_space c') @ CHR 0x00 # x'"
    by (simp add: scope_key_def NUL_def)
  from sep_inject [OF _ _ e] assms(1,2) have e1: "cs_tenant c = cs_tenant c'"
    "cs_principal c @ CHR 0x00 # cs_q c @ CHR 0x00 # nullish [] (cs_space c) @ CHR 0x00 # x =
     cs_principal c' @ CHR 0x00 # cs_q c' @ CHR 0x00 # nullish [] (cs_space c') @ CHR 0x00 # x'"
    by (auto simp: nul_free_def)
  from sep_inject [OF _ _ e1(2)] assms(1,2) have e2: "cs_principal c = cs_principal c'"
    "cs_q c @ CHR 0x00 # nullish [] (cs_space c) @ CHR 0x00 # x = cs_q c' @ CHR 0x00 # nullish [] (cs_space c') @ CHR 0x00 # x'"
    by (auto simp: nul_free_def)
  from sep_inject [OF _ _ e2(2)] assms(1,2) have e3: "cs_q c = cs_q c'"
    "nullish [] (cs_space c) @ CHR 0x00 # x = nullish [] (cs_space c') @ CHR 0x00 # x'"
    by (auto simp: nul_free_def)
  from sep_inject [OF _ _ e3(2)] assms(1,2) e1 e2 e3 show ?thesis
    by (auto simp: nul_free_def same_scope_def)
qed

lemma same_scope_key: "same_scope c c' \<Longrightarrow> scope_key c = scope_key c'"
  by (simp add: same_scope_def scope_key_def)

theorem cursor_resumes_its_scope:
  assumes "0 < n" "n \<le> MAX_SAFE_INTEGER" "nul_free c" "nul_free c'"
    and mac: "inj_on hmac {scope_key c @ NUL @ nat_str n, scope_key c' @ NUL @ nat_str n}"
    and ne: "hmac (scope_key c @ NUL @ nat_str n) \<noteq> []"
  shows "decode_cursor hmac other (Some (encode_cursor hmac n c)) c' = (if same_scope c c' then n else 0)"
proof (cases "same_scope c c'")
  case True
  then have "encode_cursor hmac n c = encode_cursor hmac n c'"
    by (simp add: encode_cursor_def cursor_mac_def same_scope_key)
  with True assms show ?thesis by (simp add: decode_encode same_scope_key)
next
  case False
  let ?d = "base64url_encode (nat_str n)"
  have dot: "index_of (CHR ''.'') (encode_cursor hmac n c) = Some (length ?d)"
    by (simp add: encode_cursor_def index_of_append base64url_no_dot)
  have "hmac (scope_key c @ NUL @ nat_str n) \<noteq> hmac (scope_key c' @ NUL @ nat_str n)"
    using False mac scope_key_inject [OF assms(3,4)] unfolding inj_on_def by blast
  with False dot assms(1,2) show ?thesis
    by (simp add: decode_cursor_def encode_cursor_def cursor_mac_def)
qed

theorem cursor_resumes_its_scope_witness:
  "decode_cursor (\<lambda>m. m) (\<lambda>_. None)
     (Some (encode_cursor (\<lambda>m. m) 60 \<lparr>cs_tenant = ''t'', cs_principal = ''u'', cs_q = ''q'', cs_space = None\<rparr>))
     \<lparr>cs_tenant = ''t'', cs_principal = ''v'', cs_q = ''q'', cs_space = None\<rparr> = 0"
  using cursor_resumes_its_scope [of 60 "\<lparr>cs_tenant = ''t'', cs_principal = ''u'', cs_q = ''q'', cs_space = None\<rparr>"
      "\<lparr>cs_tenant = ''t'', cs_principal = ''v'', cs_q = ''q'', cs_space = None\<rparr>" "\<lambda>m. m" "\<lambda>_. None"]
  by (simp add: MAX_SAFE_INTEGER_def nul_free_def same_scope_def NUL_def)

text \<open>
  C20. A page that fills inside a window throws the rest of the window away: over a ranked stream
  of which every hit is authorized, a page is the first 20 hits from its offset and the cursor
  skips 60, so hits 20 to 59 of the window are on no page that follows; and with fewer than 60
  hits left there is no cursor at all, whatever is left of them.
\<close>

theorem full_page_skips_authorized_hits:
  assumes "set (map hit_id hs) \<subseteq> A"
  shows "fill_authorized_page (ranked hs) (admits A) (Some (int off)) None None None s =
    (s, Inr (take 20 (drop off hs), if off + 60 \<le> length hs then Some (off + 60) else None))"
  using assms by (intro full_page) auto

theorem full_page_skips_authorized_hits_witness:
  "fill_authorized_page (ranked (map (\<lambda>n. sample_hit (nat_str n)) [0..<21])) (admits (set (map nat_str [0..<21])))
     (Some (int 0)) None None None () = ((), Inr (map (\<lambda>n. sample_hit (nat_str n)) [0..<20], None))"
  using full_page_skips_authorized_hits [of "map (\<lambda>n. sample_hit (nat_str n)) [0..<21]" "set (map nat_str [0..<21])" 0 "()"]
  by (simp add: sample_hit_def take_map image_image)

text \<open>
  C21. A guest searches only the space its link admits it to: the space a client asks for does
  not change the answer, and a link to a single page gets the empty reply without touching the
  index, the store or the rate buckets.
\<close>

theorem guest_search_confined:
  assumes "sr_principal req = SGuest link anon res"
  shows "search_route d (req\<lparr>sr_space := sp\<rparr>) caps vk s = search_route d req caps vk s \<and>
    (rtype res = PageR \<longrightarrow> search_route d req caps vk s = (s, vk, Inr empty_reply))"
  using assms by (auto simp: search_route_def Let_def case_prod_beta)

definition page_guest_search :: search_request where
  "page_guest_search = \<lparr>sr_tenant = ''t'', sr_principal = SGuest ''l'' None \<lparr>rtype = PageR, rid = ''p1''\<rparr>,
     sr_q = Some ''x'', sr_space = None, sr_cursor = None\<rparr>"

theorem guest_search_confined_witness:
  "search_route sample_deps page_guest_search None \<lparr>vk_count = (\<lambda>_. None), vk_ttl = (\<lambda>_. None)\<rparr> () =
     ((), \<lparr>vk_count = (\<lambda>_. None), vk_ttl = (\<lambda>_. None)\<rparr>, Inr empty_reply)"
  using guest_search_confined [of page_guest_search "''l''" None "\<lparr>rtype = PageR, rid = ''p1''\<rparr>" sample_deps None None
      "\<lparr>vk_count = (\<lambda>_. None), vk_ttl = (\<lambda>_. None)\<rparr>" "()"]
  by (simp add: page_guest_search_def)

end
