(* ===== verification/Wk_Cache.thy ===== *)
theory Wk_Cache
  imports Wk_Authz_Laws
begin

section \<open>Short-lived caches\<close>

text \<open>
  Models \<^verbatim>\<open>apps/server/src/title-dict-cache.ts\<close>, \<^verbatim>\<open>apps/server/src/tree-confirm-cache.ts\<close> and
  \<^verbatim>\<open>apps/server/src/embed-frameability.ts\<close> with the gate of \<^verbatim>\<open>apps/server/src/page-view-gate.ts\<close>. The
  module-level maps and counters are the fields of a record. A \<open>Map\<close> is an association list in
  insertion order; time is the millisecond clock \<open>now\<close> the code passes around.
\<close>

subsection \<open>The title dictionary of a viewer\<close>

record title_dict_value =
  td_entries :: "(string \<times> string) list"
  td_capped :: bool

type_synonym 'v cache_map = "(string \<times> 'v \<times> int) list"
  \<comment> \<open>\<open>Map<string, { value, expires }>\<close>\<close>

record title_cache =
  tc_cache :: "title_dict_value cache_map"
  tc_generation :: "string \<rightharpoonup> nat"
  tc_inflight :: "string set"

definition TTL_MS :: int where "TTL_MS = 5000"
definition MAX_ENTRIES :: nat where "MAX_ENTRIES = 500"

definition title_dict_generation :: "title_cache \<Rightarrow> string \<Rightarrow> nat" where
  "title_dict_generation st tenant = nullish 0 (tc_generation st tenant)"

definition key_for :: "string \<Rightarrow> string \<Rightarrow> string" where
  "key_for tenant subject = tenant @ NUL @ subject"

definition evict :: "nat \<Rightarrow> ('k \<times> 'e) list \<Rightarrow> ('k \<times> 'e) list" where
  \<comment> \<open>\<open>if (cache.size >= MAX) cache.delete(cache.keys().next().value)\<close>\<close>
  "evict mx m = (if mx \<le> length m then omap_drop_oldest m else m)"

definition get_cached_title_dict ::
  "title_cache \<Rightarrow> string \<Rightarrow> string \<Rightarrow> int \<Rightarrow> title_cache \<times> title_dict_value option" where
  "get_cached_title_dict st tenant subject now =
     (case map_of (tc_cache st) (key_for tenant subject) of
        None \<Rightarrow> (st, None)
      | Some (v, expires) \<Rightarrow>
          if expires \<le> now
          then (st\<lparr>tc_cache := AList.delete (key_for tenant subject) (tc_cache st)\<rparr>, None)
          else (st, Some v))"

definition set_cached_title_dict ::
  "title_cache \<Rightarrow> string \<Rightarrow> string \<Rightarrow> title_dict_value \<Rightarrow> int \<Rightarrow> nat option \<Rightarrow> title_cache" where
  "set_cached_title_dict st tenant subject v now seen =
     (if seen \<noteq> None \<and> seen \<noteq> Some (title_dict_generation st tenant) then st
      else st\<lparr>tc_cache := AList.update (key_for tenant subject) (v, now + TTL_MS)
                            (evict MAX_ENTRIES (tc_cache st))\<rparr>)"

definition invalidate_title_dict_cache :: "title_cache \<Rightarrow> string \<Rightarrow> title_cache" where
  "invalidate_title_dict_cache st tenant =
     st\<lparr>tc_generation := (tc_generation st)(tenant \<mapsto> title_dict_generation st tenant + 1),
        tc_cache := filter (\<lambda>p. \<not> starts_with (fst p) (tenant @ NUL)) (tc_cache st)\<rparr>"

definition begin_title_dict_fill :: "title_cache \<Rightarrow> string \<Rightarrow> string \<Rightarrow> title_cache \<times> bool" where
  "begin_title_dict_fill st tenant subject =
     (let k = key_for tenant subject in
      if k \<in> tc_inflight st then (st, False)
      else (st\<lparr>tc_inflight := insert k (tc_inflight st)\<rparr>, True))"

definition end_title_dict_fill :: "title_cache \<Rightarrow> string \<Rightarrow> string \<Rightarrow> title_cache" where
  "end_title_dict_fill st tenant subject =
     st\<lparr>tc_inflight := tc_inflight st - {key_for tenant subject}\<rparr>"

definition clear_title_dict_cache :: "title_cache \<Rightarrow> title_cache" where
  "clear_title_dict_cache st = \<lparr>tc_cache = [], tc_generation = Map.empty, tc_inflight = {}\<rparr>"

subsection \<open>The page tree's confirm set and badges\<close>

datatype freeze = FrozenFull | FrozenGuests

record badge =
  bd_private :: bool
  bd_frozen :: "freeze option"

record confirm_cache =
  cf_cache :: "(string \<rightharpoonup> bool) cache_map"
  cf_badges :: "badge cache_map"

definition confirm_key :: "string \<Rightarrow> string \<Rightarrow> string \<Rightarrow> string" where
  "confirm_key tenant subject space = tenant @ '' '' @ subject @ '' '' @ space"

definition badge_key :: "string \<Rightarrow> string \<Rightarrow> string" where
  "badge_key tenant page = tenant @ '' '' @ page"

definition BADGE_MAX :: nat where "BADGE_MAX = 5000"

definition get_tree_confirm ::
  "confirm_cache \<Rightarrow> string \<Rightarrow> string \<Rightarrow> string \<Rightarrow> int \<Rightarrow> confirm_cache \<times> (string \<rightharpoonup> bool) option" where
  "get_tree_confirm st tenant subject space now =
     (case map_of (cf_cache st) (confirm_key tenant subject space) of
        None \<Rightarrow> (st, None)
      | Some (v, expires) \<Rightarrow>
          if expires \<le> now
          then (st\<lparr>cf_cache := AList.delete (confirm_key tenant subject space) (cf_cache st)\<rparr>, None)
          else (st, Some v))"

definition set_tree_confirm ::
  "title_cache \<Rightarrow> confirm_cache \<Rightarrow> string \<Rightarrow> string \<Rightarrow> string \<Rightarrow> (string \<rightharpoonup> bool) \<Rightarrow> int \<Rightarrow> nat option
   \<Rightarrow> confirm_cache" where
  "set_tree_confirm tc st tenant subject space v now seen =
     (if seen \<noteq> None \<and> seen \<noteq> Some (title_dict_generation tc tenant) then st
      else st\<lparr>cf_cache := AList.update (confirm_key tenant subject space) (v, now + TTL_MS)
                            (evict MAX_ENTRIES (cf_cache st))\<rparr>)"

definition get_cached_badge ::
  "confirm_cache \<Rightarrow> string \<Rightarrow> string \<Rightarrow> int \<Rightarrow> confirm_cache \<times> badge option" where
  "get_cached_badge st tenant page now =
     (case map_of (cf_badges st) (badge_key tenant page) of
        None \<Rightarrow> (st, None)
      | Some (v, expires) \<Rightarrow>
          if expires \<le> now
          then (st\<lparr>cf_badges := AList.delete (badge_key tenant page) (cf_badges st)\<rparr>, None)
          else (st, Some v))"

definition set_cached_badge :: "confirm_cache \<Rightarrow> string \<Rightarrow> string \<Rightarrow> badge \<Rightarrow> int \<Rightarrow> confirm_cache" where
  "set_cached_badge st tenant page v now =
     st\<lparr>cf_badges := AList.update (badge_key tenant page) (v, now + TTL_MS) (evict BADGE_MAX (cf_badges st))\<rparr>"

definition invalidate_page_badge :: "confirm_cache \<Rightarrow> string \<Rightarrow> string \<Rightarrow> confirm_cache" where
  "invalidate_page_badge st tenant page =
     st\<lparr>cf_badges := AList.delete (badge_key tenant page) (cf_badges st)\<rparr>"

definition clear_tree_confirm_cache_for_tests :: "confirm_cache \<Rightarrow> confirm_cache" where
  "clear_tree_confirm_cache_for_tests st = \<lparr>cf_cache = [], cf_badges = []\<rparr>"

definition invalidate_tree_confirm_cache :: "confirm_cache \<Rightarrow> string \<Rightarrow> confirm_cache" where
  "invalidate_tree_confirm_cache st tenant =
     st\<lparr>cf_cache := filter (\<lambda>p. \<not> starts_with (fst p) (tenant @ '' '')) (cf_cache st),
        cf_badges := filter (\<lambda>p. \<not> starts_with (fst p) (tenant @ '' '')) (cf_badges st)\<rparr>"

subsection \<open>Frameability verdicts\<close>

datatype frameability = Embeddable | Refused

type_synonym frame_cache = "frameability cache_map"

definition POSITIVE_TTL_MS :: int where "POSITIVE_TTL_MS = 7 * 24 * 60 * 60 * 1000"
definition NEGATIVE_TTL_MS :: int where "NEGATIVE_TTL_MS = 60 * 60 * 1000"
definition FRAME_MAX_ENTRIES :: nat where "FRAME_MAX_ENTRIES = 5000"

definition cache_get :: "frame_cache \<Rightarrow> string \<Rightarrow> int \<Rightarrow> frame_cache \<times> frameability option" where
  "cache_get st url now =
     (case map_of st url of
        None \<Rightarrow> (st, None)
      | Some (v, expires) \<Rightarrow> if expires \<le> now then (AList.delete url st, None) else (st, Some v))"

definition cache_set :: "frame_cache \<Rightarrow> string \<Rightarrow> frameability \<Rightarrow> int \<Rightarrow> frame_cache" where
  "cache_set st url v now =
     AList.update url (v, now + (if v = Embeddable then POSITIVE_TTL_MS else NEGATIVE_TTL_MS))
       (evict FRAME_MAX_ENTRIES st)"

definition clear_frameability_cache :: "frame_cache \<Rightarrow> frame_cache" where
  "clear_frameability_cache st = []"

subsection \<open>The contract of a short-lived cache\<close>

text \<open>
  A run of cache operations. \<open>'w\<close> is what a writer hands over for the cache to decide whether
  the write is still acceptable (the generation it read), \<open>'d\<close> names what an invalidation drops.
\<close>

datatype ('k, 'v, 'w, 'd) cache_op = Ask 'k int | Store 'w 'k 'v int | Forget 'd

fun apply_op ::
  "('st \<Rightarrow> 'k \<Rightarrow> int \<Rightarrow> 'st \<times> 'v option) \<Rightarrow> ('st \<Rightarrow> 'w \<Rightarrow> 'k \<Rightarrow> 'v \<Rightarrow> int \<Rightarrow> 'st) \<Rightarrow> ('st \<Rightarrow> 'd \<Rightarrow> 'st)
   \<Rightarrow> ('k, 'v, 'w, 'd) cache_op \<Rightarrow> 'st \<Rightarrow> 'st" where
  "apply_op get put drop_d (Ask k n) st = fst (get st k n)"
| "apply_op get put drop_d (Store w k v n) st = put st w k v n"
| "apply_op get put drop_d (Forget d) st = drop_d st d"

definition run_ops ::
  "('st \<Rightarrow> 'k \<Rightarrow> int \<Rightarrow> 'st \<times> 'v option) \<Rightarrow> ('st \<Rightarrow> 'w \<Rightarrow> 'k \<Rightarrow> 'v \<Rightarrow> int \<Rightarrow> 'st) \<Rightarrow> ('st \<Rightarrow> 'd \<Rightarrow> 'st)
   \<Rightarrow> ('k, 'v, 'w, 'd) cache_op list \<Rightarrow> 'st \<Rightarrow> 'st" where
  "run_ops get put drop_d ops st = fold (apply_op get put drop_d) ops st"

lemma run_ops_snoc [simp]:
  "run_ops get put drop_d (ops @ [x]) st = apply_op get put drop_d x (run_ops get put drop_d ops st)"
  by (simp add: run_ops_def)

lemma run_ops_Nil [simp]: "run_ops get put drop_d [] st = st"
  by (simp add: run_ops_def)

text \<open>
  The abstract specification: an answer at time \<open>now\<close> was the last thing stored under its key,
  has not expired, and nothing that covers the key has been forgotten since.
\<close>

definition answer_justified ::
  "('k \<Rightarrow> string) \<Rightarrow> ('v \<Rightarrow> int) \<Rightarrow> ('d \<Rightarrow> string \<Rightarrow> bool) \<Rightarrow> ('k, 'v, 'w, 'd) cache_op list \<Rightarrow> string \<Rightarrow> 'v \<Rightarrow> int \<Rightarrow> bool" where
  "answer_justified key ttl covers ops ks v expires \<longleftrightarrow>
     (\<exists>pre w k n post. ops = pre @ Store w k v n # post \<and> key k = ks \<and> expires = n + ttl v \<and>
        (\<forall>d. Forget d \<in> set post \<longrightarrow> \<not> covers d ks))"

lemma answer_justified_snoc:
  "answer_justified key ttl covers ops ks v e \<Longrightarrow> (\<And>d. x = Forget d \<Longrightarrow> \<not> covers d ks) \<Longrightarrow>
   answer_justified key ttl covers (ops @ [x]) ks v e"
proof -
  assume j: "answer_justified key ttl covers ops ks v e" and x: "\<And>d. x = Forget d \<Longrightarrow> \<not> covers d ks"
  from j obtain pre w k n post where "ops = pre @ Store w k v n # post" "key k = ks" "e = n + ttl v"
    "\<forall>d. Forget d \<in> set post \<longrightarrow> \<not> covers d ks"
    unfolding answer_justified_def by blast
  with x have "ops @ [x] = pre @ Store w k v n # (post @ [x]) \<and> key k = ks \<and> e = n + ttl v \<and>
      (\<forall>d. Forget d \<in> set (post @ [x]) \<longrightarrow> \<not> covers d ks)" by auto
  then show ?thesis unfolding answer_justified_def by blast
qed

lemma answer_justified_store:
  "answer_justified key ttl covers (ops @ [Store w k v n]) (key k) v (n + ttl v)"
  unfolding answer_justified_def by fastforce

lemma evict_subset: "map_of (evict mx m) k = Some e \<Longrightarrow> map_of m k = Some e"
  by (auto simp: evict_def map_of_drop_oldest split: if_splits)

locale ttl_cache =
  fixes get :: "'st \<Rightarrow> 'k \<Rightarrow> int \<Rightarrow> 'st \<times> 'v option"
    and put :: "'st \<Rightarrow> 'w \<Rightarrow> 'k \<Rightarrow> 'v \<Rightarrow> int \<Rightarrow> 'st"
    and drop_d :: "'st \<Rightarrow> 'd \<Rightarrow> 'st"
    and entries :: "'st \<Rightarrow> 'v cache_map"
    and key :: "'k \<Rightarrow> string"
    and capacity :: nat
    and ttl :: "'v \<Rightarrow> int"
    and accepts :: "'st \<Rightarrow> 'w \<Rightarrow> 'k \<Rightarrow> bool"
    and covers :: "'d \<Rightarrow> string \<Rightarrow> bool"
  assumes get_answer: "snd (get st k n) =
      (case map_of (entries st) (key k) of None \<Rightarrow> None | Some (v, e) \<Rightarrow> if e \<le> n then None else Some v)"
    and get_entries: "entries (fst (get st k n)) = entries st \<or> entries (fst (get st k n)) = AList.delete (key k) (entries st)"
    and put_entries: "entries (put st w k v n) =
      (if accepts st w k then AList.update (key k) (v, n + ttl v) (evict capacity (entries st)) else entries st)"
    and drop_entries: "entries (drop_d st d) = filter (\<lambda>p. \<not> covers d (fst p)) (entries st)"
    and capacity_pos: "0 < capacity"
begin

definition bounded :: "'st \<Rightarrow> bool" where
  "bounded st \<longleftrightarrow> distinct (map fst (entries st)) \<and> length (entries st) \<le> capacity"

lemma bounded_length: "bounded st \<Longrightarrow> length (entries st) \<le> capacity"
  by (simp add: bounded_def)

lemma bounded_put: "bounded st \<Longrightarrow> bounded (put st w k v n)"
proof -
  assume b: "bounded st"
  let ?m = "evict capacity (entries st)"
  have d: "distinct (map fst ?m)"
    using b by (simp add: evict_def bounded_def distinct_drop_oldest)
  have l: "length ?m < capacity"
    using b capacity_pos by (auto simp: evict_def bounded_def length_drop_oldest)
  show ?thesis
    using b d l length_AList_update_le [of "key k" "(v, n + ttl v)" ?m]
    by (auto simp: bounded_def put_entries distinct_update)
qed

lemma bounded_get: "bounded st \<Longrightarrow> bounded (fst (get st k n))"
  using get_entries [of st k n] length_delete_le [of "key k" "entries st"]
  by (auto simp: bounded_def distinct_delete)

lemma bounded_drop: "bounded st \<Longrightarrow> bounded (drop_d st d)"
  by (auto simp: bounded_def drop_entries distinct_map_filter intro: le_trans [OF length_filter_le])

lemma bounded_run: "bounded st \<Longrightarrow> bounded (run_ops get put drop_d ops st)"
proof (induction ops rule: rev_induct)
  case (snoc x ops)
  then show ?case by (cases x) (simp_all add: bounded_get bounded_put bounded_drop)
qed simp

lemma entries_justified:
  "entries st = [] \<Longrightarrow> map_of (entries (run_ops get put drop_d ops st)) ks = Some (v, e) \<Longrightarrow>
   answer_justified key ttl covers ops ks v e"
proof (induction ops arbitrary: v e rule: rev_induct)
  case (snoc x ops)
  let ?st = "run_ops get put drop_d ops st"
  show ?case
  proof (cases x)
    case (Ask k n)
    with snoc.prems(2) have "map_of (entries ?st) ks = Some (v, e)"
      using get_entries [of ?st k n] by (auto simp: delete_conv' split: if_splits)
    with snoc.IH [OF snoc.prems(1)] Ask show ?thesis by (auto intro: answer_justified_snoc)
  next
    case (Store w k u n)
    show ?thesis
    proof (cases "accepts ?st w k \<and> ks = key k")
      case True
      with snoc.prems(2) Store have "v = u" "e = n + ttl u" by (auto simp: put_entries update_conv')
      with True Store show ?thesis by (simp add: answer_justified_store)
    next
      case False
      with snoc.prems(2) Store have "map_of (entries ?st) ks = Some (v, e)"
        by (auto simp: put_entries update_conv' dest: evict_subset split: if_splits)
      with snoc.IH [OF snoc.prems(1)] Store show ?thesis by (auto intro: answer_justified_snoc)
    qed
  next
    case (Forget d)
    with snoc.prems(2) have "map_of (entries ?st) ks = Some (v, e)" "\<not> covers d ks"
      by (auto simp: drop_entries map_of_filter_key [of "\<lambda>k. \<not> covers d k"] split: if_splits)
    with snoc.IH [OF snoc.prems(1)] Forget show ?thesis by (auto intro: answer_justified_snoc)
  qed
qed simp

lemma answers_justified:
  assumes "entries st = []" and "snd (get (run_ops get put drop_d ops st) k now) = Some v"
  obtains e where "now < e" "answer_justified key ttl covers ops (key k) v e"
proof -
  from assms(2) obtain e where "map_of (entries (run_ops get put drop_d ops st)) (key k) = Some (v, e)" "now < e"
    by (auto simp: get_answer split: option.splits if_splits)
  with entries_justified [OF assms(1)] that show ?thesis by blast
qed

lemma get_after_put:
  "accepts st w k \<Longrightarrow> snd (get (put st w k v n) k m) = (if n + ttl v \<le> m then None else Some v)"
  by (simp add: get_answer put_entries update_conv')

end

text \<open>
  The race rule. A cache whose writers hand over the generation they read before they computed:
  after an invalidation, a writer that read the generation before it is refused, so nothing
  computed against the old world comes back.
\<close>

definition read_before :: "('k \<Rightarrow> 'd) \<Rightarrow> 'd \<Rightarrow> nat \<Rightarrow> ('k, 'v, nat option, 'd) cache_op \<Rightarrow> bool" where
  "read_before owner d g x =
     (case x of Store w k v n \<Rightarrow> owner k = d \<longrightarrow> (case w of None \<Rightarrow> False | Some g' \<Rightarrow> g' \<le> g) | _ \<Rightarrow> True)"

definition keyed_by :: "('k \<Rightarrow> bool) \<Rightarrow> ('k, 'v, 'w, 'd) cache_op \<Rightarrow> bool" where
  "keyed_by valid x = (case x of Store w k v n \<Rightarrow> valid k | _ \<Rightarrow> True)"

locale generation_cache = ttl_cache get put drop_d entries key capacity ttl accepts covers
  for get :: "'st \<Rightarrow> 'k \<Rightarrow> int \<Rightarrow> 'st \<times> 'v option"
    and put :: "'st \<Rightarrow> nat option \<Rightarrow> 'k \<Rightarrow> 'v \<Rightarrow> int \<Rightarrow> 'st"
    and drop_d :: "'st \<Rightarrow> 'd \<Rightarrow> 'st"
    and entries :: "'st \<Rightarrow> 'v cache_map"
    and key :: "'k \<Rightarrow> string"
    and capacity :: nat
    and ttl :: "'v \<Rightarrow> int"
    and accepts :: "'st \<Rightarrow> nat option \<Rightarrow> 'k \<Rightarrow> bool"
    and covers :: "'d \<Rightarrow> string \<Rightarrow> bool" +
  fixes gen :: "'st \<Rightarrow> 'd \<Rightarrow> nat" and owner :: "'k \<Rightarrow> 'd" and valid :: "'k \<Rightarrow> bool"
  assumes accepts_iff: "accepts st (Some g) k \<longleftrightarrow> g = gen st (owner k)"
    and gen_get: "gen (fst (get st k n)) d = gen st d"
    and gen_put: "gen (put st w k v n) d = gen st d"
    and gen_drop: "gen (drop_d st d) d' = (if d' = d then Suc (gen st d) else gen st d')"
    and owner_covered: "covers (owner k) (key k)"
    and key_owner: "valid k \<Longrightarrow> valid k' \<Longrightarrow> key k = key k' \<Longrightarrow> owner k = owner k'"
begin

lemma late_writers_refused:
  assumes "list_all (read_before owner d (gen st d)) ops" and "list_all (keyed_by valid) ops"
    and k: "valid k" "owner k = d"
  shows "gen st d < gen (run_ops get put drop_d ops (drop_d st d)) d \<and>
    map_of (entries (run_ops get put drop_d ops (drop_d st d))) (key k) = None"
  using assms(1,2)
proof (induction ops rule: rev_induct)
  case Nil
  show ?case using k owner_covered [of k]
    by (simp add: gen_drop drop_entries map_of_filter_key [of "\<lambda>k. \<not> covers d k"])
next
  case (snoc x ops)
  let ?st = "run_ops get put drop_d ops (drop_d st d)"
  from snoc have g: "gen st d < gen ?st d" and none: "map_of (entries ?st) (key k) = None" by auto
  have sub: "map_of m (key k) = None \<Longrightarrow> map_of (evict capacity m) (key k) = None" for m :: "'v cache_map"
    by (auto simp: evict_def map_of_drop_oldest)
  show ?case
  proof (cases x)
    case (Ask k' n)
    then show ?thesis using g none get_entries [of ?st k' n] by (auto simp: gen_get delete_conv')
  next
    case (Store w k' v n)
    then have "key k' = key k \<longrightarrow> owner k' = d"
      using snoc.prems(2) key_owner [OF _ k(1), of k'] k(2) by (auto simp: keyed_by_def)
    then have "accepts ?st w k' \<longrightarrow> key k' \<noteq> key k"
      using Store snoc.prems(1) g by (auto simp: read_before_def accepts_iff split: option.splits)
    then show ?thesis using Store g sub [OF none] none
      by (auto simp: gen_put put_entries update_conv')
  next
    case (Forget d')
    then show ?thesis using g none
      by (auto simp: gen_drop drop_entries map_of_filter_key [of "\<lambda>k. \<not> covers d' k"])
  qed
qed

lemma nothing_republished:
  assumes "list_all (read_before owner d (gen st d)) ops" and "list_all (keyed_by valid) ops"
    and "valid k" "owner k = d"
  shows "snd (get (run_ops get put drop_d ops (drop_d st d)) k now) = None"
  using late_writers_refused [OF assms] by (simp add: get_answer)

end

subsection \<open>The four caches keep the contract\<close>

lemma AList_delete_filter: "AList.delete k m = filter (\<lambda>p. \<not> fst p = k) m"
  by (auto simp: AList.delete_eq intro: filter_cong)

definition title_get :: "title_cache \<Rightarrow> string \<times> string \<Rightarrow> int \<Rightarrow> title_cache \<times> title_dict_value option" where
  "title_get st k now = get_cached_title_dict st (fst k) (snd k) now"

definition title_put :: "title_cache \<Rightarrow> nat option \<Rightarrow> string \<times> string \<Rightarrow> title_dict_value \<Rightarrow> int \<Rightarrow> title_cache" where
  "title_put st seen k v now = set_cached_title_dict st (fst k) (snd k) v now seen"

definition under :: "char \<Rightarrow> string \<Rightarrow> string \<Rightarrow> bool" where
  "under c tenant k = starts_with k (tenant @ [c])"

definition no_sep :: "char \<Rightarrow> string \<times> 'a \<Rightarrow> bool" where
  "no_sep c k \<longleftrightarrow> c \<notin> set (fst k)"

lemma title_generation_simps:
  "title_dict_generation (fst (get_cached_title_dict st t s n)) d = title_dict_generation st d"
  "title_dict_generation (set_cached_title_dict st t s v n w) d = title_dict_generation st d"
  "title_dict_generation (invalidate_title_dict_cache st t) d =
     (if d = t then Suc (title_dict_generation st t) else title_dict_generation st d)"
  by (auto simp: get_cached_title_dict_def set_cached_title_dict_def invalidate_title_dict_cache_def
      title_dict_generation_def split: option.splits)

interpretation title: generation_cache title_get title_put invalidate_title_dict_cache tc_cache
  "\<lambda>k. key_for (fst k) (snd k)" MAX_ENTRIES "\<lambda>_. TTL_MS"
  "\<lambda>st w k. w = None \<or> w = Some (title_dict_generation st (fst k))" "under (CHR 0x00)"
  title_dict_generation fst "no_sep (CHR 0x00)"
proof (unfold_locales, goal_cases)
  case (11 k k')
  then show ?case using sep_inject [of "CHR 0x00" "fst k" "fst k'" "snd k" "snd k'"]
    by (simp add: no_sep_def key_for_def NUL_def)
qed (auto simp: title_get_def title_put_def get_cached_title_dict_def set_cached_title_dict_def
    invalidate_title_dict_cache_def MAX_ENTRIES_def under_def NUL_def key_for_def title_generation_simps
    title_dict_generation_def starts_with_iff split: option.splits)

text \<open>
  The confirm cache borrows the title cache's generation, and \<open>app.ts\<close> drops the two together:
  its state is the pair.
\<close>

definition invalidate_both :: "title_cache \<times> confirm_cache \<Rightarrow> string \<Rightarrow> title_cache \<times> confirm_cache" where
  \<comment> \<open>the callback \<open>app.ts\<close> hands to \<open>setDictInvalidatePublisher\<close>\<close>
  "invalidate_both st tenant =
     (invalidate_title_dict_cache (fst st) tenant, invalidate_tree_confirm_cache (snd st) tenant)"

definition confirm_get ::
  "title_cache \<times> confirm_cache \<Rightarrow> string \<times> string \<times> string \<Rightarrow> int
   \<Rightarrow> (title_cache \<times> confirm_cache) \<times> (string \<rightharpoonup> bool) option" where
  "confirm_get st k now =
     (let (cf, r) = get_tree_confirm (snd st) (fst k) (fst (snd k)) (snd (snd k)) now in ((fst st, cf), r))"

definition confirm_put ::
  "title_cache \<times> confirm_cache \<Rightarrow> nat option \<Rightarrow> string \<times> string \<times> string \<Rightarrow> (string \<rightharpoonup> bool) \<Rightarrow> int
   \<Rightarrow> title_cache \<times> confirm_cache" where
  "confirm_put st seen k v now =
     (fst st, set_tree_confirm (fst st) (snd st) (fst k) (fst (snd k)) (snd (snd k)) v now seen)"

interpretation confirm: generation_cache confirm_get confirm_put invalidate_both "\<lambda>st. cf_cache (snd st)"
  "\<lambda>k. confirm_key (fst k) (fst (snd k)) (snd (snd k))" MAX_ENTRIES "\<lambda>_. TTL_MS"
  "\<lambda>st w k. w = None \<or> w = Some (title_dict_generation (fst st) (fst k))" "under (CHR '' '')"
  "\<lambda>st. title_dict_generation (fst st)" fst "no_sep (CHR '' '')"
proof (unfold_locales, goal_cases)
  case (11 k k')
  then show ?case
    using sep_inject [of "CHR '' ''" "fst k" "fst k'" "fst (snd k) @ '' '' @ snd (snd k)" "fst (snd k') @ '' '' @ snd (snd k')"]
    by (simp add: no_sep_def confirm_key_def)
qed (auto simp: confirm_get_def confirm_put_def get_tree_confirm_def set_tree_confirm_def invalidate_both_def
    invalidate_tree_confirm_cache_def MAX_ENTRIES_def under_def confirm_key_def title_generation_simps
    starts_with_iff Let_def split: option.splits)

definition badge_get :: "confirm_cache \<Rightarrow> string \<times> string \<Rightarrow> int \<Rightarrow> confirm_cache \<times> badge option" where
  "badge_get st k now = get_cached_badge st (fst k) (snd k) now"

definition badge_put :: "confirm_cache \<Rightarrow> unit \<Rightarrow> string \<times> string \<Rightarrow> badge \<Rightarrow> int \<Rightarrow> confirm_cache" where
  "badge_put st _ k v now = set_cached_badge st (fst k) (snd k) v now"

text \<open>A badge is forgotten for the page (\<open>invalidatePageBadge\<close>) or with its tenant.\<close>

definition badge_drop :: "confirm_cache \<Rightarrow> string + string \<times> string \<Rightarrow> confirm_cache" where
  "badge_drop st d =
     (case d of Inl tenant \<Rightarrow> invalidate_tree_confirm_cache st tenant
      | Inr k \<Rightarrow> invalidate_page_badge st (fst k) (snd k))"

definition badge_covers :: "string + string \<times> string \<Rightarrow> string \<Rightarrow> bool" where
  "badge_covers d ks =
     (case d of Inl tenant \<Rightarrow> under (CHR '' '') tenant ks | Inr k \<Rightarrow> ks = badge_key (fst k) (snd k))"

interpretation badges: ttl_cache badge_get badge_put badge_drop cf_badges
  "\<lambda>k. badge_key (fst k) (snd k)" BADGE_MAX "\<lambda>_. TTL_MS" "\<lambda>_ _ _. True" badge_covers
  by unfold_locales
    (auto simp: badge_get_def badge_put_def get_cached_badge_def set_cached_badge_def BADGE_MAX_def
      badge_drop_def badge_covers_def invalidate_tree_confirm_cache_def invalidate_page_badge_def under_def
      AList_delete_filter split: option.splits sum.splits)

definition frame_ttl :: "frameability \<Rightarrow> int" where
  "frame_ttl v = (if v = Embeddable then POSITIVE_TTL_MS else NEGATIVE_TTL_MS)"

interpretation frames: ttl_cache cache_get "\<lambda>st (_ :: unit). cache_set st" "\<lambda>st (_ :: unit). clear_frameability_cache st"
  "\<lambda>st. st" "\<lambda>url. url" FRAME_MAX_ENTRIES frame_ttl "\<lambda>_ _ _. True" "\<lambda>_ _. True"
  by unfold_locales
    (auto simp: cache_get_def cache_set_def clear_frameability_cache_def FRAME_MAX_ENTRIES_def frame_ttl_def
      split: option.splits)

subsection \<open>Properties\<close>

text \<open>
  C22. A title dictionary is served to the viewer it was computed for and to nobody else: whatever
  reads, writes and invalidations have happened, what \<open>getCachedTitleDict\<close> answers for a tenant and
  a subject was stored for that very tenant and subject, less than five seconds ago, and the
  tenant has not been invalidated since.
\<close>

theorem title_dict_answers_justified:
  assumes "snd (get_cached_title_dict (run_ops title_get title_put invalidate_title_dict_cache ops
      (clear_title_dict_cache st)) t s now) = Some v"
    and "list_all (keyed_by (no_sep (CHR 0x00))) ops" and "CHR 0x00 \<notin> set t"
  shows "\<exists>pre seen n post. ops = pre @ Store seen (t, s) v n # post \<and> now < n + 5000 \<and> Forget t \<notin> set post"
proof -
  from assms(1) obtain e where "now < e"
    and "answer_justified (\<lambda>k. key_for (fst k) (snd k)) (\<lambda>_. TTL_MS) (under (CHR 0x00)) ops (key_for t s) v e"
    using title.answers_justified [of "clear_title_dict_cache st" ops "(t, s)" now v]
    by (auto simp: clear_title_dict_cache_def title_get_def)
  then obtain pre seen k n post where ops: "ops = pre @ Store seen k v n # post"
    and k: "key_for (fst k) (snd k) = key_for t s" and n: "now < n + TTL_MS"
    and f: "\<forall>d. Forget d \<in> set post \<longrightarrow> \<not> under (CHR 0x00) d (key_for t s)"
    by (auto simp: answer_justified_def)
  from ops assms(2) have "CHR 0x00 \<notin> set (fst k)" by (auto simp: keyed_by_def no_sep_def)
  with k sep_inject [OF _ assms(3), of "fst k" "snd k" s] have "k = (t, s)"
    by (auto simp: key_for_def NUL_def prod_eq_iff)
  moreover have "under (CHR 0x00) t (key_for t s)" by (simp add: under_def key_for_def NUL_def starts_with_iff)
  ultimately have "ops = pre @ Store seen (t, s) v n # post \<and> now < n + 5000 \<and> Forget t \<notin> set post"
    using ops n f by (auto simp: TTL_MS_def)
  then show ?thesis by blast
qed

definition sample_dict :: title_dict_value where
  "sample_dict = \<lparr>td_entries = [(''p1'', ''Home'')], td_capped = False\<rparr>"

theorem title_dict_answers_justified_witness:
  "\<exists>pre seen n post. [Store (None :: nat option) (''t'', ''user:u'') sample_dict 0, Ask (''t'', ''user:v'') 10]
     = pre @ Store seen (''t'', ''user:u'') sample_dict n # post \<and> 20 < n + 5000 \<and> Forget ''t'' \<notin> set post"
  by (rule title_dict_answers_justified [where st = "\<lparr>tc_cache = [], tc_generation = Map.empty, tc_inflight = {}\<rparr>"])
    (simp_all add: run_ops_def title_get_def title_put_def get_cached_title_dict_def set_cached_title_dict_def
      clear_title_dict_cache_def TTL_MS_def evict_def MAX_ENTRIES_def key_for_def NUL_def keyed_by_def no_sep_def)

text \<open>
  C23. A revoke is not undone by work it overtook: after \<open>app.ts\<close>'s invalidation of a tenant, no
  sequence of reads, invalidations and writes by computations that had read the tenant's
  generation before it makes the title cache or the tree's confirm cache answer for that tenant.
\<close>

theorem overtaken_writers_refused:
  assumes "list_all (read_before fst t (title_dict_generation tc t)) ops"
    and "list_all (keyed_by (no_sep (CHR 0x00))) ops"
    and "list_all (read_before fst t (title_dict_generation tc t)) ops2"
    and "list_all (keyed_by (no_sep (CHR '' ''))) ops2"
    and "CHR 0x00 \<notin> set t" and "CHR '' '' \<notin> set t"
  shows "snd (get_cached_title_dict (run_ops title_get title_put invalidate_title_dict_cache ops
      (invalidate_title_dict_cache tc t)) t s now) = None \<and>
    snd (get_tree_confirm (snd (run_ops confirm_get confirm_put invalidate_both ops2
      (invalidate_both (tc, cf) t))) t s sp now) = None"
  using title.nothing_republished [OF assms(1,2), of "(t, s)" now]
    confirm.nothing_republished [of t "(tc, cf)" ops2 "(t, s, sp)" now] assms(3-)
  by (simp add: no_sep_def title_get_def confirm_get_def Let_def case_prod_beta)

theorem overtaken_writers_refused_witness:
  "snd (get_cached_title_dict (run_ops title_get title_put invalidate_title_dict_cache
      [Store (Some 0) (''t'', ''u'') sample_dict 5]
      (invalidate_title_dict_cache \<lparr>tc_cache = [], tc_generation = Map.empty, tc_inflight = {}\<rparr> ''t'')) ''t'' ''u'' 6) = None \<and>
   snd (get_tree_confirm (snd (run_ops confirm_get confirm_put invalidate_both
      [Store (Some 0) (''t'', ''u'', ''s'') [''p1'' \<mapsto> True] 5]
      (invalidate_both (\<lparr>tc_cache = [], tc_generation = Map.empty, tc_inflight = {}\<rparr>, \<lparr>cf_cache = [], cf_badges = []\<rparr>) ''t'')))
      ''t'' ''u'' ''s'' 6) = None"
  by (rule overtaken_writers_refused)
    (simp_all add: read_before_def keyed_by_def no_sep_def title_dict_generation_def)

text \<open>
  No cache grows without bound: whatever is asked of them, the title, confirm, badge and
  frameability caches never hold more than 500, 500, 5000 and 5000 entries.
\<close>

theorem caches_bounded:
  "length (tc_cache (run_ops title_get title_put invalidate_title_dict_cache ops1 (clear_title_dict_cache tc))) \<le> 500 \<and>
   length (cf_cache (snd (run_ops confirm_get confirm_put invalidate_both ops2
     (tc, clear_tree_confirm_cache_for_tests cf)))) \<le> 500 \<and>
   length (cf_badges (run_ops badge_get badge_put badge_drop ops3 (clear_tree_confirm_cache_for_tests cf))) \<le> 5000 \<and>
   length (run_ops cache_get (\<lambda>st (_ :: unit). cache_set st) (\<lambda>st (_ :: unit). clear_frameability_cache st) ops4
     (clear_frameability_cache fc)) \<le> 5000"
proof -
  have a: "title.bounded (clear_title_dict_cache tc)"
    "confirm.bounded (tc, clear_tree_confirm_cache_for_tests cf)"
    "badges.bounded (clear_tree_confirm_cache_for_tests cf)" "frames.bounded (clear_frameability_cache fc)"
    by (simp_all add: title.bounded_def confirm.bounded_def badges.bounded_def frames.bounded_def
        clear_title_dict_cache_def clear_tree_confirm_cache_for_tests_def clear_frameability_cache_def)
  show ?thesis
    using title.bounded_length [OF title.bounded_run [OF a(1)]] confirm.bounded_length [OF confirm.bounded_run [OF a(2)]]
      badges.bounded_length [OF badges.bounded_run [OF a(3)]] frames.bounded_length [OF frames.bounded_run [OF a(4)]]
    unfolding MAX_ENTRIES_def BADGE_MAX_def FRAME_MAX_ENTRIES_def by blast
qed

end
