(* ===== verification/Wk_Embed.thy ===== *)
theory Wk_Embed
  imports Wk_Cache
begin

section \<open>Whether an embed may be framed\<close>



definition can_view_page ::
  "'s fga \<Rightarrow> authz_env \<Rightarrow> string \<Rightarrow> string \<Rightarrow> (string \<times> string) list option \<Rightarrow> 's \<Rightarrow> 's \<times> (authz_error + bool)" where
  "can_view_page fga e subj page context s = check fga e subj View \<lparr>rtype = PageR, rid = page\<rparr> context s"

definition allowlist_entry :: "string \<Rightarrow> string" where
  "allowlist_entry raw = dropWhile (\<lambda>c. c = CHR ''.'') (js_lower (js_trim raw))"

definition is_host_allowlisted :: "string \<Rightarrow> string list \<Rightarrow> bool" where
  "is_host_allowlisted host allowlist =
     (let h = js_lower host
      in list_ex (\<lambda>raw. let entry = allowlist_entry raw in entry \<noteq> [] \<and> (h = entry \<or> ends_with h (''.'' @ entry))) allowlist)"











subsection \<open>Properties\<close>

text \<open>
  C24. The allowlist is cut at label boundaries: an entry admits its own host and the hosts that
  end in a dot and the entry, never a host that merely ends in the same letters.
\<close>

theorem allowlist_label_boundary:
  assumes "e \<noteq> []" "js_trim e = e" "js_lower e = e" "hd e \<noteq> CHR ''.''" "js_lower x = x"
  shows "is_host_allowlisted (x @ e) [e] \<longleftrightarrow> x = [] \<or> last x = CHR ''.''"
proof -
  have e: "allowlist_entry e = e"
    unfolding allowlist_entry_def assms(2,3) using assms(1,4) by (cases e) auto
  have l: "js_lower (x @ e) = x @ e" using assms(3,5) by (simp add: js_lower_def)
  have w: "ends_with (x @ e) (''.'' @ e) \<longleftrightarrow> x \<noteq> [] \<and> last x = CHR ''.''"
  proof
    assume "ends_with (x @ e) (''.'' @ e)"
    then obtain r where "x @ e = (r @ ''.'') @ e" by (auto simp: ends_with_iff)
    then have "x = r @ ''.''" by simp
    then show "x \<noteq> [] \<and> last x = CHR ''.''" by simp
  next
    assume "x \<noteq> [] \<and> last x = CHR ''.''"
    then have "x @ e = butlast x @ ''.'' @ e" by (metis append_butlast_last_id append.assoc)
    then show "ends_with (x @ e) (''.'' @ e)" unfolding ends_with_iff by metis
  qed
  have "is_host_allowlisted (x @ e) [e] \<longleftrightarrow> e \<noteq> [] \<and> (x @ e = e \<or> ends_with (x @ e) (''.'' @ e))"
    by (simp add: is_host_allowlisted_def l e)
  then show ?thesis unfolding w using assms(1) by auto
qed

theorem allowlist_label_boundary_witness:
  "is_host_allowlisted (''www.'' @ ''a.io'') [''a.io''] \<and> \<not> is_host_allowlisted (''evil-'' @ ''a.io'') [''a.io'']"
proof -
  have l: "js_trim ''a.io'' = ''a.io''" "js_lower ''a.io'' = ''a.io''" "js_lower ''www.'' = ''www.''"
    "js_lower ''evil-'' = ''evil-''" by code_simp+
  show ?thesis
    using allowlist_label_boundary [of "''a.io''" "''www.''"] allowlist_label_boundary [of "''a.io''" "''evil-''"] l
    by simp
qed




end
