(* ===== verification/Wk_Tuples.thy ===== *)
theory Wk_Tuples
  imports Wk_Scope
begin

section \<open>The tuple store client\<close>

text \<open>
  Models \<^verbatim>\<open>packages/authz/src/tuples.ts\<close>: every tuple read and write of the product. OpenFGA is a
  parameter: \<open>ts_write\<close> and \<open>ts_read\<close> act on an abstract store state. A read is paged, and nothing
  in the code bounds the pages, so the loops are partial: \<open>None\<close> is a loop that never ends.
\<close>

record tuple =
  tp_user :: string
  tp_relation :: string
  tp_object :: string

record tuple_input =
  ti_key :: tuple
  ti_condition :: "(string \<times> (string \<times> string) list) option"

record raw_error =
  er_status :: "int option"
  er_message :: string

datatype write_op = WriteOp | DeleteOp

datatype store_error = Raw raw_error | AuthzWriteRefused write_op bool raw_error
  \<comment> \<open>a domain error carries the operation, \<open>alreadyConverged\<close> and its cause\<close>

record read_query =
  rq_q_user :: "string option"
  rq_q_relation :: "string option"
  rq_q_object :: string

record raw_tuple =
  rt_user :: "string option"
  rt_relation :: "string option"
  rt_object :: "string option"

record read_page =
  rp_tuples :: "raw_tuple option list option"
    \<comment> \<open>\<open>res.tuples ?? []\<close>, each with a \<open>key\<close> that may be missing\<close>
  rp_token :: "string option"

record 's tuple_store =
  ts_write :: "'s \<Rightarrow> tuple_input list \<Rightarrow> tuple list \<Rightarrow> 's \<times> (raw_error + unit)"
  ts_read :: "'s \<Rightarrow> read_query \<Rightarrow> string option \<Rightarrow> nat option \<Rightarrow> 's \<times> (raw_error + read_page)"

subsection \<open>Errors\<close>

definition converged_wording :: "string \<Rightarrow> bool" where
  \<comment> \<open>\<open>/do(es)? not exist|did not exist|already exist/i\<close>\<close>
  "converged_wording raw =
     (let m = js_lower raw
      in list_ex (\<lambda>p. sublist p m) [''do not exist'', ''does not exist'', ''did not exist'', ''already exist''])"

definition as_domain_error :: "raw_error \<Rightarrow> write_op \<Rightarrow> store_error" where
  "as_domain_error err op' =
     (if er_status err \<noteq> Some 400 then Raw err
      else AuthzWriteRefused op' (converged_wording (er_message err)) err)"

definition is_already_converged :: "store_error \<Rightarrow> bool" where
  "is_already_converged e = (case e of Raw _ \<Rightarrow> False | AuthzWriteRefused _ c _ \<Rightarrow> c)"

subsection \<open>Writes\<close>

definition write_tuples :: "'s tuple_store \<Rightarrow> tuple_input list \<Rightarrow> 's \<Rightarrow> 's \<times> (store_error + unit)" where
  "write_tuples st ts s =
     (case ts_write st s ts [] of
        (s', Inl err) \<Rightarrow> (s', Inl (as_domain_error err WriteOp))
      | (s', Inr _) \<Rightarrow> (s', Inr ()))"

definition delete_tuples :: "'s tuple_store \<Rightarrow> tuple list \<Rightarrow> 's \<Rightarrow> 's \<times> (store_error + unit)" where
  "delete_tuples st ts s =
     (case ts_write st s [] ts of
        (s', Inl err) \<Rightarrow> (s', Inl (as_domain_error err DeleteOp))
      | (s', Inr _) \<Rightarrow> (s', Inr ()))"

subsection \<open>Reads\<close>

definition nonempty :: "string option \<Rightarrow> string option" where
  \<comment> \<open>a string as a condition: the empty one is falsy\<close>
  "nonempty x = (if x = Some [] then None else x)"

definition page_tuple :: "raw_tuple option \<Rightarrow> tuple option" where
  "page_tuple k =
     (case k of None \<Rightarrow> None
      | Some r \<Rightarrow>
          (case (nonempty (rt_user r), nonempty (rt_relation r), nonempty (rt_object r)) of
             (Some u, Some rel, Some ob) \<Rightarrow> Some \<lparr>tp_user = u, tp_relation = rel, tp_object = ob\<rparr>
           | _ \<Rightarrow> None))"

definition page_tuples :: "read_page \<Rightarrow> tuple list" where
  "page_tuples p = List.map_filter page_tuple (nullish [] (rp_tuples p))"

partial_function (option) read_loop ::
  "'s tuple_store \<Rightarrow> read_query \<Rightarrow> string option \<Rightarrow> tuple list \<Rightarrow> 's \<Rightarrow> ('s \<times> (raw_error + tuple list)) option" where
  "read_loop st q token out s =
     (case ts_read st s q token None of
        (s', Inl err) \<Rightarrow> Some (s', Inl err)
      | (s', Inr p) \<Rightarrow>
          (let out' = out @ page_tuples p
           in case nonempty (rp_token p) of
                None \<Rightarrow> Some (s', Inr out')
              | Some t \<Rightarrow> read_loop st q (Some t) out' s'))"

definition read_object_tuples ::
  "'s tuple_store \<Rightarrow> string \<Rightarrow> 's \<Rightarrow> ('s \<times> (raw_error + tuple list)) option" where
  "read_object_tuples st ob s = read_loop st \<lparr>rq_q_user = None, rq_q_relation = None, rq_q_object = ob\<rparr> None [] s"

definition read_object_tuples_page ::
  "'s tuple_store \<Rightarrow> string \<Rightarrow> string option \<Rightarrow> nat option \<Rightarrow> 's \<Rightarrow> 's \<times> (raw_error + tuple list \<times> string option)" where
  "read_object_tuples_page st ob cursor page_size s =
     (case ts_read st s \<lparr>rq_q_user = None, rq_q_relation = None, rq_q_object = ob\<rparr> (nonempty cursor)
             (if page_size = Some 0 then None else page_size) of
        (s', Inl err) \<Rightarrow> (s', Inl err)
      | (s', Inr p) \<Rightarrow> (s', Inr (page_tuples p, nonempty (rp_token p))))"

definition read_user_tuples_by_type ::
  "'s tuple_store \<Rightarrow> string \<Rightarrow> string \<Rightarrow> string option \<Rightarrow> 's \<Rightarrow> ('s \<times> (raw_error + tuple list)) option" where
  "read_user_tuples_by_type st user type_prefix relation s =
     read_loop st \<lparr>rq_q_user = Some user, rq_q_relation = nonempty relation, rq_q_object = type_prefix\<rparr> None [] s"

subsection \<open>The delete sweep\<close>

definition FGA_WRITE_CHUNK :: nat where "FGA_WRITE_CHUNK = 100"

fun delete_chunks :: "'s tuple_store \<Rightarrow> tuple list list \<Rightarrow> 's \<Rightarrow> 's \<times> (store_error + unit)" where
  "delete_chunks st [] s = (s, Inr ())"
| "delete_chunks st (c # cs) s =
     (case ts_write st s [] c of
        (s', Inl err) \<Rightarrow> (s', Inl (as_domain_error err DeleteOp))
      | (s', Inr _) \<Rightarrow> delete_chunks st cs s')"

definition delete_object_tuples :: "'s tuple_store \<Rightarrow> string \<Rightarrow> 's \<Rightarrow> ('s \<times> (store_error + unit)) option" where
  "delete_object_tuples st ob s =
     (case read_object_tuples st ob s of
        None \<Rightarrow> None
      | Some (s', Inl err) \<Rightarrow> Some (s', Inl (Raw err))
      | Some (s', Inr keys) \<Rightarrow> Some (delete_chunks st (chunks FGA_WRITE_CHUNK keys) s'))"

subsection \<open>What a read returns\<close>

text \<open>The pages a store hands out from a token on, to the one with no continuation.\<close>

inductive pages_from :: "'s tuple_store \<Rightarrow> read_query \<Rightarrow> 's \<Rightarrow> string option \<Rightarrow> tuple list \<Rightarrow> 's \<Rightarrow> bool"
  for st :: "'s tuple_store" and q :: read_query where
  last_page: "ts_read st s q token None = (s', Inr p) \<Longrightarrow> nonempty (rp_token p) = None \<Longrightarrow>
     pages_from st q s token (page_tuples p) s'"
| more_pages: "ts_read st s q token None = (s1, Inr p) \<Longrightarrow> nonempty (rp_token p) = Some t \<Longrightarrow>
     pages_from st q s1 (Some t) ts s' \<Longrightarrow> pages_from st q s token (page_tuples p @ ts) s'"

lemma read_loop_pages:
  "pages_from st q s token ts s' \<Longrightarrow> read_loop st q token out s = Some (s', Inr (out @ ts))"
proof (induction arbitrary: out rule: pages_from.induct)
  case (last_page s token s' p)
  then show ?case by (subst read_loop.simps) simp
next
  case (more_pages s token s1 p t ts s')
  then show ?case by (subst read_loop.simps) simp
qed

lemma read_loop_result:
  assumes ret: "read_loop st q token out s = Some r"
  shows "\<forall>s' ts. r = (s', Inr ts) \<longrightarrow> (\<exists>us. ts = out @ us \<and> pages_from st q s token us s')"
proof (rule read_loop.raw_induct [where P = "\<lambda>st q token out s r.
    \<forall>s' ts. r = (s', Inr ts) \<longrightarrow> (\<exists>us. ts = out @ us \<and> pages_from st q s token us s')", OF _ ret], intro allI impI)
  fix f and st :: "'a tuple_store" and q token out s r s' ts
  assume IH: "\<And>st q token out s r. f st q token out s = Some r \<Longrightarrow>
      \<forall>s' ts. r = (s', Inr ts) \<longrightarrow> (\<exists>us. ts = out @ us \<and> pages_from st q s token us s')"
    and eq: "(case ts_read st s q token None of
        (s', Inl err) \<Rightarrow> Some (s', Inl err)
      | (s', Inr p) \<Rightarrow>
          (let out' = out @ page_tuples p
           in case nonempty (rp_token p) of None \<Rightarrow> Some (s', Inr out') | Some t \<Rightarrow> f st q (Some t) out' s')) = Some r"
    and r: "r = (s', Inr ts)"
  obtain s1 x where rd: "ts_read st s q token None = (s1, x)" by fastforce
  with eq r obtain p where x: "x = Inr p" by (cases x) auto
  show "\<exists>us. ts = out @ us \<and> pages_from st q s token us s'"
  proof (cases "nonempty (rp_token p)")
    case None
    with eq r rd x have "ts = out @ page_tuples p" "s1 = s'" by auto
    with None rd x show ?thesis by (auto intro: last_page)
  next
    case (Some t)
    with eq rd x have "f st q (Some t) (out @ page_tuples p) s1 = Some r" by (simp add: Let_def)
    from IH [OF this] r obtain us where "ts = (out @ page_tuples p) @ us" "pages_from st q s1 (Some t) us s'" by blast
    with Some rd x show ?thesis by (auto intro: more_pages)
  qed
qed

lemma read_loop_iff: "read_loop st q token [] s = Some (s', Inr ts) \<longleftrightarrow> pages_from st q s token ts s'"
  using read_loop_result [of st q token "[]" s "(s', Inr ts)"] read_loop_pages [of st q s token ts s' "[]"] by auto

subsection \<open>What the delete sweep sends\<close>

text \<open>The batches of deletes a sweep sends until one is refused.\<close>

lemma delete_chunks_batches:
  "delete_chunks st cs s = (s', Inr ()) \<Longrightarrow>
   \<exists>ss. length ss = Suc (length cs) \<and> ss ! 0 = s \<and> ss ! length cs = s' \<and>
     (\<forall>i < length cs. ts_write st (ss ! i) [] (cs ! i) = (ss ! Suc i, Inr ()))"
proof (induction cs arbitrary: s)
  case Nil
  then show ?case by (intro exI [of _ "[s]"]) simp
next
  case (Cons c cs)
  from Cons.prems obtain s1 where w: "ts_write st s [] c = (s1, Inr ())" and r: "delete_chunks st cs s1 = (s', Inr ())"
    by (auto split: prod.splits sum.splits)
  from Cons.IH [OF r] obtain ss where ss: "length ss = Suc (length cs)" "ss ! 0 = s1" "ss ! length cs = s'"
    "\<forall>i < length cs. ts_write st (ss ! i) [] (cs ! i) = (ss ! Suc i, Inr ())" by blast
  have "ts_write st ((s # ss) ! i) [] ((c # cs) ! i) = ((s # ss) ! Suc i, Inr ())" if "i < Suc (length cs)" for i
    using that ss w by (cases i) auto
  with ss show ?case by (intro exI [of _ "s # ss"]) simp
qed

text \<open>
  A store that keeps a set of tuples and deletes soundly, as the OpenFGA documentation has it: a
  delete that is accepted removes its tuples and nothing else, one that is refused removes
  nothing, and a refusal that says a single tuple does not exist means so.
\<close>

definition deletes_soundly :: "'s tuple_store \<Rightarrow> ('s \<Rightarrow> tuple set) \<Rightarrow> bool" where
  "deletes_soundly st contents \<longleftrightarrow>
     (\<forall>s ts s'. ts_write st s [] ts = (s', Inr ()) \<longrightarrow> contents s' = contents s - set ts) \<and>
     (\<forall>s ts s' err. ts_write st s [] ts = (s', Inl err) \<longrightarrow> contents s' = contents s) \<and>
     (\<forall>s t s' err. ts_write st s [] [t] = (s', Inl err) \<longrightarrow> is_already_converged (as_domain_error err DeleteOp) \<longrightarrow>
        t \<notin> contents s)"

lemma deletes_soundlyD:
  assumes "deletes_soundly st contents"
  shows "ts_write st s [] ts = (s', Inr ()) \<Longrightarrow> contents s' = contents s - set ts"
    and "ts_write st s [] ts = (s', Inl err) \<Longrightarrow> contents s' = contents s"
    and "ts_write st s [] [t] = (s', Inl err) \<Longrightarrow> is_already_converged (as_domain_error err DeleteOp) \<Longrightarrow>
      t \<notin> contents s"
  using assms unfolding deletes_soundly_def by blast+

lemma delete_chunks_contents:
  assumes ok: "deletes_soundly st contents"
  shows "delete_chunks st cs s = (s', r) \<Longrightarrow>
    contents s' \<subseteq> contents s \<and> contents s - contents s' \<subseteq> set (concat cs) \<and>
    (r = Inr () \<longrightarrow> contents s' = contents s - set (concat cs))"
proof (induction cs arbitrary: s)
  case (Cons c cs)
  obtain s1 x where w: "ts_write st s [] c = (s1, x)" by fastforce
  show ?case
  proof (cases x)
    case (Inl err)
    with w have "contents s1 = contents s" using deletes_soundlyD(2) [OF ok] by blast
    with Cons.prems Inl w show ?thesis by auto
  next
    case (Inr u)
    with w have "contents s1 = contents s - set c" using deletes_soundlyD(1) [OF ok] by simp
    moreover from Cons.prems Inr w have "delete_chunks st cs s1 = (s', r)" by simp
    ultimately show ?thesis using Cons.IH by fastforce
  qed
qed auto

subsection \<open>Properties\<close>

text \<open>
  A read is complete: \<open>readObjectTuples\<close> returns the concatenation of every page the store
  hands out up to the one without a continuation token, and it returns whenever that page
  exists; a truncated read is not an answer.
\<close>

theorem read_object_tuples_complete:
  "read_object_tuples st ob s = Some (s', Inr ts) \<longleftrightarrow>
     pages_from st \<lparr>rq_q_user = None, rq_q_relation = None, rq_q_object = ob\<rparr> s None ts s'"
  by (simp add: read_object_tuples_def read_loop_iff)

text \<open>
  C26. The sweep of a deleted page or space: over a store whose reads end and whose deletes are
  sound, \<open>deleteObjectTuples\<close> returns; it removes nothing but tuples it read, in batches of 1 to
  100, and when it reports success every tuple it read is gone.
\<close>

theorem delete_sweep_removes_what_it_read:
  assumes "pages_from st \<lparr>rq_q_user = None, rq_q_relation = None, rq_q_object = ob\<rparr> s None ts s1"
    and "deletes_soundly st contents"
  shows "\<exists>s' r. delete_object_tuples st ob s = Some (s', r) \<and>
    delete_chunks st (chunks FGA_WRITE_CHUNK ts) s1 = (s', r) \<and>
    list_all (\<lambda>c. 1 \<le> length c \<and> length c \<le> 100) (chunks FGA_WRITE_CHUNK ts) \<and>
    contents s1 - set ts \<subseteq> contents s' \<and> contents s' \<subseteq> contents s1 \<and>
    (r = Inr () \<longrightarrow> contents s' = contents s1 - set ts)"
proof -
  obtain s' r where run: "delete_chunks st (chunks FGA_WRITE_CHUNK ts) s1 = (s', r)" by fastforce
  have "read_object_tuples st ob s = Some (s1, Inr ts)"
    using assms(1) by (simp add: read_object_tuples_def read_loop_iff)
  with run have "delete_object_tuples st ob s = Some (s', r)" by (simp add: delete_object_tuples_def)
  moreover have "list_all (\<lambda>c. 1 \<le> length c \<and> length c \<le> 100) (chunks FGA_WRITE_CHUNK ts)"
    using chunks_length [of _ FGA_WRITE_CHUNK ts] by (force simp: list_all_iff FGA_WRITE_CHUNK_def Suc_le_eq)
  moreover have "concat (chunks FGA_WRITE_CHUNK ts) = ts" by (simp add: FGA_WRITE_CHUNK_def)
  ultimately show ?thesis
    using run delete_chunks_contents [OF assms(2) run] by auto
qed

definition list_store :: "tuple list tuple_store" where
  \<comment> \<open>a store that answers a read in one page and refuses to delete what is not there\<close>
  "list_store =
     \<lparr>ts_write = (\<lambda>s ws ds. if set ds \<subseteq> set s then (filter (\<lambda>t. t \<notin> set ds) (s @ map ti_key ws), Inr ())
        else (s, Inl \<lparr>er_status = Some 400, er_message = ''Cannot delete a tuple which does not exist''\<rparr>)),
      ts_read = (\<lambda>s q token n. (s, Inr \<lparr>rp_tuples = Some (map (\<lambda>t. Some \<lparr>rt_user = Some (tp_user t),
         rt_relation = Some (tp_relation t), rt_object = Some (tp_object t)\<rparr>) (filter (\<lambda>t. tp_object t = rq_q_object q) s)),
         rp_token = Some []\<rparr>))\<rparr>"

lemma list_store_sound: "deletes_soundly list_store set"
  by (auto simp: deletes_soundly_def list_store_def split: if_splits)

definition grant :: "string \<Rightarrow> string \<Rightarrow> tuple" where
  "grant u ob = \<lparr>tp_user = u, tp_relation = ''viewer'', tp_object = ob\<rparr>"

lemma list_store_pages:
  "pages_from list_store \<lparr>rq_q_user = None, rq_q_relation = None, rq_q_object = ''page:p''\<rparr>
     [grant ''user:u'' ''page:p'', grant ''user:v'' ''page:q''] None [grant ''user:u'' ''page:p'']
     [grant ''user:u'' ''page:p'', grant ''user:v'' ''page:q'']"
proof -
  have "page_tuples \<lparr>rp_tuples = Some [Some \<lparr>rt_user = Some ''user:u'', rt_relation = Some ''viewer'', rt_object = Some ''page:p''\<rparr>],
      rp_token = Some []\<rparr> = [grant ''user:u'' ''page:p'']"
    by (simp add: page_tuples_def page_tuple_def nonempty_def map_filter_simps grant_def)
  then show ?thesis
    using last_page [of list_store "[grant ''user:u'' ''page:p'', grant ''user:v'' ''page:q'']"
        "\<lparr>rq_q_user = None, rq_q_relation = None, rq_q_object = ''page:p''\<rparr>" None
        "[grant ''user:u'' ''page:p'', grant ''user:v'' ''page:q'']"
        "\<lparr>rp_tuples = Some [Some \<lparr>rt_user = Some ''user:u'', rt_relation = Some ''viewer'', rt_object = Some ''page:p''\<rparr>],
          rp_token = Some []\<rparr>"]
    by (simp add: list_store_def nonempty_def grant_def)
qed

theorem delete_sweep_removes_what_it_read_witness:
  "\<exists>s' r. delete_object_tuples list_store ''page:p'' [grant ''user:u'' ''page:p'', grant ''user:v'' ''page:q''] = Some (s', r) \<and>
    set [grant ''user:u'' ''page:p'', grant ''user:v'' ''page:q''] - set [grant ''user:u'' ''page:p''] \<subseteq> set s'"
  using delete_sweep_removes_what_it_read [OF list_store_pages list_store_sound] by blast

end
