(* ===== verification/Wk_Outbox.thy ===== *)
theory Wk_Outbox
  imports Wk_Tuples
begin

section \<open>The outbox lease and the queues on it\<close>

text \<open>
  Models \<^verbatim>\<open>apps/server/src/db/outbox-lease.ts\<close>, \<^verbatim>\<open>apps/server/src/db/tuple-outbox.ts\<close> and
  \<^verbatim>\<open>apps/server/src/search/outbox.ts\<close>. A queue table is a list of rows; \<open>now\<close> is the database clock in
  seconds. Row locks held by other transactions are a set of ids that the claim skips (\<open>SKIP
  LOCKED\<close>). The order in which \<open>UPDATE ... RETURNING\<close> lists the rows is the table's order here; SQL
  leaves it open.
\<close>

record 'p queue_row =
  qr_id :: string
  qr_tenant :: string
  qr_created :: int
  qr_claimed :: "int option"
  qr_payload :: 'p

subsection \<open>The claim\<close>

definition OUTBOX_STALE_CLAIM :: int where "OUTBOX_STALE_CLAIM = 120"

definition claimable :: "string set \<Rightarrow> int \<Rightarrow> 'p queue_row \<Rightarrow> bool" where
  "claimable deleted now r \<longleftrightarrow>
     (case qr_claimed r of None \<Rightarrow> True | Some c \<Rightarrow> c < now - OUTBOX_STALE_CLAIM) \<and> qr_tenant r \<notin> deleted"

definition claim_candidates ::
  "string set \<Rightarrow> string set \<Rightarrow> ('p queue_row \<Rightarrow> bool) \<Rightarrow> ('p queue_row \<Rightarrow> int) \<Rightarrow> nat \<Rightarrow> int
   \<Rightarrow> 'p queue_row list \<Rightarrow> 'p queue_row list" where
  "claim_candidates deleted locked due order batch now table =
     take batch (sort_key order
       (filter (\<lambda>r. claimable deleted now r \<and> due r \<and> qr_id r \<notin> locked) table))"

definition claim_outbox_batch ::
  "string set \<Rightarrow> string set \<Rightarrow> ('p queue_row \<Rightarrow> bool) \<Rightarrow> ('p queue_row \<Rightarrow> int) \<Rightarrow> nat \<Rightarrow> int
   \<Rightarrow> 'p queue_row list \<Rightarrow> 'p queue_row list \<times> 'p queue_row list" where
  "claim_outbox_batch deleted locked due order batch now table =
     (let ids = set (map qr_id (claim_candidates deleted locked due order batch now table));
          table' = map (\<lambda>r. if qr_id r \<in> ids then r\<lparr>qr_claimed := Some now\<rparr> else r) table
      in (table', filter (\<lambda>r. qr_id r \<in> ids) table'))"

subsection \<open>The worker loop\<close>

text \<open>A drain acts on a state and answers how many rows it handled, or throws.\<close>

type_synonym 's drain = "authz_env \<Rightarrow> 's \<Rightarrow> 's \<times> (string + nat)"

fun drain_burst :: "nat \<Rightarrow> 's drain \<Rightarrow> authz_env \<Rightarrow> 's \<Rightarrow> 's" where
  \<comment> \<open>\<open>for (i = 0; i < 20 \<and> drain() > 0; i++)\<close>; a throw ends the tick\<close>
  "drain_burst 0 drain e s = s"
| "drain_burst (Suc n) drain e s =
     (case drain e s of
        (s', Inl err) \<Rightarrow> s'
      | (s', Inr k) \<Rightarrow> if 0 < k then drain_burst n drain e s' else s')"

definition worker_tick :: "'s drain \<Rightarrow> authz_env \<Rightarrow> bool \<times> 's \<Rightarrow> bool \<times> 's" where
  \<comment> \<open>the flag \<open>running\<close> and the state; an overlapping tick does nothing\<close>
  "worker_tick drain e w =
     (if fst w then w
      else (False, snd (run_in_authz_scope SYSTEM_SCOPE (\<lambda>e'. (e', drain_burst 20 drain e' (snd w))) e)))"

subsection \<open>The tuple outbox\<close>

record 's tuple_world =
  tw_queue :: "tuple queue_row list"
  tw_store :: 's

definition enqueue_tuple_deletes ::
  "string \<Rightarrow> tuple list \<Rightarrow> string list \<Rightarrow> int \<Rightarrow> tuple queue_row list \<Rightarrow> tuple queue_row list" where
  \<comment> \<open>the ids and the creation time are the database's\<close>
  "enqueue_tuple_deletes tenant intents ids now table =
     (if intents = [] then table
      else table @ map (\<lambda>(t, i). \<lparr>qr_id = i, qr_tenant = tenant, qr_created = now, qr_claimed = None,
                                   qr_payload = t\<rparr>) (zip intents ids))"

definition drop_row :: "string \<Rightarrow> tuple \<Rightarrow> tuple queue_row list \<Rightarrow> tuple queue_row list" where
  "drop_row tenant t table = filter (\<lambda>r. \<not> (qr_tenant r = tenant \<and> qr_payload r = t)) table"

fun flush_tuple_deletes :: "'s tuple_store \<Rightarrow> string \<Rightarrow> tuple list \<Rightarrow> 's tuple_world \<Rightarrow> 's tuple_world" where
  "flush_tuple_deletes st tenant [] w = w"
| "flush_tuple_deletes st tenant (i # is) w =
     (case delete_tuples st [i] (tw_store w) of
        (s', r) \<Rightarrow>
          (let keep = (case r of Inl err \<Rightarrow> \<not> is_already_converged err | Inr _ \<Rightarrow> False);
               w1 = w\<lparr>tw_store := s'\<rparr>;
               w2 = (if keep then w1 else w1\<lparr>tw_queue := drop_row tenant i (tw_queue w1)\<rparr>)
           in flush_tuple_deletes st tenant is w2))"

fun drain_claimed :: "'s tuple_store \<Rightarrow> tuple queue_row list \<Rightarrow> nat \<Rightarrow> 's tuple_world \<Rightarrow> 's tuple_world \<times> nat" where
  "drain_claimed st [] drained w = (w, drained)"
| "drain_claimed st (r # rs) drained w =
     (case delete_tuples st [qr_payload r] (tw_store w) of
        (s', res) \<Rightarrow>
          (let keep = (case res of Inl err \<Rightarrow> \<not> is_already_converged err | Inr _ \<Rightarrow> False);
               w1 = w\<lparr>tw_store := s'\<rparr>
           in if keep then drain_claimed st rs drained w1
              else drain_claimed st rs (drained + 1)
                     (w1\<lparr>tw_queue := filter (\<lambda>q. qr_id q \<noteq> qr_id r) (tw_queue w1)\<rparr>)))"

definition drain_tuple_outbox ::
  "'s tuple_store \<Rightarrow> string set \<Rightarrow> string set \<Rightarrow> nat option \<Rightarrow> int \<Rightarrow> 's tuple_world \<Rightarrow> 's tuple_world \<times> nat" where
  "drain_tuple_outbox st deleted locked batch now w =
     (let (table, claimed) = claim_outbox_batch deleted locked (\<lambda>_. True) qr_created (nullish 100 batch) now (tw_queue w)
      in drain_claimed st claimed 0 (w\<lparr>tw_queue := table\<rparr>))"

definition tuple_outbox_backlog :: "int \<Rightarrow> tuple queue_row list \<Rightarrow> nat \<times> int option" where
  "tuple_outbox_backlog now table =
     (length table, (case table of [] \<Rightarrow> None | r # rs \<Rightarrow> Some (now - Min (set (map qr_created table)))))"

subsection \<open>The search outbox\<close>

datatype index_op = UpsertOp | DeleteDocOp

record search_intent =
  si_page :: string
  si_op :: index_op

record 's search_world =
  sw_queue :: "search_intent queue_row list"
  sw_index :: 's
  sw_published :: "(string \<times> string) list" \<comment> \<open>the dictionary invalidations sent\<close>
  sw_last :: "nat \<times> nat \<times> nat"

record 's indexer =
  ix_build :: "'s \<Rightarrow> string \<Rightarrow> string \<Rightarrow> 's \<times> (string + string option)" \<comment> \<open>\<open>buildSearchDoc\<close>\<close>
  ix_upsert :: "'s \<Rightarrow> string \<Rightarrow> 's \<times> (string + unit)"
  ix_delete :: "'s \<Rightarrow> string \<Rightarrow> 's \<times> (string + unit)"

definition enqueue_outbox ::
  "string \<Rightarrow> search_intent \<Rightarrow> string \<Rightarrow> int \<Rightarrow> search_intent queue_row list \<Rightarrow> search_intent queue_row list" where
  "enqueue_outbox tenant intent i now table =
     table @ [\<lparr>qr_id = i, qr_tenant = tenant, qr_created = now, qr_claimed = None, qr_payload = intent\<rparr>]"

definition index_one :: "'s indexer \<Rightarrow> string \<Rightarrow> search_intent \<Rightarrow> 's \<Rightarrow> 's \<times> (string + unit)" where
  "index_one ix tenant intent s =
     (case si_op intent of
        UpsertOp \<Rightarrow>
          (case ix_build ix s (si_page intent) tenant of
             (s1, Inl err) \<Rightarrow> (s1, Inl err)
           | (s1, Inr (Some doc)) \<Rightarrow> ix_upsert ix s1 doc
           | (s1, Inr None) \<Rightarrow> ix_delete ix s1 (si_page intent))
      | DeleteDocOp \<Rightarrow> ix_delete ix s (si_page intent))"


definition finish_intent :: "string \<Rightarrow> string \<Rightarrow> search_intent \<Rightarrow> 's search_world \<Rightarrow> 's search_world" where
  \<comment> \<open>the row goes, then the dictionary signal is sent\<close>
  "finish_intent i tenant intent w =
     w\<lparr>sw_queue := filter (\<lambda>q. qr_id q \<noteq> i) (sw_queue w),
       sw_published := sw_published w @ [(tenant, si_page intent)]\<rparr>"



definition process_outbox_async ::
  "'s indexer \<Rightarrow> string \<Rightarrow> string \<Rightarrow> search_intent \<Rightarrow> 's search_world \<Rightarrow> 's search_world" where
  "process_outbox_async ix i tenant intent w =
     (case index_one ix tenant intent (sw_index w) of
        (s', Inl err) \<Rightarrow> w\<lparr>sw_index := s'\<rparr>
      | (s', Inr _) \<Rightarrow> finish_intent i tenant intent (w\<lparr>sw_index := s'\<rparr>))"

subsection \<open>The contract of the lease\<close>

definition unclaimed :: "'p queue_row \<Rightarrow> 'p queue_row" where
  "unclaimed r = r\<lparr>qr_claimed := None\<rparr>"

definition ids_of :: "'p queue_row list \<Rightarrow> string list" where
  "ids_of t = map qr_id t"

text \<open>
  What a queue relies on: a claim changes nothing but \<open>claimed_at\<close>, keeps the order of the table
  and hands out rows of the table it leaves behind.
\<close>

locale row_lease =
  fixes claim :: "'p queue_row list \<Rightarrow> 'p queue_row list \<times> 'p queue_row list"
  assumes claim_keeps: "map unclaimed (fst (claim t)) = map unclaimed t"
    and claim_hands_out: "\<exists>P. snd (claim t) = filter P (fst (claim t))"
begin

lemma ids_kept: "ids_of (fst (claim t)) = ids_of t"
proof -
  have "map (qr_id \<circ> unclaimed) (fst (claim t)) = map (qr_id \<circ> unclaimed) t"
    using arg_cong [where f = "map qr_id", OF claim_keeps [of t]] by simp
  moreover have "qr_id \<circ> unclaimed = (qr_id :: 'p queue_row \<Rightarrow> string)" by (simp add: unclaimed_def fun_eq_iff)
  ultimately show ?thesis by (simp add: ids_of_def)
qed

lemma row_kept: "r \<in> set (fst (claim t)) \<Longrightarrow> \<exists>r0 \<in> set t. unclaimed r0 = unclaimed r"
  using arg_cong [where f = set, OF claim_keeps [of t]] by (auto simp: image_iff) (metis imageE imageI)

lemma row_survives: "r \<in> set t \<Longrightarrow> \<exists>r1 \<in> set (fst (claim t)). unclaimed r1 = unclaimed r"
  using arg_cong [where f = set, OF claim_keeps [of t]] by (auto simp: image_iff) (metis imageE imageI)

lemma claimed_in_table: "set (snd (claim t)) \<subseteq> set (fst (claim t))"
  using claim_hands_out [of t] by auto

lemma claimed_distinct: "distinct (ids_of t) \<Longrightarrow> distinct (ids_of (snd (claim t)))"
  using claim_hands_out [of t] ids_kept [of t] by (metis distinct_map_filter ids_of_def)

end

interpretation lease: row_lease "claim_outbox_batch deleted locked due order batch now"
  for deleted locked :: "string set" and due :: "'p queue_row \<Rightarrow> bool" and order batch now
  by unfold_locales (auto simp: claim_outbox_batch_def Let_def unclaimed_def)

subsection \<open>What a claim takes\<close>

lemma unclaimed_fields:
  "unclaimed r = unclaimed r' \<Longrightarrow> qr_id r = qr_id r' \<and> qr_tenant r = qr_tenant r' \<and>
     qr_created r = qr_created r' \<and> qr_payload r = qr_payload r'"
  by (cases r; cases r') (simp add: unclaimed_def)

lemma candidates_subset:
  "set (claim_candidates deleted locked due order batch now t) \<subseteq>
   {r \<in> set t. claimable deleted now r \<and> due r \<and> qr_id r \<notin> locked}"
  by (auto simp: claim_candidates_def dest: in_set_takeD)

lemma in_take_or_drop: "x \<in> set xs \<Longrightarrow> x \<notin> set (take n xs) \<Longrightarrow> x \<in> set (drop n xs)"
  by (metis Un_iff append_take_drop_id set_append)

lemma sorted_take_drop:
  "sorted (map f xs) \<Longrightarrow> x \<in> set (take n xs) \<Longrightarrow> y \<in> set (drop n xs) \<Longrightarrow> f x \<le> f y"
  by (induction xs arbitrary: n) (auto simp: take_Cons drop_Cons dest: in_set_dropD split: nat.splits)

lemma candidates_oldest:
  assumes "r \<in> set (claim_candidates deleted locked due order batch now t)"
    and "q \<in> set t" "claimable deleted now q" "due q" "qr_id q \<notin> locked"
    and "q \<notin> set (claim_candidates deleted locked due order batch now t)"
  shows "order r \<le> order q"
proof -
  let ?xs = "sort_key order (filter (\<lambda>r. claimable deleted now r \<and> due r \<and> qr_id r \<notin> locked) t)"
  have "q \<in> set ?xs" using assms(2-5) by simp
  moreover have "q \<notin> set (take batch ?xs)" using assms(6) by (simp only: claim_candidates_def not_False_eq_True)
  ultimately have "q \<in> set (drop batch ?xs)" by (rule in_take_or_drop)
  moreover have "r \<in> set (take batch ?xs)" using assms(1) by (simp only: claim_candidates_def)
  ultimately show ?thesis by (intro sorted_take_drop [of order ?xs]) simp_all
qed

lemma same_id:
  "distinct (ids_of t) \<Longrightarrow> x \<in> set t \<Longrightarrow> y \<in> set t \<Longrightarrow> qr_id x = qr_id y \<Longrightarrow> x = y"
  by (auto simp: ids_of_def distinct_map dest: inj_onD)

lemma id_member: "r \<in> set t \<Longrightarrow> qr_id r = i \<Longrightarrow> i \<in> set (ids_of t)"
  by (auto simp: ids_of_def)

lemma candidates_ids:
  assumes "distinct (ids_of t)" and "r \<in> set t"
    and "qr_id r \<in> set (map qr_id (claim_candidates deleted locked due order batch now t))"
  shows "r \<in> set (claim_candidates deleted locked due order batch now t)"
proof -
  obtain c where c: "c \<in> set (claim_candidates deleted locked due order batch now t)" "qr_id c = qr_id r"
    using assms(3) by auto
  then have "c \<in> set t" using candidates_subset by blast
  with c assms(1,2) show ?thesis by (metis distinct_map ids_of_def inj_onD)
qed

lemma claimed_count:
  assumes "distinct (ids_of t)"
  shows "length (snd (claim_outbox_batch deleted locked due order batch now t)) \<le> batch"
proof -
  let ?C = "claim_candidates deleted locked due order batch now t"
  let ?c = "snd (claim_outbox_batch deleted locked due order batch now t)"
  have "set (ids_of ?c) \<subseteq> set (map qr_id ?C)"
    by (auto simp: claim_outbox_batch_def Let_def ids_of_def)
  then have "card (set (ids_of ?c)) \<le> card (set (map qr_id ?C))" by (rule card_mono [rotated]) simp
  also have "\<dots> \<le> length ?C" by (metis card_length length_map)
  also have "\<dots> \<le> batch" by (simp add: claim_candidates_def)
  finally show ?thesis
    using distinct_card [OF lease.claimed_distinct [OF assms, of deleted locked due order batch now]]
    by (simp add: ids_of_def)
qed

lemma claimed_stamped:
  "r \<in> set (snd (claim_outbox_batch deleted locked due order batch now t)) \<Longrightarrow> qr_claimed r = Some now"
  by (auto simp: claim_outbox_batch_def Let_def)

lemma claimed_row:
  "q \<in> set t \<Longrightarrow> q \<in> set (claim_candidates deleted locked due order batch now t) \<Longrightarrow>
   q\<lparr>qr_claimed := Some now\<rparr> \<in> set (snd (claim_outbox_batch deleted locked due order batch now t))"
  by (auto simp: claim_outbox_batch_def Let_def image_iff intro: rev_bexI)

lemma claimed_was_due:
  assumes "distinct (ids_of t)" "r \<in> set (snd (claim_outbox_batch deleted locked due order batch now t))"
  shows "\<exists>r0 \<in> set t. unclaimed r0 = unclaimed r \<and> claimable deleted now r0 \<and> due r0 \<and> qr_id r0 \<notin> locked"
proof -
  from assms(2) obtain r0 where r0: "r0 \<in> set t" "unclaimed r0 = unclaimed r"
      "qr_id r0 \<in> set (map qr_id (claim_candidates deleted locked due order batch now t))"
    by (auto simp: claim_outbox_batch_def Let_def unclaimed_def split: if_splits)
  from candidates_ids [OF assms(1) r0(1,3)] r0 candidates_subset show ?thesis by blast
qed

subsection \<open>What a drain removes\<close>

definition kept_ids :: "'p queue_row list \<Rightarrow> string set" where
  "kept_ids t = set (ids_of t)"

lemma delete_one_lands:
  assumes "deletes_soundly st contents" and "delete_tuples st [t] s = (s', res)"
  shows "contents s' \<subseteq> contents s \<and>
    (\<not> (case res of Inl err \<Rightarrow> \<not> is_already_converged err | Inr _ \<Rightarrow> False) \<longrightarrow> t \<notin> contents s')"
proof -
  obtain x where w: "ts_write st s [] [t] = (s', x)" using assms(2)
    by (auto simp: delete_tuples_def split: prod.splits sum.splits)
  show ?thesis
  proof (cases x)
    case (Inl err)
    with w assms(2) have "res = Inl (as_domain_error err DeleteOp)" by (simp add: delete_tuples_def)
    with w Inl show ?thesis using deletes_soundlyD(2,3) [OF assms(1)] by auto
  next
    case (Inr u)
    with w show ?thesis using deletes_soundlyD(1) [OF assms(1)] by auto
  qed
qed

lemma drain_claimed_sound:
  assumes ok: "deletes_soundly st contents"
  shows "drain_claimed st rs k w = (w', n) \<Longrightarrow> distinct (ids_of rs) \<Longrightarrow> distinct (ids_of (tw_queue w)) \<Longrightarrow>
    set rs \<subseteq> set (tw_queue w) \<Longrightarrow>
    set (tw_queue w') \<subseteq> set (tw_queue w) \<and> contents (tw_store w') \<subseteq> contents (tw_store w) \<and>
    length (tw_queue w') + n = length (tw_queue w) + k \<and>
    (\<forall>r \<in> set (tw_queue w). r \<in> set (tw_queue w') \<or> r \<in> set rs \<and> qr_payload r \<notin> contents (tw_store w'))"
proof (induction rs arbitrary: k w)
  case (Cons r rs)
  obtain s1 res where d: "delete_tuples st [qr_payload r] (tw_store w) = (s1, res)" by fastforce
  note one = delete_one_lands [OF ok d]
  show ?case
  proof (cases "case res of Inl err \<Rightarrow> \<not> is_already_converged err | Inr _ \<Rightarrow> False")
    case True
    with Cons.prems(1) d have run: "drain_claimed st rs k (w\<lparr>tw_store := s1\<rparr>) = (w', n)" by (simp add: Let_def)
    from Cons.IH [OF run] Cons.prems(2-4) one show ?thesis by (auto simp: ids_of_def)
  next
    case False
    let ?q = "filter (\<lambda>q. qr_id q \<noteq> qr_id r) (tw_queue w)"
    from False Cons.prems(1) d
    have run: "drain_claimed st rs (k + 1) (w\<lparr>tw_store := s1, tw_queue := ?q\<rparr>) = (w', n)" by (simp add: Let_def)
    have dq: "distinct (ids_of ?q)" using Cons.prems(3) by (simp add: ids_of_def distinct_map_filter)
    have sub: "set rs \<subseteq> set ?q" using Cons.prems(2,4) by (auto simp: ids_of_def) (metis image_eqI)
    have out: "q = r" if "q \<in> set (tw_queue w)" "q \<notin> set ?q" for q
      using that Cons.prems(3,4) by (auto simp: ids_of_def distinct_map inj_on_def)
    have len: "length ?q + 1 = length (tw_queue w)"
    proof -
      have "length (filter (\<lambda>q. qr_id q = qr_id r) (tw_queue w)) = 1"
      proof -
        have "filter (\<lambda>q. qr_id q = qr_id r) (tw_queue w) = filter (\<lambda>q. q = r) (tw_queue w)"
          using Cons.prems(3,4) by (intro filter_cong) (auto simp: ids_of_def distinct_map inj_on_def)
        moreover have "distinct (tw_queue w)" using Cons.prems(3) by (simp add: ids_of_def distinct_map)
        ultimately show ?thesis using Cons.prems(4) distinct_length_filter [of "tw_queue w" "\<lambda>q. q = r"]
          by (simp add: Collect_conv_if Int_absorb2)
      qed
      with sum_length_filter_compl [of "\<lambda>q. qr_id q = qr_id r" "tw_queue w"] show ?thesis by simp
    qed
    from Cons.IH [OF run _ _] Cons.prems(2) dq sub
    have IH: "set (tw_queue w') \<subseteq> set ?q" "contents (tw_store w') \<subseteq> contents s1"
      "length (tw_queue w') + n = length ?q + (k + 1)"
      "\<forall>q \<in> set ?q. q \<in> set (tw_queue w') \<or> q \<in> set rs \<and> qr_payload q \<notin> contents (tw_store w')"
      by (auto simp: ids_of_def)
    have "q \<in> set (tw_queue w') \<or> q \<in> set (r # rs) \<and> qr_payload q \<notin> contents (tw_store w')" if "q \<in> set (tw_queue w)" for q
      using IH(2,4) out [OF that] one False by (cases "q \<in> set ?q") auto
    with IH len one show ?thesis by auto
  qed
qed auto



subsection \<open>Properties\<close>

text \<open>
  C27. The lease is exclusive and fair. A claim hands out at most \<open>batch\<close> rows; each was due, not
  claimed within the last two minutes, not locked by another worker and not of a workspace under
  deletion; no older due row was passed over; and until two minutes have gone by no second claim,
  by whichever worker, hands out a row of the first.
\<close>

theorem claim_exclusive_and_fair:
  assumes "distinct (ids_of t)"
    and "claim_outbox_batch deleted locked due qr_created batch now t = (t1, c1)"
    and "claim_outbox_batch deleted locked2 due2 order2 batch2 now2 t1 = (t2, c2)"
    and "now2 \<le> now + OUTBOX_STALE_CLAIM"
  shows "set (ids_of c1) \<inter> set (ids_of c2) = {} \<and> length c1 \<le> batch \<and>
    (\<forall>r \<in> set c1. \<exists>r0 \<in> set t. unclaimed r0 = unclaimed r \<and> claimable deleted now r0 \<and> due r0 \<and> qr_id r0 \<notin> locked) \<and>
    (\<forall>r \<in> set c1. \<forall>q \<in> set t. claimable deleted now q \<and> due q \<and> qr_id q \<notin> locked \<and> qr_id q \<notin> set (ids_of c1) \<longrightarrow>
       qr_created r \<le> qr_created q)"
proof -
  have c1: "c1 = snd (claim_outbox_batch deleted locked due qr_created batch now t)" using assms(2) by simp
  have t1: "t1 = fst (claim_outbox_batch deleted locked due qr_created batch now t)" using assms(2) by simp
  have c2: "c2 = snd (claim_outbox_batch deleted locked2 due2 order2 batch2 now2 t1)" using assms(3) by simp
  have d1: "distinct (ids_of t1)" unfolding t1 by (simp add: lease.ids_kept assms(1))
  have disj: "set (ids_of c1) \<inter> set (ids_of c2) = {}"
  proof (rule ccontr)
    assume "set (ids_of c1) \<inter> set (ids_of c2) \<noteq> {}"
    then obtain r r' where r: "r \<in> set c1" and r': "r' \<in> set c2" "qr_id r' = qr_id r"
      by (auto simp: ids_of_def) metis
    from claimed_was_due [OF d1 r'(1) [unfolded c2]] obtain r0 where r0: "r0 \<in> set t1" "unclaimed r0 = unclaimed r'"
      "claimable deleted now2 r0" by blast
    have "r \<in> set t1" using r lease.claimed_in_table unfolding c1 t1 by blast
    moreover have "qr_id r0 = qr_id r" using unclaimed_fields [OF r0(2)] r'(2) by simp
    ultimately have "r0 = r" using same_id [OF d1 r0(1)] by blast
    with claimed_stamped [OF r [unfolded c1]] r0(3) assms(4) show False by (simp add: claimable_def)
  qed
  have fair: "qr_created r \<le> qr_created q"
    if r: "r \<in> set c1" and q: "q \<in> set t" "claimable deleted now q" "due q" "qr_id q \<notin> locked" "qr_id q \<notin> set (ids_of c1)" for r q
  proof -
    let ?C = "claim_candidates deleted locked due qr_created batch now t"
    from r obtain r0 where r0: "r0 \<in> set t" "unclaimed r0 = unclaimed r" "qr_id r0 \<in> set (map qr_id ?C)"
      unfolding c1 by (auto simp: claim_outbox_batch_def Let_def unclaimed_def split: if_splits)
    have "q \<notin> set ?C"
    proof
      assume "q \<in> set ?C"
      with q(1) have "q\<lparr>qr_claimed := Some now\<rparr> \<in> set c1" unfolding c1 by (rule claimed_row)
      then have "qr_id (q\<lparr>qr_claimed := Some now\<rparr>) \<in> set (ids_of c1)" unfolding ids_of_def by (metis image_eqI set_map)
      with q(5) show False by simp
    qed
    from candidates_oldest [OF candidates_ids [OF assms(1) r0(1,3)] q(1-4) this]
    have "qr_created r0 \<le> qr_created q" .
    with unclaimed_fields [OF r0(2)] show ?thesis by simp
  qed
  show ?thesis
    using disj claimed_count [OF assms(1)] claimed_was_due [OF assms(1)] fair unfolding c1 by blast
qed

definition sample_row :: "string \<Rightarrow> int \<Rightarrow> 'p \<Rightarrow> 'p queue_row" where
  "sample_row i n p = \<lparr>qr_id = i, qr_tenant = ''t'', qr_created = n, qr_claimed = None, qr_payload = p\<rparr>"

lemma sample_claims:
  "claim_outbox_batch {} {} (\<lambda>_. True) qr_created 1 10 [sample_row ''a'' 2 (), sample_row ''b'' 1 ()] =
     ([sample_row ''a'' 2 (), (sample_row ''b'' 1 ())\<lparr>qr_claimed := Some 10\<rparr>], [(sample_row ''b'' 1 ())\<lparr>qr_claimed := Some 10\<rparr>])"
  "claim_outbox_batch {} {} (\<lambda>_. True) qr_created 5 20 [sample_row ''a'' 2 (), (sample_row ''b'' 1 ())\<lparr>qr_claimed := Some 10\<rparr>] =
     ([(sample_row ''a'' 2 ())\<lparr>qr_claimed := Some 20\<rparr>, (sample_row ''b'' 1 ())\<lparr>qr_claimed := Some 10\<rparr>],
      [(sample_row ''a'' 2 ())\<lparr>qr_claimed := Some 20\<rparr>])"
  by (simp_all add: claim_outbox_batch_def claim_candidates_def claimable_def sample_row_def OUTBOX_STALE_CLAIM_def Let_def)

theorem claim_exclusive_and_fair_witness:
  "set (ids_of [(sample_row ''b'' 1 ())\<lparr>qr_claimed := Some 10\<rparr>]) \<inter>
   set (ids_of [(sample_row ''a'' 2 ())\<lparr>qr_claimed := Some 20\<rparr>]) = {}"
  using claim_exclusive_and_fair [OF _ sample_claims] by (simp add: ids_of_def sample_row_def OUTBOX_STALE_CLAIM_def)

text \<open>
  C28. The tuple outbox forgets nothing that is still in the store: over a store whose deletes are
  sound, a drain removes a row only when its tuple is absent from the store afterwards, whether it
  deleted it or found it gone; every other row is still queued; and the number it answers is the
  number of rows that left.
\<close>

lemma drain_tuple_outbox_sound:
  assumes "deletes_soundly st contents" and d: "distinct (ids_of (tw_queue w))"
    and "drain_tuple_outbox st deleted locked batch now w = (w', n)"
  shows "contents (tw_store w') \<subseteq> contents (tw_store w) \<and> length (tw_queue w') + n = length (tw_queue w) \<and>
    (\<forall>r \<in> set (tw_queue w). (\<exists>r' \<in> set (tw_queue w'). unclaimed r' = unclaimed r) \<or> qr_payload r \<notin> contents (tw_store w'))"
proof -
  let ?c = "claim_outbox_batch deleted locked (\<lambda>_. True) qr_created (nullish 100 batch) now (tw_queue w)"
  from assms(3) have run: "drain_claimed st (snd ?c) 0 (w\<lparr>tw_queue := fst ?c\<rparr>) = (w', n)"
    by (simp add: drain_tuple_outbox_def case_prod_beta)
  have dc: "distinct (ids_of (snd ?c))" by (rule lease.claimed_distinct [OF d])
  have df: "distinct (ids_of (fst ?c))" by (simp add: lease.ids_kept d)
  have sub: "set (snd ?c) \<subseteq> set (fst ?c)" by (rule lease.claimed_in_table)
  have snd: "set (tw_queue w') \<subseteq> set (fst ?c) \<and> contents (tw_store w') \<subseteq> contents (tw_store w) \<and>
    length (tw_queue w') + n = length (fst ?c) \<and>
    (\<forall>r \<in> set (fst ?c). r \<in> set (tw_queue w') \<or> r \<in> set (snd ?c) \<and> qr_payload r \<notin> contents (tw_store w'))"
    using drain_claimed_sound [OF assms(1) run dc] df sub by simp
  have len: "length (fst ?c) = length (tw_queue w)"
    using lease.ids_kept [of deleted locked "\<lambda>_. True" qr_created "nullish 100 batch" now "tw_queue w"]
    by (metis ids_of_def length_map)
  have "(\<exists>r' \<in> set (tw_queue w'). unclaimed r' = unclaimed r) \<or> qr_payload r \<notin> contents (tw_store w')"
    if "r \<in> set (tw_queue w)" for r
  proof -
    from lease.row_survives [OF that] obtain r1 where r1: "r1 \<in> set (fst ?c)" "unclaimed r1 = unclaimed r" by blast
    with snd have "r1 \<in> set (tw_queue w') \<or> qr_payload r1 \<notin> contents (tw_store w')" by auto
    with r1(2) unclaimed_fields [OF r1(2)] show ?thesis by auto
  qed
  with snd len show ?thesis by simp
qed

theorem drain_forgets_only_absent_tuples:
  assumes "deletes_soundly st contents" and "distinct (ids_of (tw_queue w))"
    and "drain_tuple_outbox st deleted locked batch now w = (w', n)"
    and "r \<in> set (tw_queue w)" and "qr_id r \<notin> set (ids_of (tw_queue w'))"
  shows "qr_payload r \<notin> contents (tw_store w') \<and> contents (tw_store w') \<subseteq> contents (tw_store w) \<and>
    length (tw_queue w') + n = length (tw_queue w)"
proof -
  have "\<not> (\<exists>r' \<in> set (tw_queue w'). unclaimed r' = unclaimed r)"
    using assms(5) id_member unclaimed_fields by metis
  with drain_tuple_outbox_sound [OF assms(1-3)] assms(4) show ?thesis by blast
qed

definition sample_world :: "tuple list tuple_world" where
  \<comment> \<open>one tuple still in the store, one already gone\<close>
  "sample_world =
     \<lparr>tw_queue = [sample_row ''1'' 1 (grant ''user:u'' ''page:p''), sample_row ''2'' 2 (grant ''user:v'' ''page:p'')],
      tw_store = [grant ''user:u'' ''page:p'', grant ''user:w'' ''page:p'']\<rparr>"

lemma sample_drain:
  "drain_tuple_outbox list_store {} {} None 10 sample_world =
     (\<lparr>tw_queue = [], tw_store = [grant ''user:w'' ''page:p'']\<rparr>, 2)"
proof -
  have "converged_wording ''Cannot delete a tuple which does not exist''" by code_simp
  then show ?thesis
    by (simp add: drain_tuple_outbox_def claim_outbox_batch_def claim_candidates_def claimable_def sample_world_def
        sample_row_def Let_def delete_tuples_def list_store_def grant_def as_domain_error_def is_already_converged_def)
qed

theorem drain_forgets_only_absent_tuples_witness:
  "grant ''user:v'' ''page:p'' \<notin> set [grant ''user:w'' ''page:p''] \<and>
   set (tw_store \<lparr>tw_queue = ([] :: tuple queue_row list), tw_store = [grant ''user:w'' ''page:p'']\<rparr>) \<subseteq> set (tw_store sample_world)"
  using drain_forgets_only_absent_tuples [OF list_store_sound _ sample_drain,
      of "sample_row ''2'' 2 (grant ''user:v'' ''page:p'')"]
  by (simp add: sample_world_def sample_row_def ids_of_def)









text \<open>
  A tick is bounded and never overlaps itself: it runs the drain at most twenty times, under
  the system scope, and a tick that finds one running does nothing.
\<close>

definition counting :: "'s drain \<Rightarrow> ('s \<times> authz_env list) drain" where
  \<comment> \<open>a drain that records the environment of each of its runs\<close>
  "counting drain e st = (let (s', r) = drain e (fst st) in ((s', snd st @ [e]), r))"

lemma drain_burst_counts:
  "\<exists>k \<le> n. snd (drain_burst n (counting drain) e st) = snd st @ replicate k e"
proof (induction n arbitrary: st)
  case (Suc n)
  obtain s1 r where d: "drain e (fst st) = (s1, r)" by fastforce
  then have c: "counting drain e st = ((s1, snd st @ [e]), r)" by (simp add: counting_def)
  from Suc.IH [of "(s1, snd st @ [e])"] obtain k where k: "k \<le> n"
    "snd (drain_burst n (counting drain) e (s1, snd st @ [e])) = snd st @ [e] @ replicate k e" by auto
  show ?case
  proof (cases "\<exists>m. r = Inr m \<and> 0 < m")
    case True
    with c k show ?thesis by (intro exI [of _ "Suc k"]) auto
  next
    case False
    with c show ?thesis by (intro exI [of _ 1]) (auto split: sum.splits)
  qed
qed simp

theorem worker_tick_bounded:
  "(\<exists>k. k \<le> 20 \<and> snd (snd (worker_tick (counting drain) e (False, (s, [])))) =
      replicate k (e\<lparr>als_store := Some SYSTEM_SCOPE\<rparr>)) \<and>
   worker_tick (counting drain) e (True, st) = (True, st)"
  using drain_burst_counts [of 20 drain "e\<lparr>als_store := Some SYSTEM_SCOPE\<rparr>" "(s, [])"]
  by (auto simp: worker_tick_def run_in_authz_scope_def)

end
