(* ===== verification/Wk_Json.thy ===== *)
theory Wk_Json
  imports Wk_Prelude
begin

section \<open>\<open>JSON.stringify\<close>\<close>

text \<open>
  The part of \<open>JSON.stringify\<close> the sources rely on: null, booleans, integers, strings, arrays and
  objects, without white space, strings quoted and escaped as ECMAScript prescribes for code units
  below 256. The lemma \<open>stringify_inject\<close> says that two values with the same text are the same.
\<close>

datatype json =
    JNull
  | JBool bool
  | JInt int
  | JStr string
  | JArr "json list"
  | JObj "(string \<times> json) list"

definition hex_digit :: "nat \<Rightarrow> char" where
  "hex_digit n = (if n < 10 then char_of (48 + n) else char_of (87 + n))"

definition DQ :: char where "DQ = CHR 0x22"

definition BS :: char where "BS = CHR 0x5C"

definition esc_char :: "char \<Rightarrow> string" where
  "esc_char c =
     (let n = of_char c :: nat in
      if c = DQ then [BS, DQ]
      else if c = BS then [BS, BS]
      else if n = 8 then [BS, CHR ''b'']
      else if n = 9 then [BS, CHR ''t'']
      else if n = 10 then [BS, CHR ''n'']
      else if n = 12 then [BS, CHR ''f'']
      else if n = 13 then [BS, CHR ''r'']
      else if n < 32 then [BS, CHR ''u'', CHR ''0'', CHR ''0'', hex_digit (n div 16), hex_digit (n mod 16)]
      else [c])"

definition quote :: "string \<Rightarrow> string" where
  "quote s = DQ # concat (map esc_char s) @ [DQ]"

definition int_str :: "int \<Rightarrow> string" where
  "int_str i = (if i < 0 then ''-'' else []) @ nat_str (nat \<bar>i\<bar>)"

fun sep_by :: "char \<Rightarrow> string list \<Rightarrow> string" where
  "sep_by c [] = []"
| "sep_by c [x] = x"
| "sep_by c (x # xs) = x @ c # sep_by c xs"

fun stringify :: "json \<Rightarrow> string" where
  "stringify JNull = ''null''"
| "stringify (JBool b) = (if b then ''true'' else ''false'')"
| "stringify (JInt i) = int_str i"
| "stringify (JStr s) = quote s"
| "stringify (JArr xs) = ''['' @ sep_by (CHR '','') (map stringify xs) @ '']''"
| "stringify (JObj ps) = ''{'' @ sep_by (CHR '','') (map (\<lambda>(k, v). quote k @ '':'' @ stringify v) ps) @ ''}''"

subsection \<open>Strings are read back\<close>

fun hex_val :: "char \<Rightarrow> nat" where
  "hex_val c = (let n = of_char c :: nat in if n < 58 then n - 48 else n - 87)"

fun unesc :: "string \<Rightarrow> (char \<times> string) option" where
  \<comment> \<open>one escaped character off the front\<close>
  "unesc [] = None"
| "unesc (c # u) =
     (if c \<noteq> BS then Some (c, u)
      else
        (case u of
           [] \<Rightarrow> None
         | d # v \<Rightarrow>
             if d = CHR ''b'' then Some (char_of (8 :: nat), v)
             else if d = CHR ''t'' then Some (char_of (9 :: nat), v)
             else if d = CHR ''n'' then Some (char_of (10 :: nat), v)
             else if d = CHR ''f'' then Some (char_of (12 :: nat), v)
             else if d = CHR ''r'' then Some (char_of (13 :: nat), v)
             else if d = CHR ''u'' then
               (case v of a # b # h # l # w \<Rightarrow> Some (char_of (16 * hex_val h + hex_val l), w) | _ \<Rightarrow> None)
             else Some (d, v)))"

lemma hex_val_digit: "n < 16 \<Longrightarrow> hex_val (hex_digit n) = n"
  by (auto simp: hex_digit_def of_char_of Let_def)

lemma esc_named:
  "esc_char (char_of (8 :: nat)) = [BS, CHR ''b'']" "esc_char (char_of (9 :: nat)) = [BS, CHR ''t'']"
  "esc_char (char_of (10 :: nat)) = [BS, CHR ''n'']" "esc_char (char_of (12 :: nat)) = [BS, CHR ''f'']"
  "esc_char (char_of (13 :: nat)) = [BS, CHR ''r'']"
  by code_simp+

lemma unesc_named:
  "unesc (BS # CHR ''b'' # u) = Some (char_of (8 :: nat), u)" "unesc (BS # CHR ''t'' # u) = Some (char_of (9 :: nat), u)"
  "unesc (BS # CHR ''n'' # u) = Some (char_of (10 :: nat), u)" "unesc (BS # CHR ''f'' # u) = Some (char_of (12 :: nat), u)"
  "unesc (BS # CHR ''r'' # u) = Some (char_of (13 :: nat), u)"
  "unesc (BS # DQ # u) = Some (DQ, u)" "unesc (BS # BS # u) = Some (BS, u)"
  by (simp_all add: DQ_def BS_def)

lemma unesc_esc: "unesc (esc_char c @ u) = Some (c, u)"
proof -
  have n: "char_of (of_char c :: nat) = c" by simp
  have h: "hex_val (hex_digit (of_char c div 16)) = of_char c div 16" if "(of_char c :: nat) < 32"
    using that by (intro hex_val_digit) simp
  have l: "hex_val (hex_digit (of_char c mod 16)) = of_char c mod 16"
    by (intro hex_val_digit) simp
  have s: "16 * (of_char c div 16) + of_char c mod 16 = (of_char c :: nat)" by simp
  consider "c = DQ" | "c = BS" | "of_char c \<in> {8, 9, 10, 12, 13 :: nat}"
    | "(of_char c :: nat) < 32" "of_char c \<notin> {8, 9, 10, 12, 13 :: nat}" "c \<noteq> DQ" "c \<noteq> BS"
    | "32 \<le> (of_char c :: nat)" "c \<noteq> DQ" "c \<noteq> BS" by (cases "(of_char c :: nat) < 32") auto
  then show ?thesis
  proof cases
    case 3
    then obtain m :: nat where "m \<in> {8, 9, 10, 12, 13}" "c = char_of m" using n by metis
    then show ?thesis by (elim insertE emptyE) (simp_all only: esc_named unesc_named append.simps)
  next
    case 4
    then have e: "esc_char c = [BS, CHR ''u'', CHR ''0'', CHR ''0'', hex_digit (of_char c div 16), hex_digit (of_char c mod 16)]"
      by (simp add: esc_char_def Let_def)
    show ?thesis using h [OF 4(1)] l s n by (simp add: e del: hex_val.simps)
  next
    case 5
    then have "esc_char c = [c]" by (auto simp: esc_char_def Let_def)
    with 5 show ?thesis by simp
  next
    case 1
    then have "esc_char c = [BS, DQ]" by (simp add: esc_char_def)
    with 1 show ?thesis by (simp only: unesc_named append.simps)
  next
    case 2
    then have "esc_char c = [BS, BS]" by (simp add: esc_char_def DQ_def BS_def)
    with 2 show ?thesis by (simp only: unesc_named append.simps)
  qed
qed

lemma esc_not_dq: "esc_char c @ u \<noteq> DQ # v"
  by (auto simp: esc_char_def Let_def DQ_def BS_def)

lemma esc_string_inject:
  "concat (map esc_char xs) @ DQ # u = concat (map esc_char ys) @ DQ # v \<Longrightarrow> xs = ys \<and> u = v"
proof (induction xs arbitrary: ys)
  case empty: Nil
  show ?case
  proof (cases ys)
    case Nil
    with empty.prems show ?thesis by simp
  next
    case (Cons y ys')
    with empty.prems have "esc_char y @ (concat (map esc_char ys') @ DQ # v) = DQ # u" by simp
    then show ?thesis using esc_not_dq by blast
  qed
next
  case more: (Cons x xs)
  show ?case
  proof (cases ys)
    case Nil
    with more.prems have "esc_char x @ (concat (map esc_char xs) @ DQ # u) = DQ # v" by simp
    then show ?thesis using esc_not_dq by blast
  next
    case (Cons y ys')
    with more.prems have e: "esc_char x @ concat (map esc_char xs) @ DQ # u = esc_char y @ concat (map esc_char ys') @ DQ # v"
      by simp
    then have "x = y" "concat (map esc_char xs) @ DQ # u = concat (map esc_char ys') @ DQ # v"
      using arg_cong [OF e, of unesc] unfolding unesc_esc by simp_all
    with more.IH Cons show ?thesis by blast
  qed
qed

lemma quote_inject: "quote xs @ u = quote ys @ v \<Longrightarrow> xs = ys \<and> u = v"
proof -
  assume "quote xs @ u = quote ys @ v"
  then have "concat (map esc_char xs) @ DQ # u = concat (map esc_char ys) @ DQ # v"
    unfolding quote_def by simp
  then show ?thesis by (rule esc_string_inject)
qed

subsection \<open>Values are read back\<close>

text \<open>The characters that may follow a value: the end of the text, or a delimiter.\<close>

definition delim :: "string \<Rightarrow> bool" where
  "delim u \<longleftrightarrow> u = [] \<or> hd u \<in> {CHR '','', CHR '']'', CHR ''}''}"

lemma digits_inject:
  assumes "\<forall>c \<in> set a. is_digit c" "\<forall>c \<in> set b. is_digit c"
    and "u = [] \<or> \<not> is_digit (hd u)" "v = [] \<or> \<not> is_digit (hd v)" "a @ u = b @ v"
  shows "a = b \<and> u = v"
  using assms
proof (induction a arbitrary: b)
  case Nil
  then show ?case by (cases b) auto
next
  case (Cons x a)
  then show ?case by (cases b) auto
qed

lemma delim_no_digit: "delim u \<Longrightarrow> u = [] \<or> \<not> is_digit (hd u)"
  by (auto simp: delim_def is_digit_def)

lemma int_str_inject:
  assumes "int_str i @ u = int_str j @ v" and u: "delim u" and v: "delim v"
  shows "i = j \<and> u = v"
proof -
  have nd: "\<not> is_digit (CHR ''-'')" by (simp add: is_digit_def)
  have hd: "is_digit (hd (nat_str n @ w))" for n w
    using nat_str_digits [of n] nat_str_nonempty [of n] by (cases "nat_str n") auto
  have neg: "hd (int_str k @ w) = CHR ''-''" if "k < 0" for k w
    using that by (simp add: int_str_def)
  have pos: "is_digit (hd (int_str k @ w))" if "\<not> k < 0" for k w
    using that hd by (simp add: int_str_def)
  have "(i < 0) = (j < 0)"
  proof (rule ccontr)
    assume "(i < 0) \<noteq> (j < 0)"
    then consider "i < 0" "\<not> j < 0" | "\<not> i < 0" "j < 0" by blast
    then show False
    proof cases
      case 1
      from neg [OF 1(1), of u] pos [OF 1(2), of v] nd show False unfolding assms(1) by simp
    next
      case 2
      from neg [OF 2(2), of v] pos [OF 2(1), of u] nd show False unfolding assms(1) by simp
    qed
  qed
  then have "nat_str (nat \<bar>i\<bar>) @ u = nat_str (nat \<bar>j\<bar>) @ v"
    using assms(1) by (auto simp: int_str_def)
  from digits_inject [OF nat_str_digits nat_str_digits delim_no_digit [OF u] delim_no_digit [OF v] this]
  have "nat \<bar>i\<bar> = nat \<bar>j\<bar>" "u = v" by simp_all
  with \<open>(i < 0) = (j < 0)\<close> show ?thesis by auto
qed

fun tail_by :: "char \<Rightarrow> string list \<Rightarrow> string" where
  "tail_by c [] = []"
| "tail_by c (x # xs) = c # x @ tail_by c xs"

lemma sep_by_Cons: "sep_by c (x # xs) = x @ tail_by c xs"
  by (induction xs arbitrary: x) auto

definition opens :: "string \<Rightarrow> bool" where
  "opens w \<longleftrightarrow> w \<noteq> [] \<and> hd w \<notin> {CHR '','', CHR '']'', CHR ''}''}"

lemma opens_no_delim: "opens w \<Longrightarrow> \<not> delim (w @ u)"
  by (cases w) (auto simp: opens_def delim_def)

lemma list_inject:
  assumes f: "\<And>x y u v. x \<in> set xs \<Longrightarrow> f x @ u = f y @ v \<Longrightarrow> delim u \<Longrightarrow> delim v \<Longrightarrow> x = y \<and> u = v"
    and o: "\<And>y. opens (f y)" and cl: "cl = CHR '']'' \<or> cl = CHR ''}''"
    and e: "sep_by (CHR '','') (map f xs) @ cl # u = sep_by (CHR '','') (map f ys) @ cl # v"
  shows "xs = ys \<and> u = v"
proof -
  have d: "delim (tail_by (CHR '','') zs @ cl # w)" for zs w
    using cl by (cases zs) (auto simp: delim_def)
  have tails: "tail_by (CHR '','') (map f xs) @ cl # u = tail_by (CHR '','') (map f ys) @ cl # v \<Longrightarrow> xs = ys \<and> u = v"
    if "\<And>x y u v. x \<in> set xs \<Longrightarrow> f x @ u = f y @ v \<Longrightarrow> delim u \<Longrightarrow> delim v \<Longrightarrow> x = y \<and> u = v" for xs ys
    using that
  proof (induction xs arbitrary: ys)
    case Nil
    then show ?case using cl by (cases ys) auto
  next
    case (Cons x xs)
    then obtain y ys' where ys: "ys = y # ys'" using cl by (cases ys) auto
    with Cons.prems(1) have "f x @ (tail_by (CHR '','') (map f xs) @ cl # u) = f y @ (tail_by (CHR '','') (map f ys') @ cl # v)"
      by simp
    from Cons.prems(2) [OF _ this d d] have xy: "x = y"
      and t: "tail_by (CHR '','') (map f xs) @ cl # u = tail_by (CHR '','') (map f ys') @ cl # v" by simp_all
    have "xs = ys' \<and> u = v" by (rule Cons.IH [OF t]) (rule Cons.prems(2), simp_all)
    with xy ys show ?case by simp
  qed
  show ?thesis
  proof (cases xs)
    case Nil
    show ?thesis
    proof (cases ys)
      case (Cons y ys')
      with Nil e have "f y @ (tail_by (CHR '','') (map f ys') @ cl # v) = cl # u" by (simp add: sep_by_Cons)
      moreover have "delim (cl # u)" using cl by (auto simp: delim_def)
      ultimately show ?thesis using opens_no_delim [OF o] by metis
    qed (use Nil e in simp)
  next
    case (Cons x xs')
    obtain y ys' where ys: "ys = y # ys'"
    proof (cases ys)
      case Nil
      with Cons e have "f x @ (tail_by (CHR '','') (map f xs') @ cl # u) = cl # v" by (simp add: sep_by_Cons)
      moreover have "delim (cl # v)" using cl by (auto simp: delim_def)
      ultimately show ?thesis using opens_no_delim [OF o] by metis
    qed (rule that)
    with Cons e have "f x @ (tail_by (CHR '','') (map f xs') @ cl # u) = f y @ (tail_by (CHR '','') (map f ys') @ cl # v)"
      by (simp add: sep_by_Cons)
    from f [OF _ this d d] Cons have xy: "x = y"
      and t: "tail_by (CHR '','') (map f xs') @ cl # u = tail_by (CHR '','') (map f ys') @ cl # v" by simp_all
    have "xs' = ys' \<and> u = v" by (rule tails [OF _ t]) (rule f, simp_all add: Cons)
    with xy Cons ys show ?thesis by simp
  qed
qed

lemma nat_str_opens: "opens (nat_str n @ u)"
proof -
  have "is_digit (hd (nat_str n @ u))"
    using nat_str_digits [of n] nat_str_nonempty [of n] by (cases "nat_str n") auto
  then show ?thesis by (auto simp: opens_def is_digit_def)
qed

lemma stringify_opens: "opens (stringify x)"
  using nat_str_opens [of _ "[]"]
  by (cases x) (auto simp: opens_def quote_def int_str_def DQ_def)

text \<open>Values of different kinds differ in their first character.\<close>

definition kind :: "json \<Rightarrow> nat" where
  "kind x = (case x of JNull \<Rightarrow> 0 | JBool b \<Rightarrow> if b then 1 else 2 | JInt _ \<Rightarrow> 3 | JStr _ \<Rightarrow> 4 | JArr _ \<Rightarrow> 5 | JObj _ \<Rightarrow> 6)"

definition kind_of_char :: "char \<Rightarrow> nat" where
  "kind_of_char c =
     (if c = CHR ''n'' then 0 else if c = CHR ''t'' then 1 else if c = CHR ''f'' then 2
      else if c = DQ then 4 else if c = CHR ''['' then 5 else if c = CHR ''{'' then 6 else 3)"

lemma digit_kind: "is_digit c \<Longrightarrow> kind_of_char c = 3"
  by (auto simp: kind_of_char_def is_digit_def DQ_def)

lemma stringify_kind: "kind_of_char (hd (stringify x @ u)) = kind x"
proof (cases x)
  case (JInt i)
  have "is_digit (hd (nat_str n @ w))" for n w
    using nat_str_digits [of n] nat_str_nonempty [of n] by (cases "nat_str n") auto
  with JInt digit_kind show ?thesis
    by (auto simp: int_str_def kind_def) (simp add: kind_of_char_def DQ_def)
qed (auto simp: kind_def kind_of_char_def quote_def DQ_def)

lemma same_kind: "stringify x @ u = stringify y @ v \<Longrightarrow> kind y = kind x"
  using stringify_kind [of x u] stringify_kind [of y v] by metis

lemma stringify_prefix_inject:
  "stringify x @ u = stringify y @ v \<Longrightarrow> delim u \<Longrightarrow> delim v \<Longrightarrow> x = y \<and> u = v"
proof (induction x arbitrary: y u v)
  case (JArr xs)
  from same_kind [OF JArr.prems(1)] have "kind y = 5" by (simp add: kind_def)
  then obtain ys where y: "y = JArr ys" by (cases y) (auto simp: kind_def split: if_splits)
  with JArr.prems(1) have e: "sep_by (CHR '','') (map stringify xs) @ CHR '']'' # u = sep_by (CHR '','') (map stringify ys) @ CHR '']'' # v"
    by simp
  have "xs = ys \<and> u = v" by (rule list_inject [OF _ stringify_opens _ e]) (rule JArr.IH, simp_all)
  with y show ?case by simp
next
  case (JObj ps)
  let ?f = "\<lambda>(k, v). quote k @ '':'' @ stringify v"
  from same_kind [OF JObj.prems(1)] have "kind y = 6" by (simp add: kind_def)
  then obtain qs where y: "y = JObj qs" by (cases y) (auto simp: kind_def split: if_splits)
  with JObj.prems(1) have e: "sep_by (CHR '','') (map ?f ps) @ CHR ''}'' # u = sep_by (CHR '','') (map ?f qs) @ CHR ''}'' # v"
    by simp
  have "ps = qs \<and> u = v"
  proof (rule list_inject [OF _ _ _ e])
    show "opens (?f q)" for q by (auto simp: opens_def quote_def DQ_def split: prod.split)
    fix p q u v assume p: "p \<in> set ps" and eq: "?f p @ u = ?f q @ v" and d: "delim u" "delim v"
    obtain k x where pk: "p = (k, x)" by fastforce
    obtain l z where ql: "q = (l, z)" by fastforce
    from eq pk ql have "quote k @ ('':'' @ stringify x @ u) = quote l @ ('':'' @ stringify z @ v)" by simp
    from quote_inject [OF this] have "k = l" "stringify x @ u = stringify z @ v" by simp_all
    moreover from JObj.IH [OF p _ this(2) d] pk have "x = z \<and> u = v" by (simp add: Basic_BNFs.snds.simps)
    ultimately show "p = q \<and> u = v" using pk ql by simp
  qed simp
  with y show ?case by simp
next
  case (JStr s)
  from same_kind [OF JStr.prems(1)] have "kind y = 4" by (simp add: kind_def)
  then obtain t where y: "y = JStr t" by (cases y) (auto simp: kind_def split: if_splits)
  with JStr.prems(1) quote_inject [of s u t v] show ?case by simp
next
  case (JInt i)
  from same_kind [OF JInt.prems(1)] have "kind y = 3" by (simp add: kind_def)
  then obtain j where y: "y = JInt j" by (cases y) (auto simp: kind_def split: if_splits)
  with JInt.prems int_str_inject [of i u j v] show ?case by simp
next
  case (JBool b)
  from same_kind [OF JBool.prems(1)] have "kind y = (if b then 1 else 2)" by (simp add: kind_def)
  then have "y = JBool b" by (cases y) (auto simp: kind_def split: if_splits)
  with JBool.prems(1) show ?case by simp
next
  case JNull
  from same_kind [OF JNull.prems(1)] have "kind y = 0" by (simp add: kind_def)
  then have "y = JNull" by (cases y) (auto simp: kind_def split: if_splits)
  with JNull.prems(1) show ?case by simp
qed

lemma stringify_inject [simp]: "stringify x = stringify y \<longleftrightarrow> x = y"
  using stringify_prefix_inject [of x "[]" y "[]"] by (auto simp: delim_def)

subsection \<open>No raw line break\<close>

definition LF :: char where "LF = CHR 0x0A"

lemma hex_digit_LF: "hex_digit n \<noteq> LF" if "n < 16"
proof
  assume "hex_digit n = LF"
  then have "hex_val (hex_digit n) = hex_val LF" by simp
  with hex_val_digit [OF that] have "n = 0" by (simp add: LF_def)
  moreover have "hex_digit 0 \<noteq> LF" by code_simp
  ultimately show False using \<open>hex_digit n = LF\<close> by simp
qed

lemma esc_char_LF: "LF \<notin> set (esc_char c)"
proof (cases "of_char c = (10 :: nat)")
  case True
  then have "c = char_of (10 :: nat)" by (metis char_of_char)
  then show ?thesis by (simp only: esc_named) (simp add: BS_def LF_def)
next
  case False
  then have "c \<noteq> LF" by (auto simp: LF_def)
  moreover have "(of_char c :: nat) div 16 < 16" if "(of_char c :: nat) < 32" using that by simp
  ultimately show ?thesis
    using hex_digit_LF [of "of_char c div 16"] hex_digit_LF [of "of_char c mod 16"] False
    by (auto simp: esc_char_def Let_def BS_def DQ_def LF_def)
qed

lemma quote_LF: "LF \<notin> set (quote s)"
  using esc_char_LF by (auto simp: quote_def DQ_def LF_def)

lemma sep_by_LF: "(\<forall>w \<in> set ws. LF \<notin> set w) \<Longrightarrow> LF \<notin> set (sep_by (CHR '','') ws)"
  by (induction "CHR '',''" ws rule: sep_by.induct) (auto simp: LF_def)

lemma stringify_LF: "LF \<notin> set (stringify x)"
proof (induction x)
  case (JArr xs)
  then have "LF \<notin> set (sep_by (CHR '','') (map stringify xs))" by (intro sep_by_LF) auto
  then show ?case by (simp add: LF_def)
next
  case (JObj ps)
  have "LF \<notin> set (sep_by (CHR '','') (map (\<lambda>(k, v). quote k @ '':'' @ stringify v) ps))"
  proof (rule sep_by_LF, rule ballI)
    fix w assume "w \<in> set (map (\<lambda>(k, v). quote k @ '':'' @ stringify v) ps)"
    then obtain k v where "(k, v) \<in> set ps" "w = quote k @ '':'' @ stringify v" by auto
    with JObj [of "(k, v)" v] quote_LF [of k] show "LF \<notin> set w" by (auto simp: LF_def Basic_BNFs.snds.simps)
  qed
  then show ?case by (simp add: LF_def)
next
  case (JInt i)
  have "\<not> is_digit LF" by (simp add: is_digit_def LF_def)
  with nat_str_digits show ?case by (auto simp: int_str_def LF_def)
next
  case (JStr s)
  show ?case by (simp add: quote_LF)
qed (auto simp: LF_def)

declare stringify.simps [simp del]

end
