(* ===== verification/Wk_Audit.thy ===== *)
theory Wk_Audit
  imports Wk_Json "HOL-Library.List_Lexorder" "HOL-Library.Char_ord"
begin

section \<open>The audit hash chain and the operator ledger\<close>

text \<open>
  Models \<^verbatim>\<open>apps/server/src/audit/chain.ts\<close> and \<^verbatim>\<open>apps/server/src/audit/operator-ledger.ts\<close>. SHA-256 in
  hex is a parameter \<open>h\<close> on strings; the three \<open>update\<close> calls hash the concatenation. A change
  set is a list of properties in insertion order. The operator table is a list of rows; the
  advisory lock serialises its transactions, so an append sees the table the last one left.
\<close>

record entry_core =
  ec_seq :: int
  ec_tenant :: string
  ec_actor :: string
  ec_action :: string
  ec_target :: string
  ec_at :: string
  ec_changes :: "(string \<times> json option \<times> json option) list option"

record audit_entry =
  ae_core :: entry_core
  ae_prev :: string
  ae_hash :: string

definition GENESIS_PREV :: string where "GENESIS_PREV = []"

definition canonical_changes :: "(string \<times> json option \<times> json option) list \<Rightarrow> json" where
  \<comment> \<open>sorted by key; an absent side is null\<close>
  "canonical_changes c =
     JArr (map (\<lambda>(k, from', to). JArr [JStr k, nullish JNull from', nullish JNull to]) (sort_key fst c))"

definition canonical :: "entry_core \<Rightarrow> string" where
  "canonical e =
     (let head = [JInt (ec_seq e), JStr (ec_tenant e), JStr (ec_actor e), JStr (ec_action e), JStr (ec_target e), JStr (ec_at e)]
      in stringify (JArr (case ec_changes e of None \<Rightarrow> head | Some c \<Rightarrow> head @ [canonical_changes c])))"

definition hashed_text :: "string \<Rightarrow> entry_core \<Rightarrow> string" where
  "hashed_text prev core = prev @ [LF] @ canonical core"

definition compute_entry_hash :: "(string \<Rightarrow> string) \<Rightarrow> string \<Rightarrow> entry_core \<Rightarrow> string" where
  "compute_entry_hash h prev core = h (hashed_text prev core)"

definition link_entry :: "(string \<Rightarrow> string) \<Rightarrow> string option \<Rightarrow> entry_core \<Rightarrow> audit_entry" where
  \<comment> \<open>of the previous entry only the hash is read\<close>
  "link_entry h prev core =
     (let prev_hash = nullish GENESIS_PREV prev
      in \<lparr>ae_core = core, ae_prev = prev_hash, ae_hash = compute_entry_hash h prev_hash core\<rparr>)"

datatype chain_verdict = Valid | BrokenLink nat | BrokenHash nat

fun verify_from :: "(string \<Rightarrow> string) \<Rightarrow> string \<Rightarrow> nat \<Rightarrow> audit_entry list \<Rightarrow> chain_verdict" where
  "verify_from h prev i [] = Valid"
| "verify_from h prev i (e # es) =
     (if ae_prev e \<noteq> prev then BrokenLink i
      else if compute_entry_hash h prev (ae_core e) \<noteq> ae_hash e then BrokenHash i
      else verify_from h (ae_hash e) (i + 1) es)"

definition verify_audit_chain :: "(string \<Rightarrow> string) \<Rightarrow> audit_entry list \<Rightarrow> chain_verdict" where
  "verify_audit_chain h es = verify_from h GENESIS_PREV 0 es"

subsection \<open>The operator ledger\<close>

definition OPERATOR_SCOPE :: string where "OPERATOR_SCOPE = ''@operator''"

record operator_action =
  oa_actor :: string
  oa_action :: string
  oa_target :: string
  oa_at :: string

record operator_row =
  or_seq :: int
  or_actor :: string
  or_action :: string
  or_target :: string
  or_at :: string
  or_prev :: string
  or_hash :: string

record ledger =
  lg_rows :: "operator_row list"
  lg_events :: "(string \<times> string \<times> string) list" \<comment> \<open>\<open>vendor.access\<close>: tenant, action, time\<close>

definition last_row :: "operator_row list \<Rightarrow> operator_row option" where
  \<comment> \<open>\<open>ORDER BY seq DESC LIMIT 1\<close>\<close>
  "last_row rows = (case rows of [] \<Rightarrow> None | r # rs \<Rightarrow> Some (last (sort_key or_seq rows)))"

definition append_operator_entry ::
  "(string \<Rightarrow> string) \<Rightarrow> (operator_action \<Rightarrow> string option) \<Rightarrow> operator_action \<Rightarrow> ledger \<Rightarrow> ledger \<times> audit_entry" where
  "append_operator_entry h project a lg =
     (let prev = last_row (lg_rows lg);
          prev_seq = (case prev of None \<Rightarrow> 0 | Some r \<Rightarrow> or_seq r);
          core = \<lparr>ec_seq = prev_seq + 1, ec_tenant = OPERATOR_SCOPE, ec_actor = oa_actor a, ec_action = oa_action a,
                  ec_target = oa_target a, ec_at = oa_at a, ec_changes = None\<rparr>;
          linked = link_entry h (map_option or_hash prev) core;
          row = \<lparr>or_seq = ec_seq core, or_actor = ec_actor core, or_action = ec_action core, or_target = ec_target core,
                 or_at = ec_at core, or_prev = ae_prev linked, or_hash = ae_hash linked\<rparr>;
          events = (case project a of None \<Rightarrow> lg_events lg
                    | Some t \<Rightarrow> if t = [] then lg_events lg else lg_events lg @ [(t, oa_action a, oa_at a)])
      in (\<lparr>lg_rows = lg_rows lg @ [row], lg_events = events\<rparr>, linked))"

definition row_entry :: "operator_row \<Rightarrow> audit_entry" where
  "row_entry r =
     \<lparr>ae_core = \<lparr>ec_seq = or_seq r, ec_tenant = OPERATOR_SCOPE, ec_actor = or_actor r, ec_action = or_action r,
                 ec_target = or_target r, ec_at = or_at r, ec_changes = None\<rparr>,
      ae_prev = or_prev r, ae_hash = or_hash r\<rparr>"

definition read_operator_chain :: "(string \<Rightarrow> string) \<Rightarrow> operator_row list \<Rightarrow> audit_entry list \<times> chain_verdict" where
  "read_operator_chain h rows =
     (let entries = map row_entry (sort_key or_seq rows) in (entries, verify_audit_chain h entries))"

subsection \<open>What a verified chain commits to\<close>

text \<open>Two cores are the same record up to the order in which a change set was written.\<close>

definition same_changes ::
  "(string \<times> json option \<times> json option) list option \<Rightarrow> (string \<times> json option \<times> json option) list option \<Rightarrow> bool" where
  "same_changes a b = (map_option canonical_changes a = map_option canonical_changes b)"

definition same_core :: "entry_core \<Rightarrow> entry_core \<Rightarrow> bool" where
  "same_core e f \<longleftrightarrow> ec_seq e = ec_seq f \<and> ec_tenant e = ec_tenant f \<and> ec_actor e = ec_actor f \<and>
     ec_action e = ec_action f \<and> ec_target e = ec_target f \<and> ec_at e = ec_at f \<and> same_changes (ec_changes e) (ec_changes f)"

definition same_entry :: "audit_entry \<Rightarrow> audit_entry \<Rightarrow> bool" where
  "same_entry e f \<longleftrightarrow> same_core (ae_core e) (ae_core f) \<and> ae_prev e = ae_prev f \<and> ae_hash e = ae_hash f"

lemma canonical_inject: "canonical e = canonical f \<longleftrightarrow> same_core e f"
  by (cases "ec_changes e"; cases "ec_changes f") (auto simp: canonical_def Let_def same_core_def same_changes_def)

lemma hashed_text_inject:
  assumes "hashed_text p e = hashed_text q f"
  shows "p = q \<and> same_core e f"
proof -
  have "rev (canonical e) @ LF # rev p = rev (canonical f) @ LF # rev q"
    using arg_cong [OF assms, of rev] by (simp add: hashed_text_def)
  moreover have "LF \<notin> set (canonical x)" for x by (simp add: canonical_def Let_def stringify_LF)
  ultimately have "rev (canonical e) = rev (canonical f) \<and> rev p = rev q"
    by (intro sep_inject [of LF]) simp_all
  then show ?thesis by (simp add: canonical_inject)
qed

text \<open>The texts a chain hashes.\<close>

fun hashed_texts :: "string \<Rightarrow> audit_entry list \<Rightarrow> string list" where
  "hashed_texts prev [] = []"
| "hashed_texts prev (e # es) = hashed_text prev (ae_core e) # hashed_texts (ae_hash e) es"

lemma verify_from_index:
  "verify_from h prev i es = Valid \<longleftrightarrow> verify_from h prev 0 es = Valid"
proof -
  have "verify_from h prev i es = Valid \<longleftrightarrow> verify_from h prev j es = Valid" for j
    by (induction es arbitrary: prev i j) auto
  then show ?thesis by blast
qed

lemma verify_append:
  "verify_from h prev i (es @ [e]) = Valid \<longleftrightarrow>
     verify_from h prev i es = Valid \<and> ae_prev e = (if es = [] then prev else ae_hash (last es)) \<and>
     compute_entry_hash h (ae_prev e) (ae_core e) = ae_hash e"
  by (induction es arbitrary: prev i) auto

lemma hashed_texts_append:
  "hashed_texts prev (es @ [e]) =
     hashed_texts prev es @ [hashed_text (if es = [] then prev else ae_hash (last es)) (ae_core e)]"
  by (induction es arbitrary: prev) auto

lemma verify_last_hash:
  assumes "verify_from h prev i (es @ [e]) = Valid"
  shows "ae_hash e = h (hashed_text (if es = [] then prev else ae_hash (last es)) (ae_core e))"
    and "ae_prev e = (if es = [] then prev else ae_hash (last es))"
  using assms by (auto simp: verify_append compute_entry_hash_def)

lemma chains_agree:
  assumes "verify_from h prev 0 es = Valid" "verify_from h prev 0 fs = Valid"
    and "inj_on h (set (hashed_texts prev es) \<union> set (hashed_texts prev fs))"
    and "prev \<notin> h ` (set (hashed_texts prev es) \<union> set (hashed_texts prev fs))"
    and "(if es = [] then prev else ae_hash (last es)) = (if fs = [] then prev else ae_hash (last fs))"
  shows "list_all2 same_entry es fs"
  using assms
proof (induction es arbitrary: fs rule: rev_induct)
  case Nil
  show ?case
  proof (cases fs rule: rev_cases)
    case (snoc gs g)
    with Nil.prems verify_last_hash(1) [of h prev 0 gs g] show ?thesis
      by (auto simp: hashed_texts_append split: if_splits)
  qed simp
next
  case (snoc e es)
  show ?case
  proof (cases fs rule: rev_cases)
    case Nil
    with snoc.prems verify_last_hash(1) [of h prev 0 es e] show ?thesis
      by (auto simp: hashed_texts_append split: if_splits)
  next
    case fs: (snoc gs g)
    let ?p = "if es = [] then prev else ae_hash (last es)" and ?q = "if gs = [] then prev else ae_hash (last gs)"
    have eh: "ae_hash e = h (hashed_text ?p (ae_core e))" "ae_prev e = ?p"
      using verify_last_hash [OF snoc.prems(1)] by blast+
    have gh: "ae_hash g = h (hashed_text ?q (ae_core g))" "ae_prev g = ?q"
      using verify_last_hash [OF snoc.prems(2) [unfolded fs]] by blast+
    have "ae_hash e = ae_hash g" using snoc.prems(5) fs by simp
    with eh gh snoc.prems(3) have "hashed_text ?p (ae_core e) = hashed_text ?q (ae_core g)"
      unfolding fs hashed_texts_append by (auto dest!: inj_onD)
    from hashed_text_inject [OF this] have pq: "?p = ?q" and c: "same_core (ae_core e) (ae_core g)" by simp_all
    have "verify_from h prev 0 es = Valid" "verify_from h prev 0 gs = Valid"
      using snoc.prems(1,2) fs by (simp_all add: verify_append)
    moreover have "inj_on h (set (hashed_texts prev es) \<union> set (hashed_texts prev gs))"
      by (rule inj_on_subset [OF snoc.prems(3)]) (auto simp: fs hashed_texts_append)
    moreover have "prev \<notin> h ` (set (hashed_texts prev es) \<union> set (hashed_texts prev gs))"
      using snoc.prems(4) by (auto simp: fs hashed_texts_append)
    ultimately have "list_all2 same_entry es gs" using snoc.IH pq by blast
    moreover have "same_entry e g" using c pq eh(2) gh(2) \<open>ae_hash e = ae_hash g\<close> by (simp add: same_entry_def)
    ultimately show ?thesis using fs by (simp add: list_all2_appendI)
  qed
qed

subsection \<open>What appends keep\<close>

definition seqs :: "nat \<Rightarrow> int list" where
  "seqs n = map int [1..<Suc n]"

lemma seqs_simps [simp]: "seqs 0 = []" "seqs (Suc n) = seqs n @ [int n + 1]" "length (seqs n) = n"
  by (simp_all add: seqs_def)

lemma seqs_sorted: "sorted (seqs n)"
proof -
  have "x \<le> int n" if "x \<in> set (seqs n)" for x n using that by (auto simp: seqs_def)
  then show ?thesis by (induction n) (force simp: sorted_append)+
qed

lemma seqs_last: "0 < n \<Longrightarrow> last (seqs n) = int n"
  by (cases n) simp_all

definition ledger_ok :: "(string \<Rightarrow> string) \<Rightarrow> operator_row list \<Rightarrow> bool" where
  "ledger_ok h rows \<longleftrightarrow>
     map or_seq rows = seqs (length rows) \<and> verify_audit_chain h (map row_entry rows) = Valid"

lemma seq_sorted: "map or_seq rows = seqs n \<Longrightarrow> sort_key or_seq rows = rows"
  by (simp add: sort_key_id_if_sorted seqs_sorted)

lemma last_row_ok:
  assumes "map or_seq rows = seqs n"
  shows "last_row rows = (if rows = [] then None else Some (last rows))"
  unfolding last_row_def seq_sorted [OF assms] by (cases rows) simp_all

lemma append_ok:
  assumes "ledger_ok h (lg_rows lg)"
  shows "ledger_ok h (lg_rows (fst (append_operator_entry h project a lg)))"
proof -
  let ?rows = "lg_rows lg"
  have seq: "map or_seq ?rows = seqs (length ?rows)" and v: "verify_audit_chain h (map row_entry ?rows) = Valid"
    using assms by (simp_all add: ledger_ok_def)
  note last = last_row_ok [OF seq]
  have n: "or_seq (last ?rows) = int (length ?rows)" if "?rows \<noteq> []"
    using that seqs_last [of "length ?rows"] by (simp add: last_map flip: seq)
  obtain row where row: "lg_rows (fst (append_operator_entry h project a lg)) = ?rows @ [row]"
    and "or_seq row = int (length ?rows) + 1"
    and "ae_prev (row_entry row) = (if ?rows = [] then GENESIS_PREV else or_hash (last ?rows))"
    and "compute_entry_hash h (ae_prev (row_entry row)) (ae_core (row_entry row)) = ae_hash (row_entry row)"
    using n by (auto simp: append_operator_entry_def Let_def last link_entry_def row_entry_def)
  with v seq show ?thesis
    by (auto simp: ledger_ok_def verify_audit_chain_def verify_append last_map row_entry_def)
qed

subsection \<open>Properties\<close>

text \<open>
  C31. The hash chain is tamper-evident: when two chains both verify and end in the same hash (the
  anchor an export keeps), they hold the same entries in the same order. So no entry can be
  changed, removed, inserted or moved under an anchored hash, as long as the hash function does not
  collide on the texts the two chains hash and is never the empty string.
\<close>

theorem audit_chain_tamper_evident:
  assumes "verify_audit_chain h es = Valid" and "verify_audit_chain h fs = Valid"
    and "es \<noteq> []" "fs \<noteq> []" "ae_hash (last es) = ae_hash (last fs)"
    and "inj_on h (set (hashed_texts GENESIS_PREV es) \<union> set (hashed_texts GENESIS_PREV fs))"
    and ne: "\<And>m. h m \<noteq> []"
  shows "list_all2 same_entry es fs"
proof (rule chains_agree [of h GENESIS_PREV])
  show "GENESIS_PREV \<notin> h ` (set (hashed_texts GENESIS_PREV es) \<union> set (hashed_texts GENESIS_PREV fs))"
    using ne unfolding GENESIS_PREV_def by (metis imageE)
qed (use assms(1-6) in \<open>simp_all add: verify_audit_chain_def\<close>)

definition sample_core :: "(string \<times> json option \<times> json option) list \<Rightarrow> entry_core" where
  "sample_core c = \<lparr>ec_seq = 1, ec_tenant = ''t'', ec_actor = ''user:u'', ec_action = ''member.updated'', ec_target = [],
     ec_at = ''2026-01-01'', ec_changes = Some c\<rparr>"

theorem audit_chain_tamper_evident_witness:
  "list_all2 same_entry
     [link_entry (\<lambda>m. CHR ''h'' # m) None (sample_core [(''b'', None, Some (JInt 1)), (''a'', None, None)])]
     [link_entry (\<lambda>m. CHR ''h'' # m) None (sample_core [(''a'', None, None), (''b'', None, Some (JInt 1))])]"
proof -
  have "(''a'' :: string) < ''b''" by code_simp
  then have c: "canonical (sample_core [(''b'', None, Some (JInt 1)), (''a'', None, None)]) =
      canonical (sample_core [(''a'', None, None), (''b'', None, Some (JInt 1))])"
    by (simp add: canonical_inject same_core_def same_changes_def sample_core_def canonical_changes_def)
  show ?thesis
    by (rule audit_chain_tamper_evident [of "\<lambda>m. CHR ''h'' # m"])
      (use c in \<open>simp_all add: verify_audit_chain_def link_entry_def compute_entry_hash_def hashed_text_def inj_on_def\<close>)
qed

text \<open>
  C32. The operator ledger always verifies: whatever privileged actions are recorded, in whatever
  order, the ledger they leave reads back as a valid chain, numbered from 1 without a gap, one entry
  per action.
\<close>

theorem operator_ledger_always_verifies:
  "snd (read_operator_chain h (lg_rows (fold (\<lambda>a lg. fst (append_operator_entry h project a lg)) acts
     \<lparr>lg_rows = [], lg_events = []\<rparr>))) = Valid \<and>
   map (ec_seq \<circ> ae_core) (fst (read_operator_chain h (lg_rows (fold (\<lambda>a lg. fst (append_operator_entry h project a lg)) acts
     \<lparr>lg_rows = [], lg_events = []\<rparr>)))) = seqs (length acts)"
proof -
  let ?lg = "\<lambda>acts. fold (\<lambda>a lg. fst (append_operator_entry h project a lg)) acts \<lparr>lg_rows = [], lg_events = []\<rparr>"
  have ok: "ledger_ok h (lg_rows (?lg acts)) \<and> length (lg_rows (?lg acts)) = length acts" for acts
  proof (induction acts rule: rev_induct)
    case Nil
    show ?case by (simp add: ledger_ok_def verify_audit_chain_def)
  next
    case (snoc a acts)
    have "length (lg_rows (fst (append_operator_entry h project a lg))) = Suc (length (lg_rows lg))" for lg
      by (simp add: append_operator_entry_def Let_def)
    with snoc append_ok show ?case by simp
  qed
  then have seq: "map or_seq (lg_rows (?lg acts)) = seqs (length acts)"
    by (metis ledger_ok_def)
  moreover have "sort_key or_seq (lg_rows (?lg acts)) = lg_rows (?lg acts)"
    by (rule seq_sorted) (use ok ledger_ok_def in blast)
  moreover have "(ec_seq \<circ> ae_core) \<circ> row_entry = or_seq" by (simp add: fun_eq_iff row_entry_def)
  ultimately show ?thesis using ok by (simp add: read_operator_chain_def ledger_ok_def flip: map_map) (simp add: comp_assoc)
qed

end
