(* ===== verification/Wk_Factor.thy ===== *)
theory Wk_Factor
  imports Wk_Prelude
begin

section \<open>The second-factor policy\<close>

text \<open>
  Models \<^verbatim>\<open>apps/server/src/auth/factor-policy.ts\<close> with \<open>doorOf\<close> of \<^verbatim>\<open>apps/server/src/auth/session.ts\<close> and
  \<open>rpIdFromHost\<close> of \<^verbatim>\<open>apps/server/src/auth/passkeys.ts\<close>. The tables of one tenant are lists of rows in a
  record; the SQL queries are functions on them.
\<close>

datatype session_door = LocalDoor | LocalFactorDoor | FederatedDoor | OperatorDoor

datatype factor_verdict = Admit | RequireFactor

datatype factor_kind = Totp | Passkey

datatype factor_stance = StanceOff | StanceAny | StancePasskey | StanceTotp

record member_row =
  mb_sub :: string
  mb_role :: string
  mb_deactivated :: bool

record factor_row =
  fr_id :: string
  fr_member :: string
  fr_kind :: factor_kind
  fr_confirmed :: bool

record factor_db =
  fdb_kinds :: "string option" \<comment> \<open>\<open>second_factor_kinds\<close> of the preferences row, if there is one\<close>
  fdb_members :: "member_row list"
  fdb_factors :: "factor_row list"
  fdb_passkeys :: "(string \<times> string) list" \<comment> \<open>\<open>factor_id\<close> and \<open>rp_id\<close>\<close>

subsection \<open>What a session may do\<close>

definition door_of :: "session_door option \<Rightarrow> session_door" where
  "door_of d = nullish LocalDoor d"

definition factor_verdict :: "bool \<Rightarrow> session_door \<Rightarrow> factor_verdict" where
  "factor_verdict policy_on door =
     (if \<not> policy_on then Admit
      else (case door of LocalFactorDoor \<Rightarrow> Admit | FederatedDoor \<Rightarrow> Admit | OperatorDoor \<Rightarrow> Admit
            | LocalDoor \<Rightarrow> RequireFactor))"

definition session_verdict :: "session_door option \<Rightarrow> bool \<Rightarrow> factor_verdict" where
  "session_verdict d policy_on = factor_verdict policy_on (door_of d)"

text \<open>The policy stops a session at one door only, the product's own password door.\<close>

lemma factor_verdict_exact:
  "session_verdict d on = RequireFactor \<longleftrightarrow> on \<and> (d = None \<or> d = Some LocalDoor)"
  by (cases d) (auto simp: session_verdict_def factor_verdict_def door_of_def split: session_door.splits)

subsection \<open>The stance of a tenant\<close>

definition second_factor_stance :: "factor_db \<Rightarrow> factor_stance" where
  "second_factor_stance db =
     (if fdb_kinds db = Some ''any'' then StanceAny
      else if fdb_kinds db = Some ''passkey'' then StancePasskey
      else if fdb_kinds db = Some ''totp'' then StanceTotp else StanceOff)"

definition second_factor_required :: "factor_db \<Rightarrow> bool" where
  "second_factor_required db \<longleftrightarrow> second_factor_stance db \<noteq> StanceOff"

definition accepted_kinds :: "factor_stance \<Rightarrow> factor_kind list" where
  "accepted_kinds st =
     (if st = StancePasskey then [Passkey] else if st = StanceTotp then [Totp] else [Totp, Passkey])"

definition floor_for :: "factor_stance \<Rightarrow> nat" where
  "floor_for st = (if st = StancePasskey then 2 else 1)"



definition mfa_policy_entitled :: "string \<Rightarrow> bool" where
  "mfa_policy_entitled plan = True"

subsection \<open>What counts as a factor here\<close>

definition rp_id_from_host :: "string option \<Rightarrow> string" where
  "rp_id_from_host host = takeWhile (\<lambda>c. c \<noteq> CHR '':'') (nullish [] host)"

definition presentable_here :: "factor_db \<Rightarrow> string option \<Rightarrow> factor_row \<Rightarrow> bool" where
  "presentable_here db host f \<longleftrightarrow>
     fr_confirmed f \<and> (fr_kind f \<noteq> Passkey \<or> (fr_id f, rp_id_from_host host) \<in> set (fdb_passkeys db))"

definition holds_a_confirmed_factor :: "factor_db \<Rightarrow> member_row \<Rightarrow> bool" where
  "holds_a_confirmed_factor db m = list_ex (\<lambda>f. fr_member f = mb_sub m \<and> fr_confirmed f) (fdb_factors db)"

definition presentable_kinds :: "factor_db \<Rightarrow> string \<Rightarrow> string option \<Rightarrow> factor_kind list" where
  "presentable_kinds db sub host =
     remdups (map fr_kind (filter (\<lambda>f. fr_member f = sub \<and> presentable_here db host f) (fdb_factors db)))"

definition counts :: "factor_db \<Rightarrow> factor_stance \<Rightarrow> string option \<Rightarrow> factor_row \<Rightarrow> bool" where
  "counts db st host f \<longleftrightarrow> fr_kind f \<in> set (accepted_kinds st) \<and> presentable_here db host f"

definition joined :: "factor_db \<Rightarrow> factor_stance \<Rightarrow> string option \<Rightarrow> member_row list \<Rightarrow> nat" where
  \<comment> \<open>\<open>count(*)\<close> of the members joined with their factors that count\<close>
  "joined db st host ms =
     sum_list (map (\<lambda>m. length (filter (\<lambda>f. fr_member f = mb_sub m \<and> counts db st host f) (fdb_factors db))) ms)"

definition active_admin :: "member_row \<Rightarrow> bool" where
  "active_admin m \<longleftrightarrow> mb_role m = ''admin'' \<and> \<not> mb_deactivated m"

definition admin_factor_count :: "factor_db \<Rightarrow> factor_stance \<Rightarrow> string option \<Rightarrow> nat" where
  "admin_factor_count db st host = joined db st host (filter active_admin (fdb_members db))"


definition admin_with_factor_count :: "factor_db \<Rightarrow> string option \<Rightarrow> nat" where
  "admin_with_factor_count db host = admin_factor_count db StanceAny host"

subsection \<open>Changing the stance, removing a factor\<close>



definition would_strand_tenant :: "factor_db \<Rightarrow> string \<Rightarrow> string \<Rightarrow> string option \<Rightarrow> bool" where
  "would_strand_tenant db sub factor host =
     (let st = second_factor_stance db in
      if st = StanceOff then False
      else
        let mine = length (filter (\<lambda>f. fr_member f = sub \<and> counts db st host f \<and> fr_id f \<noteq> factor) (fdb_factors db));
            others = joined db st host (filter (\<lambda>m. active_admin m \<and> mb_sub m \<noteq> sub) (fdb_members db))
        in if floor_for st \<le> others + mine then False
           else (case find (\<lambda>m. mb_sub m = sub) (fdb_members db) of
                   None \<Rightarrow> False
                 | Some me \<Rightarrow> mb_role me = ''admin''))"

definition remove_factor :: "string \<Rightarrow> factor_db \<Rightarrow> factor_db" where
  \<comment> \<open>the delete the guard stands before: \<open>DELETE FROM member_factors WHERE id = ...\<close>\<close>
  "remove_factor factor db = db\<lparr>fdb_factors := filter (\<lambda>f. fr_id f \<noteq> factor) (fdb_factors db)\<rparr>"

subsection \<open>Counting\<close>

lemma counts_remove [simp]: "counts (remove_factor i db) st host f = counts db st host f"
  by (simp add: counts_def presentable_here_def remove_factor_def)



lemma joined_append: "joined db st host (xs @ ys) = joined db st host xs + joined db st host ys"
  by (simp add: joined_def)



subsection \<open>The route that removes a factor\<close>

text \<open>
  The attempt counters of a tenant in Valkey, by member; \<open>None\<close> is a Valkey that does not answer. The
  expiry of the keys is a change of this state between two requests.
\<close>

record factor_valkey =
  fv_tries :: "string \<Rightarrow> nat"
  fv_lock :: "string \<Rightarrow> bool"

definition FACTOR_VERIFY_MAX :: nat where "FACTOR_VERIFY_MAX = 5"

definition factor_locked :: "factor_valkey option \<Rightarrow> string \<Rightarrow> bool" where
  "factor_locked vk sub = (case vk of None \<Rightarrow> True | Some v \<Rightarrow> fv_lock v sub)"

definition count_failure :: "string \<Rightarrow> factor_valkey option \<Rightarrow> factor_valkey option" where
  "count_failure sub vk = map_option (\<lambda>v.
     let n = fv_tries v sub + 1
     in v\<lparr>fv_tries := (fv_tries v)(sub := n),
          fv_lock := (if FACTOR_VERIFY_MAX \<le> n then (fv_lock v)(sub := True) else fv_lock v)\<rparr>) vk"

definition clear_failures :: "string \<Rightarrow> factor_valkey option \<Rightarrow> factor_valkey option" where
  "clear_failures sub vk = map_option (\<lambda>v.
     v\<lparr>fv_tries := (fv_tries v)(sub := 0), fv_lock := (fv_lock v)(sub := False)\<rparr>) vk"

datatype factor_reply =
    FactorLocked | FactorNotFound | LastAdminFactor | FactorProofRefused
  | FactorRemoved bool \<comment> \<open>with whether the removal is audited and announced\<close>

definition delete_factor_route ::
  "string \<Rightarrow> string \<Rightarrow> bool \<Rightarrow> string option \<Rightarrow> factor_valkey option \<Rightarrow> factor_db \<Rightarrow>
   factor_db \<times> factor_valkey option \<times> factor_reply" where
  \<comment> \<open>\<open>DELETE /me/factors/:id\<close>; \<open>proved\<close> is the answer of the proof of possession\<close>
  "delete_factor_route sub i proved host vk db =
     (if factor_locked vk sub then (db, vk, FactorLocked)
      else case find (\<lambda>f. fr_id f = i \<and> fr_member f = sub) (fdb_factors db) of
        None \<Rightarrow> (db, vk, FactorNotFound)
      | Some own \<Rightarrow>
          if fr_confirmed own \<and> second_factor_required db \<and> would_strand_tenant db sub i host
          then (db, vk, LastAdminFactor)
          else if fr_confirmed own \<and> \<not> proved then (db, count_failure sub vk, FactorProofRefused)
          else (remove_factor i db, clear_failures sub vk, FactorRemoved (fr_confirmed own)))"

text \<open>A member who keeps failing the proof is locked out by the fifth failure, and then removes nothing.\<close>

lemma five_failures_lock:
  assumes "FACTOR_VERIFY_MAX \<le> k"
  shows "factor_locked ((count_failure sub ^^ k) (Some v)) sub"
proof -
  have "\<exists>w. (count_failure sub ^^ n) (Some v) = Some w \<and> n \<le> fv_tries w sub \<and>
      (FACTOR_VERIFY_MAX \<le> n \<longrightarrow> fv_lock w sub)" for n
  proof (induction n)
    case (Suc n)
    then obtain w where w: "(count_failure sub ^^ n) (Some v) = Some w" "n \<le> fv_tries w sub" by blast
    then have "(count_failure sub ^^ Suc n) (Some v) = count_failure sub (Some w)" by simp
    also have "\<dots> = Some (w\<lparr>fv_tries := (fv_tries w)(sub := fv_tries w sub + 1),
        fv_lock := (if FACTOR_VERIFY_MAX \<le> fv_tries w sub + 1 then (fv_lock w)(sub := True) else fv_lock w)\<rparr>)"
      (is "_ = Some ?w") by (simp add: count_failure_def Let_def)
    finally have e: "(count_failure sub ^^ Suc n) (Some v) = Some ?w" .
    have "Suc n \<le> fv_tries ?w sub \<and> (FACTOR_VERIFY_MAX \<le> Suc n \<longrightarrow> fv_lock ?w sub)" using w(2) by simp
    with e show ?case by blast
  qed (simp add: FACTOR_VERIFY_MAX_def)
  from this [of k] assms show ?thesis by (auto simp: factor_locked_def)
qed

lemma locked_removes_nothing:
  "factor_locked vk sub \<Longrightarrow> delete_factor_route sub i proved host vk db = (db, vk, FactorLocked)"
  by (simp add: delete_factor_route_def)



lemma stance_remove [simp]: "second_factor_stance (remove_factor i db) = second_factor_stance db"
  by (simp add: second_factor_stance_def remove_factor_def)







subsection \<open>Properties\<close>





end
