(* ===== verification/Wk_Entitlements.thy ===== *)
theory Wk_Entitlements
  imports Wk_Prelude Complex_Main
begin

section \<open>Plan entitlements and metering\<close>

text \<open>
  Models \<^verbatim>\<open>packages/entitlements/src/index.ts\<close> and \<^verbatim>\<open>packages/entitlements/src/metering.ts\<close>. The resolver a
  managed deployment registers is a function; the two module variables are a record. A JavaScript
  number is a rational, an infinity or \<open>NaN\<close>; the rounding of the product \<open>t * cap\<close> is left out.
\<close>

datatype num_js = NaN | NegInf | PosInf | Fin rat

record rate_limit =
  per_key :: num_js
  per_tenant :: num_js

record entitlements =
  guest_access :: bool
  max_seats :: num_js
  max_spaces :: num_js
  max_templates :: num_js
  history_retention_days :: num_js
  max_storage_bytes :: num_js
  branding :: bool
  api_access :: bool
  webhooks :: bool
  custom_domain :: bool
  scim :: bool
  audit_log :: bool
  access_transparency :: bool
  analytics :: bool
  ai_features :: bool
  ai_token_allowance :: num_js
  saml_sso :: bool
  api_rate_limit :: rate_limit
  user_macros :: bool
  mcp_write :: bool
  space_edit_link :: bool
  custom_roles :: bool
  managed_email :: bool

definition UNLIMITED :: entitlements where
  "UNLIMITED =
     \<lparr>guest_access = True, max_seats = PosInf, max_spaces = PosInf, max_templates = PosInf,
      history_retention_days = PosInf, max_storage_bytes = PosInf, branding = True, api_access = True,
      webhooks = True, custom_domain = True, scim = True, audit_log = True, access_transparency = True,
      analytics = True, ai_features = True, ai_token_allowance = PosInf, saml_sso = True,
      api_rate_limit = \<lparr>per_key = PosInf, per_tenant = PosInf\<rparr>, user_macros = True, mcp_write = True,
      space_edit_link = True, custom_roles = True, managed_email = True\<rparr>"

subsection \<open>The registry\<close>

record entitlements_registry =
  resolver :: "string \<Rightarrow> entitlements"
  registered :: bool

definition initial_registry :: entitlements_registry where
  "initial_registry = \<lparr>resolver = (\<lambda>_. UNLIMITED), registered = False\<rparr>"

definition register_entitlements_resolver ::
  "(string \<Rightarrow> entitlements) \<Rightarrow> entitlements_registry \<Rightarrow> entitlements_registry" where
  "register_entitlements_resolver f r = r\<lparr>resolver := f, registered := True\<rparr>"

definition assert_entitlements_resolver_registered :: "entitlements_registry \<Rightarrow> unit option" where
  \<comment> \<open>\<open>None\<close> is the throw that stops the boot\<close>
  "assert_entitlements_resolver_registered r = (if \<not> registered r then None else Some ())"

definition resolve_entitlements :: "entitlements_registry \<Rightarrow> string \<Rightarrow> entitlements" where
  "resolve_entitlements r plan = resolver r plan"

definition is_managed_deployment :: "entitlements_registry \<Rightarrow> bool" where
  "is_managed_deployment r = registered r"

definition reset_entitlements_resolver :: "entitlements_registry \<Rightarrow> entitlements_registry" where
  "reset_entitlements_resolver r = r\<lparr>resolver := (\<lambda>_. UNLIMITED), registered := False\<rparr>"

subsection \<open>Metering\<close>

record allowance_decision =
  ad_allowed :: bool
  ad_usage :: rat
  ad_cap :: num_js
  ad_remaining :: num_js

definition num_ge0 :: "num_js \<Rightarrow> bool" where
  "num_ge0 c = (case c of NaN \<Rightarrow> False | NegInf \<Rightarrow> False | PosInf \<Rightarrow> True | Fin q \<Rightarrow> 0 \<le> q)"

definition decide_allowance :: "rat \<Rightarrow> num_js \<Rightarrow> allowance_decision" where
  "decide_allowance usage cap0 =
     (let cap = (if \<not> num_ge0 cap0 then Fin 0 else cap0)
      in \<lparr>ad_allowed = (case cap of PosInf \<Rightarrow> True | Fin q \<Rightarrow> usage < q | _ \<Rightarrow> False),
          ad_usage = usage, ad_cap = cap,
          ad_remaining = (case cap of Fin q \<Rightarrow> Fin (max 0 (q - usage)) | _ \<Rightarrow> PosInf)\<rparr>)"

fun crossed_loop :: "rat \<Rightarrow> rat \<Rightarrow> rat \<Rightarrow> rat list \<Rightarrow> rat set \<Rightarrow> rat list \<Rightarrow> rat list" where
  "crossed_loop prev nxt cap [] seen out = out"
| "crossed_loop prev nxt cap (t # ts) seen out =
     (if t \<in> seen then crossed_loop prev nxt cap ts seen out
      else crossed_loop prev nxt cap ts (insert t seen)
             (if prev < t * cap \<and> t * cap \<le> nxt then out @ [t] else out))"

definition crossed_thresholds :: "rat \<Rightarrow> rat \<Rightarrow> num_js \<Rightarrow> rat list \<Rightarrow> rat list" where
  "crossed_thresholds prev nxt cap thresholds =
     (case cap of
        Fin q \<Rightarrow> if \<not> 0 < q \<or> nxt \<le> prev then [] else crossed_loop prev nxt q thresholds {} []
      | _ \<Rightarrow> [])"

subsection \<open>What the functions guarantee\<close>

lemma registry_fail_closed:
  "assert_entitlements_resolver_registered (register_entitlements_resolver f r) = Some ()"
  "assert_entitlements_resolver_registered (reset_entitlements_resolver r) = None"
  "resolve_entitlements (reset_entitlements_resolver r) plan = UNLIMITED"
  by (simp_all add: assert_entitlements_resolver_registered_def register_entitlements_resolver_def
      reset_entitlements_resolver_def resolve_entitlements_def)

lemma crossed_loop_count:
  "count_list (crossed_loop prev nxt cap ts seen out) t =
     count_list out t + (if t \<in> set ts \<and> t \<notin> seen \<and> prev < t * cap \<and> t * cap \<le> nxt then 1 else 0)"
  by (induction ts arbitrary: seen out) auto

lemma crossed_count:
  "count_list (crossed_thresholds prev nxt (Fin q) ts) t =
     (if t \<in> set ts \<and> 0 < q \<and> prev < t * q \<and> t * q \<le> nxt then 1 else 0)"
  by (auto simp: crossed_thresholds_def crossed_loop_count)

text \<open>The alerts of a period: one call per increment of the meter.\<close>

fun alerts :: "rat \<Rightarrow> rat list \<Rightarrow> num_js \<Rightarrow> rat list \<Rightarrow> rat list" where
  "alerts u [] cap ts = []"
| "alerts u (v # vs) cap ts = crossed_thresholds u v cap ts @ alerts v vs cap ts"

lemma alerts_count:
  "sorted (u # vs) \<Longrightarrow> count_list (alerts u vs (Fin q) ts) t =
     (if t \<in> set ts \<and> 0 < q \<and> u < t * q \<and> t * q \<le> last (u # vs) then 1 else 0)"
proof (induction vs arbitrary: u)
  case (Cons v vs)
  then have le: "u \<le> v" "v \<le> last (v # vs)" by auto
  from Cons have IH: "count_list (alerts v vs (Fin q) ts) t =
     (if t \<in> set ts \<and> 0 < q \<and> v < t * q \<and> t * q \<le> last (v # vs) then 1 else 0)" by simp
  show ?case using le by (simp add: crossed_count IH del: last.simps) auto
qed simp

subsection \<open>Properties\<close>

text \<open>
  An alert fires exactly once. While a meter only grows, each configured threshold that the
  usage of the period passes is reported once, by the increment that passes it, however the growth
  is cut into increments and however often the threshold is listed; a threshold not passed is not
  reported.
\<close>

theorem alerts_fire_once:
  assumes "sorted (u # vs)" and "0 < q"
  shows "count_list (alerts u vs (Fin q) ts) t =
     (if t \<in> set ts \<and> u < t * q \<and> t * q \<le> last (u # vs) then 1 else 0)"
  using alerts_count [OF assms(1), of q ts t] assms(2) by simp

theorem alerts_fire_once_witness:
  "count_list (alerts 0 [50, 90, 95, 120] (Fin 100) [4 / 5, 1, 4 / 5]) (4 / 5) = 1"
  using alerts_fire_once [of 0 "[50, 90, 95, 120]" 100 "[4 / 5, 1, 4 / 5]" "4 / 5"] by simp

end
