(* ===== verification/Wk_Store_Binding.thy ===== *)
theory Wk_Store_Binding
  imports Wk_Prelude
begin

section \<open>Which authorization store a boot may use\<close>






subsection \<open>Resolution\<close>





record witness_table =
  wt_exists :: bool
  wt_row :: "string option"








definition rebind_witness :: "string \<Rightarrow> witness_table \<Rightarrow> witness_table" where
  "rebind_witness i t = t\<lparr>wt_row := Some i\<rparr>"

definition forget_witness :: "witness_table \<Rightarrow> witness_table" where
  "forget_witness t = t\<lparr>wt_row := None\<rparr>"








subsection \<open>What a resolution leaves\<close>







subsection \<open>Boots in sequence\<close>



subsection \<open>Properties\<close>




end
