(* ===== verification/Wk_Collab.thy ===== *)
theory Wk_Collab
  imports Wk_Authz Wk_Rate Wk_Json
begin

section \<open>The realtime join point\<close>

text \<open>
  Models \<open>apps/collab/src/authenticate.ts\<close>, \<open>on-authenticate.ts\<close>, \<open>revoke.ts\<close>, the revoke and
  dictionary subscribers of \<open>index.ts\<close>, the token discriminators of \<open>packages/auth\<close>, the membership
  predicate of \<open>packages/authz/src/tenant-admin.ts\<close> and \<open>packages/hooks/src/reserved-subs.ts\<close>. The
  verification of a signature is the library's and a parameter: it answers the claims of a token or
  refuses it. A room is one document; a connection is what the room keeps of a join.
\<close>

subsection \<open>Room names\<close>

definition doc_name :: "string \<Rightarrow> string \<Rightarrow> string" where
  "doc_name tenant page = ''t:'' @ tenant @ '':p:'' @ page"

definition dot :: "char \<Rightarrow> bool" where
  \<comment> \<open>\<open>.\<close> of a regular expression: no line terminator\<close>
  "dot c \<longleftrightarrow> c \<noteq> CHR 0x0A \<and> c \<noteq> CHR 0x0D"

fun lazy_group :: "(string \<Rightarrow> 'r option) \<Rightarrow> string \<Rightarrow> string \<Rightarrow> string \<Rightarrow> (string \<times> 'r) option" where
  \<comment> \<open>\<open>(.+?)sep\<close> followed by what \<open>k\<close> matches: the shortest group that lets the rest match\<close>
  "lazy_group k sep acc s =
     (case (if acc \<noteq> [] \<and> starts_with s sep then k (drop (length sep) s) else None) of
        Some r \<Rightarrow> Some (acc, r)
      | None \<Rightarrow> (case s of [] \<Rightarrow> None | c # cs \<Rightarrow> if dot c then lazy_group k sep (acc @ [c]) cs else None))"

declare lazy_group.simps [simp del]

definition greedy_rest :: "string \<Rightarrow> string option" where
  \<comment> \<open>\<open>(.+)$\<close>\<close>
  "greedy_rest s = (if s \<noteq> [] \<and> list_all dot s then Some s else None)"

record room =
  rm_tenant :: string
  rm_page :: string
  rm_ephemeral :: bool

datatype collab_error =
    BadDocumentName
  | Forbidden string
  | TokenRefused \<comment> \<open>a verifier rejected\<close>
  | AuthzFailed authz_error

definition parse_doc_name :: "string \<Rightarrow> collab_error + room" where
  "parse_doc_name name =
     (if \<not> starts_with name ''t:'' then Inl BadDocumentName
      else case lazy_group (lazy_group greedy_rest '':x:'' []) '':p:'' [] (drop 2 name) of
             Some (t, p, _) \<Rightarrow> Inr \<lparr>rm_tenant = t, rm_page = p, rm_ephemeral = True\<rparr>
           | None \<Rightarrow> (case lazy_group greedy_rest '':p:'' [] (drop 2 name) of
                        Some (t, p) \<Rightarrow> Inr \<lparr>rm_tenant = t, rm_page = p, rm_ephemeral = False\<rparr>
                      | None \<Rightarrow> Inl BadDocumentName))"

subsection \<open>Reserved subjects\<close>







subsection \<open>Tokens\<close>






subsection \<open>The process state and the authorization store\<close>





datatype room_principal =
    MemberOf string string "string list" \<comment> \<open>tenant, user, groups\<close>
  | GuestOf string string string "string option" \<comment> \<open>tenant, share link, capability, session\<close>



subsection \<open>\<open>authenticate\<close>\<close>





subsection \<open>The \<open>onAuthenticate\<close> hook\<close>



subsection \<open>Revoking a link, announcing a stale dictionary\<close>

record connection =
  cn_id :: nat
  cn_principal :: "room_principal option" \<comment> \<open>\<open>context?.principal\<close>\<close>




type_synonym rooms = "(string \<times> connection list) list"


definition dict_ping :: "string \<Rightarrow> rooms \<Rightarrow> string list" where
  \<comment> \<open>the rooms the subscriber of \<open>wks:dict:*\<close> tells to refetch\<close>
  "dict_ping tenant rooms = filter (\<lambda>n. starts_with n (''t:'' @ tenant @ '':p:'')) (map fst rooms)"

subsection \<open>A parsed name is the name of its room\<close>

lemma lazy_group_parts:
  "lazy_group k sep acc s = Some (g, r) \<Longrightarrow>
     \<exists>a rest. g = acc @ a \<and> s = a @ sep @ rest \<and> g \<noteq> [] \<and> k rest = Some r"
proof (induction k sep acc s rule: lazy_group.induct)
  case (1 k sep acc s)
  let ?here = "if acc \<noteq> [] \<and> starts_with s sep then k (drop (length sep) s) else None"
  show ?case
  proof (cases ?here)
    case (Some r')
    then have "acc \<noteq> []" "starts_with s sep" "k (drop (length sep) s) = Some r'" by (auto split: if_splits)
    moreover have "g = acc" "r = r'" using "1.prems" Some by (auto simp: lazy_group.simps [of k sep acc s])
    moreover obtain rest where "s = sep @ rest" using \<open>starts_with s sep\<close> by (auto simp: starts_with_iff)
    ultimately have "g = acc @ [] \<and> s = [] @ sep @ rest \<and> g \<noteq> [] \<and> k rest = Some r" by simp
    then show ?thesis by blast
  next
    case None
    then obtain c cs where s: "s = c # cs" "dot c" "lazy_group k sep (acc @ [c]) cs = Some (g, r)"
      using "1.prems" by (auto simp: lazy_group.simps [of k sep acc s] split: list.splits if_splits)
    from "1.IH" [OF None s(1,2,3)] obtain a rest where
      "g = (acc @ [c]) @ a" "cs = a @ sep @ rest" "g \<noteq> []" "k rest = Some r" by blast
    then have "g = acc @ (c # a) \<and> s = (c # a) @ sep @ rest \<and> g \<noteq> [] \<and> k rest = Some r" using s(1) by simp
    then show ?thesis by blast
  qed
qed

lemma parse_doc_name_prefix:
  "parse_doc_name (''t:'' @ s) =
     (case lazy_group (lazy_group greedy_rest '':x:'' []) '':p:'' [] s of
        Some (t, p, _) \<Rightarrow> Inr \<lparr>rm_tenant = t, rm_page = p, rm_ephemeral = True\<rparr>
      | None \<Rightarrow> (case lazy_group greedy_rest '':p:'' [] s of
                   Some (t, p) \<Rightarrow> Inr \<lparr>rm_tenant = t, rm_page = p, rm_ephemeral = False\<rparr>
                 | None \<Rightarrow> Inl BadDocumentName))"
proof -
  have "drop 2 (''t:'' @ s) = s" "starts_with (''t:'' @ s) ''t:''" by (simp_all add: starts_with_def)
  then show ?thesis unfolding parse_doc_name_def by metis
qed

lemma parsed_name:
  assumes "parse_doc_name name = Inr r"
  shows "\<exists>x. name = doc_name (rm_tenant r) (rm_page r) @ x \<and> (rm_ephemeral r \<longleftrightarrow> x \<noteq> [])"
proof -
  obtain s where s: "name = ''t:'' @ s" using assms
    by (auto simp: parse_doc_name_def starts_with_iff split: if_splits)
  let ?ex = "lazy_group (lazy_group greedy_rest '':x:'' []) '':p:'' [] s"
  show ?thesis
  proof (cases ?ex)
    case (Some v)
    obtain t p y where v: "v = (t, p, y)" by (cases v)
    from lazy_group_parts [OF Some [unfolded v]] obtain b where
      b: "s = t @ '':p:'' @ b" "lazy_group greedy_rest '':x:'' [] b = Some (p, y)" by auto
    from lazy_group_parts [OF b(2)] obtain z where z: "b = p @ '':x:'' @ z" by auto
    have "r = \<lparr>rm_tenant = t, rm_page = p, rm_ephemeral = True\<rparr>"
      using assms Some v unfolding s parse_doc_name_prefix by simp
    with s b z show ?thesis by (simp add: doc_name_def)
  next
    case None
    then obtain t p where m: "lazy_group greedy_rest '':p:'' [] s = Some (t, p)"
      and r: "r = \<lparr>rm_tenant = t, rm_page = p, rm_ephemeral = False\<rparr>"
      using assms unfolding s parse_doc_name_prefix by (auto split: option.splits prod.splits)
    from lazy_group_parts [OF m] obtain b where b: "s = t @ '':p:'' @ b" "greedy_rest b = Some p" by auto
    then have "b = p" by (simp add: greedy_rest_def split: if_splits)
    with s b r show ?thesis by (simp add: doc_name_def)
  qed
qed

subsection \<open>What the store vouches for\<close>






subsection \<open>Who may be in a room\<close>








text \<open>A dictionary ping of a tenant reaches no room of another.\<close>

lemma lazy_group_colon_free:
  assumes "CHR '':'' \<notin> set t" "list_all dot t" "acc @ t \<noteq> []" "sep = CHR '':'' # sep'" "k rest = Some r"
  shows "lazy_group k sep acc (t @ sep @ rest) = Some (acc @ t, r)"
  using assms
proof (induction t arbitrary: acc)
  case Nil
  then show ?case by (subst lazy_group.simps) (simp add: starts_with_def)
next
  case (Cons c t)
  then have "\<not> starts_with (c # t @ sep @ rest) sep" by (auto simp: starts_with_def)
  with Cons show ?case by (subst lazy_group.simps) simp
qed

lemma ping_stays_in_tenant:
  assumes "n \<in> set (dict_ping tenant rooms)" "parse_doc_name n = Inr r"
    and "CHR '':'' \<notin> set tenant" "CHR '':'' \<notin> set (rm_tenant r)"
  shows "rm_tenant r = tenant"
proof -
  obtain y where "n = ''t:'' @ tenant @ '':p:'' @ y" using assms(1) by (auto simp: dict_ping_def starts_with_iff)
  moreover obtain x where "n = ''t:'' @ rm_tenant r @ '':p:'' @ rm_page r @ x"
    using parsed_name [OF assms(2)] by (auto simp: doc_name_def)
  ultimately have "tenant @ CHR '':'' # (''p:'' @ y) = rm_tenant r @ CHR '':'' # (''p:'' @ rm_page r @ x)" by simp
  from sep_inject [OF assms(3,4) this] show ?thesis by simp
qed

subsection \<open>Properties\<close>












end
