(* ===== verification/Wk_Mcp_Edit.thy ===== *)
theory Wk_Mcp_Edit
  imports Wk_Collab
begin

section \<open>Body edits through the connector\<close>

text \<open>
  Models \<open>apps/collab/src/mcp-edit-apply.ts\<close>, which turns an edit request into one deletion and one
  insertion in the canonical text, and the subscriber of \<open>wks:mcpedit:*\<close> in \<open>apps/collab/src/index.ts\<close>,
  which runs in every pod that receives the request. One delivery of a message to one pod is a task;
  a task advances from one \<open>await\<close> of the handler to the next, and an execution is the sequence of the
  tasks' advances, of deliveries and of expiries of the lock. The document is its text.
\<close>

subsection \<open>The request\<close>

datatype edit_op = AppendOp string | ReplaceSection string string \<comment> \<open>heading, content\<close>

record mcp_edit_request =
  er_req_id :: string
  er_tenant :: string
  er_user :: string
  er_op :: edit_op
  er_size_cap :: int

definition json_field :: "json \<Rightarrow> string \<Rightarrow> json option" where
  "json_field v k = (case v of JObj ps \<Rightarrow> map_of ps k | _ \<Rightarrow> None)"

definition str_field :: "json \<Rightarrow> string \<Rightarrow> string option" where
  "str_field v k = (case json_field v k of Some (JStr s) \<Rightarrow> Some s | _ \<Rightarrow> None)"

definition int_field :: "json \<Rightarrow> string \<Rightarrow> int option" where
  "int_field v k = (case json_field v k of Some (JInt i) \<Rightarrow> Some i | _ \<Rightarrow> None)"

definition parse_op :: "json \<Rightarrow> string \<Rightarrow> string + edit_op" where
  "parse_op o' content =
     (if str_field o' ''op'' = Some ''append'' then Inr (AppendOp content)
      else if str_field o' ''op'' = Some ''replace_section'' then
        (case str_field o' ''heading'' of
           None \<Rightarrow> Inl ''heading is required for replace_section''
         | Some h \<Rightarrow> if js_trim h = [] then Inl ''heading is required for replace_section''
                     else Inr (ReplaceSection h content))
      else Inl ''unknown op'')"

definition parse_mcp_edit_request :: "json option \<Rightarrow> string + mcp_edit_request" where
  \<comment> \<open>of the parsed payload, \<open>None\<close> when \<open>JSON.parse\<close> throws; the error is the message of the
    \<open>EditApplyError\<close>\<close>
  "parse_mcp_edit_request raw =
     (case raw of
        None \<Rightarrow> Inl ''malformed request''
      | Some o' \<Rightarrow>
        if (case o' of JObj _ \<Rightarrow> False | JArr _ \<Rightarrow> False | _ \<Rightarrow> True) then Inl ''malformed request''
        else let req_id = nullish [] (str_field o' ''reqId'');
                 tenant = nullish [] (str_field o' ''tenant'');
                 user = nullish [] (str_field o' ''user'')
        in if req_id = [] then Inl ''missing reqId''
        else if tenant = [] then Inl ''missing tenant''
        else if \<not> starts_with user ''user:'' then Inl ''missing user''
        else (case str_field o' ''content'' of
            None \<Rightarrow> Inl ''missing content''
          | Some content \<Rightarrow>
              let cap = nullish 0 (int_field o' ''sizeCap'')
              in if cap \<le> 0 then Inl ''missing sizeCap''
              else if cap < int (length content) then Inl ''content exceeds size limit''
              else (case parse_op o' content of
                      Inl e \<Rightarrow> Inl e
                    | Inr op \<Rightarrow> Inr \<lparr>er_req_id = req_id, er_tenant = tenant, er_user = user,
                                     er_op = op, er_size_cap = cap\<rparr>)))"

subsection \<open>Headings\<close>

definition CR :: char where "CR = CHR 0x0D"

fun split_lines :: "string \<Rightarrow> string list" where
  \<comment> \<open>\<open>text.split('\n')\<close>\<close>
  "split_lines [] = [[]]"
| "split_lines (c # s) = (if c = LF then [] # split_lines s
     else (case split_lines s of l # ls \<Rightarrow> (c # l) # ls | [] \<Rightarrow> [[c]]))"

record heading_hit =
  hh_index :: nat
  hh_level :: nat
  hh_text :: string

definition heading_of :: "string \<Rightarrow> (nat \<times> string) option" where
  \<comment> \<open>\<open>/^(#{1,6})\s+(.*)$/\<close> on one line: \<open>.\<close> matches no line terminator, so no carriage return\<close>
  "heading_of line =
     (let n = length (takeWhile (\<lambda>c. c = CHR ''#'') line);
          rest = drop n line;
          body = dropWhile js_space rest
      in if 1 \<le> n \<and> n \<le> 6 \<and> rest \<noteq> [] \<and> js_space (hd rest) \<and> list_all dot body
         then Some (n, js_trim body) else None)"

fun scan_from :: "nat \<Rightarrow> string list \<Rightarrow> heading_hit list" where
  "scan_from off [] = []"
| "scan_from off (l # ls) =
     (case heading_of l of
        Some (n, t) \<Rightarrow> \<lparr>hh_index = off, hh_level = n, hh_text = t\<rparr> # scan_from (off + length l + 1) ls
      | None \<Rightarrow> scan_from (off + length l + 1) ls)"

definition scan_headings :: "string \<Rightarrow> heading_hit list" where
  "scan_headings text = scan_from 0 (split_lines text)"

function collapse :: "string \<Rightarrow> string" where
  \<comment> \<open>\<open>replace(/\s+/g, ' ')\<close>\<close>
  "collapse [] = []"
| "collapse (c # s) =
     (if js_space c then CHR '' '' # collapse (dropWhile js_space s) else c # collapse s)"
  by pat_completeness auto
termination
  by (relation "measure length") (auto simp: le_imp_less_Suc length_dropWhile_le)

definition norm_heading :: "string \<Rightarrow> string" where
  "norm_heading s = js_lower (collapse (js_trim s))"

subsection \<open>The plan\<close>

record edit_plan =
  ep_from :: nat
  ep_delete :: nat
  ep_insert :: string

definition trim_end :: "string \<Rightarrow> string" where
  \<comment> \<open>\<open>replace(/\s+$/, '')\<close>\<close>
  "trim_end s = rev (dropWhile js_space (rev s))"

definition plan_body_edit :: "string \<Rightarrow> edit_op \<Rightarrow> string + edit_plan" where
  "plan_body_edit current op =
     (case op of
        AppendOp content \<Rightarrow>
          if js_trim content = [] then Inl ''content is empty''
          else let trimmed = trim_end current
               in Inr \<lparr>ep_from = length trimmed, ep_delete = length current - length trimmed,
                       ep_insert = (if trimmed = [] then content else LF # LF # content)\<rparr>
      | ReplaceSection heading content \<Rightarrow>
          let target = norm_heading heading
          in if target = [] then Inl ''heading is required''
             else if js_trim content = [] then Inl ''content is empty''
             else (case dropWhile (\<lambda>h. norm_heading (hh_text h) \<noteq> target) (scan_headings current) of
                     [] \<Rightarrow> Inl (''section not found: '' @ heading)
                   | start # later \<Rightarrow>
                       let stop = find (\<lambda>h. hh_level h \<le> hh_level start) later;
                           to = (case stop of Some h \<Rightarrow> hh_index h | None \<Rightarrow> length current)
                       in Inr \<lparr>ep_from = hh_index start, ep_delete = to - hh_index start,
                               ep_insert = trim_end content @ (if stop \<noteq> None then [LF, LF] else [])\<rparr>))"

definition apply_plan :: "edit_plan \<Rightarrow> string \<Rightarrow> string" where
  \<comment> \<open>the deletion and the insertion of the one transaction\<close>
  "apply_plan p s = take (ep_from p) s @ ep_insert p @ drop (ep_from p + ep_delete p) s"

subsection \<open>The subscriber\<close>

datatype edit_task =
    Fresh "json option" \<comment> \<open>delivered to a pod\<close>
  | Elected mcp_edit_request \<comment> \<open>took the lock\<close>
  | Authorized mcp_edit_request
  | Releasing \<comment> \<open>answered, about to delete the lock\<close>
  | Finished

record edit_world =
  ew_lock :: "string option"
  ew_body :: string
  ew_acks :: "(string \<times> string option) list" \<comment> \<open>request id, error\<close>
  ew_tasks :: "edit_task list"

record pod_env =
  pe_room :: string
  pe_edit :: "string \<Rightarrow> string \<Rightarrow> bool option" \<comment> \<open>\<open>check(user, 'edit', page)\<close>, \<open>None\<close> when it throws\<close>

definition ack :: "string \<Rightarrow> string option \<Rightarrow> edit_world \<Rightarrow> edit_world" where
  "ack req_id err w = w\<lparr>ew_acks := ew_acks w @ [(req_id, err)]\<rparr>"

definition authorize_edit :: "pod_env \<Rightarrow> mcp_edit_request \<Rightarrow> string + unit" where
  "authorize_edit env rq =
     (case parse_doc_name (pe_room env) of
        Inl _ \<Rightarrow> Inl ''edit failed''
      | Inr r \<Rightarrow>
          if er_tenant rq \<noteq> rm_tenant r then Inl ''forbidden''
          else (case pe_edit env (er_user rq) (rm_page r) of
                  None \<Rightarrow> Inl ''edit failed''
                | Some False \<Rightarrow> Inl ''forbidden''
                | Some True \<Rightarrow> Inr ()))"

fun advance :: "pod_env \<Rightarrow> edit_task \<Rightarrow> edit_world \<Rightarrow> edit_world \<times> edit_task" where
  "advance env (Fresh raw) w =
     (case parse_mcp_edit_request raw of
        Inl e \<Rightarrow> (ack [] (Some e) w, Finished)
      | Inr rq \<Rightarrow>
          (case ew_lock w of
             Some _ \<Rightarrow> (w, Finished)
           | None \<Rightarrow> (w\<lparr>ew_lock := Some (er_req_id rq)\<rparr>, Elected rq)))"
| "advance env (Elected rq) w =
     (case authorize_edit env rq of
        Inl e \<Rightarrow> (ack (er_req_id rq) (Some e) w, Releasing)
      | Inr _ \<Rightarrow> (w, Authorized rq))"
| "advance env (Authorized rq) w =
     (case plan_body_edit (ew_body w) (er_op rq) of
        Inl e \<Rightarrow> (ack (er_req_id rq) (Some e) w, Releasing)
      | Inr p \<Rightarrow> (ack (er_req_id rq) None (w\<lparr>ew_body := apply_plan p (ew_body w)\<rparr>), Releasing))"
| "advance env Releasing w = (w\<lparr>ew_lock := None\<rparr>, Finished)"
| "advance env Finished w = (w, Finished)"

datatype mcp_event = Deliver "json option" | Advance nat | LockExpires

definition edit_step :: "pod_env \<Rightarrow> mcp_event \<Rightarrow> edit_world \<Rightarrow> edit_world" where
  "edit_step env ev w =
     (case ev of
        Deliver raw \<Rightarrow> w\<lparr>ew_tasks := ew_tasks w @ [Fresh raw]\<rparr>
      | Advance i \<Rightarrow>
          (if i < length (ew_tasks w)
           then let (w', t') = advance env (ew_tasks w ! i) w in w'\<lparr>ew_tasks := (ew_tasks w)[i := t']\<rparr>
           else w)
      | LockExpires \<Rightarrow> w\<lparr>ew_lock := None\<rparr>)"

definition run_edits :: "pod_env \<Rightarrow> mcp_event list \<Rightarrow> edit_world \<Rightarrow> edit_world" where
  "run_edits env evs w = fold (edit_step env) evs w"

subsection \<open>Lines and offsets\<close>

fun join_lines :: "string list \<Rightarrow> string" where
  "join_lines [] = []"
| "join_lines [l] = l"
| "join_lines (l # ls) = l @ LF # join_lines ls"

definition unlines :: "string list \<Rightarrow> string" where
  "unlines ls = concat (map (\<lambda>l. l @ [LF]) ls)"

lemma unlines_simps [simp]: "unlines [] = []" "unlines (l # ls) = l @ LF # unlines ls"
  by (simp_all add: unlines_def)

lemma split_lines_nonempty [simp]: "split_lines s \<noteq> []"
  by (induction s) (auto split: list.splits)

lemma join_split [simp]: "join_lines (split_lines s) = s"
proof (induction s)
  case (Cons c s)
  then show ?case
    by (cases "split_lines s"; cases "tl (split_lines s)") (auto split: list.splits)
qed simp

lemma join_append: "b \<noteq> [] \<Longrightarrow> join_lines (a @ b) = unlines a @ join_lines b"
proof (induction a)
  case (Cons l a)
  then show ?case by (cases "a @ b") auto
qed simp

text \<open>A hit of the scan is a line, at the offset of the lines before it.\<close>

lemma scan_hit:
  "scan_from off ls = a @ h # b \<Longrightarrow>
     \<exists>ls1 l ls2. ls = ls1 @ l # ls2 \<and> heading_of l = Some (hh_level h, hh_text h) \<and>
       hh_index h = off + length (unlines ls1) \<and> a = scan_from off ls1 \<and>
       b = scan_from (hh_index h + length l + 1) ls2"
proof (induction ls arbitrary: off a)
  case (Cons l ls)
  let ?off = "off + length l + 1"
  have skip: ?case if "heading_of l = None \<and> a' = a \<or> heading_of l = Some (n, t) \<and> a = \<lparr>hh_index = off, hh_level = n, hh_text = t\<rparr> # a'"
    and "scan_from ?off ls = a' @ h # b" for a' n t
  proof -
    from Cons.IH [OF that(2)] obtain ls1 l' ls2 where i: "ls = ls1 @ l' # ls2" "heading_of l' = Some (hh_level h, hh_text h)"
      "hh_index h = ?off + length (unlines ls1)" "a' = scan_from ?off ls1" "b = scan_from (hh_index h + length l' + 1) ls2" by blast
    have "l # ls = (l # ls1) @ l' # ls2" "hh_index h = off + length (unlines (l # ls1))" "a = scan_from off (l # ls1)"
      using i that(1) by auto
    with i(2,5) show ?thesis by blast
  qed
  show ?case
  proof (cases "heading_of l")
    case None
    with Cons.prems skip show ?thesis by simp
  next
    case (Some nt)
    obtain n t where nt: "nt = (n, t)" by (cases nt)
    show ?thesis
    proof (cases a)
      case Nil
      with Cons.prems Some nt have "h = \<lparr>hh_index = off, hh_level = n, hh_text = t\<rparr>" "b = scan_from ?off ls" by simp_all
      then have "l # ls = [] @ l # ls \<and> heading_of l = Some (hh_level h, hh_text h) \<and> hh_index h = off + length (unlines []) \<and>
          a = scan_from off [] \<and> b = scan_from (hh_index h + length l + 1) ls" using Some nt Nil by simp
      then show ?thesis by blast
    next
      case (Cons h' a')
      with Cons.prems Some nt have "a = \<lparr>hh_index = off, hh_level = n, hh_text = t\<rparr> # a'" "scan_from ?off ls = a' @ h # b" by simp_all
      with skip Some nt show ?thesis by blast
    qed
  qed
qed simp

lemma scan_levels:
  "h \<in> set (scan_from off ls) \<Longrightarrow> \<exists>l \<in> set ls. heading_of l = Some (hh_level h, hh_text h)"
  by (induction ls arbitrary: off) (auto split: option.splits prod.splits if_splits)

lemma levels_scan:
  "l \<in> set ls \<Longrightarrow> heading_of l = Some (n, t) \<Longrightarrow> \<exists>h \<in> set (scan_from off ls). hh_level h = n \<and> hh_text h = t"
  by (induction ls arbitrary: off) (auto split: option.splits)

subsection \<open>What a plan does to the text\<close>

lemma dropWhile_split:
  assumes "dropWhile P xs = y # ys"
  shows "\<exists>zs. xs = zs @ y # ys \<and> (\<forall>z \<in> set zs. P z) \<and> \<not> P y"
proof -
  from assms have "xs = takeWhile P xs @ y # ys" "\<not> P y" by (simp_all add: dropWhile_eq_Cons_conv)
  moreover have "\<forall>z \<in> set (takeWhile P xs). P z" by (blast dest: set_takeWhileD)
  ultimately show ?thesis by blast
qed

lemma find_split:
  assumes "find P xs = Some y"
  shows "\<exists>zs ys. xs = zs @ y # ys \<and> (\<forall>z \<in> set zs. \<not> P z) \<and> P y"
  using assms
proof (induction xs)
  case (Cons x xs)
  show ?case
  proof (cases "P x")
    case True
    with Cons.prems have "x # xs = [] @ y # xs" "P y" by auto
    then show ?thesis by fastforce
  next
    case False
    with Cons obtain zs ys where "xs = zs @ y # ys" "\<forall>z \<in> set zs. \<not> P z" "P y" by auto
    with False have "x # xs = (x # zs) @ y # ys \<and> (\<forall>z \<in> set (x # zs). \<not> P z) \<and> P y" by simp
    then show ?thesis by blast
  qed
qed simp

text \<open>
  What an edit promises of the whole text, in lines: an append adds its content after one empty line,
  dropping only trailing white space; a section runs from the first heading with the asked title to the
  line before the next heading of its level or a higher one, and nothing else changes.
\<close>

definition untitled :: "string \<Rightarrow> string list \<Rightarrow> bool" where
  "untitled title ls \<longleftrightarrow> (\<forall>l \<in> set ls. \<forall>n t. heading_of l = Some (n, t) \<longrightarrow> norm_heading t \<noteq> title)"

definition deeper :: "nat \<Rightarrow> string list \<Rightarrow> bool" where
  "deeper n ls \<longleftrightarrow> (\<forall>l \<in> set ls. \<forall>m t. heading_of l = Some (m, t) \<longrightarrow> n < m)"

definition section_replaced :: "string \<Rightarrow> string \<Rightarrow> string \<Rightarrow> string \<Rightarrow> bool" where
  "section_replaced heading content s s' \<longleftrightarrow>
     (\<exists>ls1 l ls2 ls3 n t. split_lines s = ls1 @ l # ls2 @ ls3 \<and> heading_of l = Some (n, t) \<and>
        norm_heading t = norm_heading heading \<and> untitled (norm_heading heading) ls1 \<and> deeper n ls2 \<and>
        (case ls3 of
           [] \<Rightarrow> s' = unlines ls1 @ trim_end content
         | l' # _ \<Rightarrow> (\<exists>m u. heading_of l' = Some (m, u) \<and> m \<le> n) \<and>
                    s' = unlines ls1 @ trim_end content @ LF # LF # join_lines ls3))"

fun edited :: "edit_op \<Rightarrow> string \<Rightarrow> string \<Rightarrow> bool" where
  "edited (AppendOp content) s s' \<longleftrightarrow>
     s' = (if trim_end s = [] then content else trim_end s @ LF # LF # content)"
| "edited (ReplaceSection heading content) s s' \<longleftrightarrow> section_replaced heading content s s'"

lemma trim_end_prefix: "\<exists>w. s = trim_end s @ w"
  by (metis rev_append rev_rev_ident takeWhile_dropWhile_id trim_end_def)

lemma plan_append:
  assumes "plan_body_edit s (AppendOp content) = Inr p"
  shows "edited (AppendOp content) s (apply_plan p s)"
proof -
  obtain w where w: "s = trim_end s @ w" using trim_end_prefix by blast
  then have "take (length (trim_end s)) s = trim_end s" "length (trim_end s) \<le> length s"
    by (metis append_eq_conv_conj, metis le_add1 length_append)
  with assms show ?thesis
    by (auto simp: plan_body_edit_def Let_def apply_plan_def split: if_splits)
qed

lemma plan_section:
  assumes "plan_body_edit s (ReplaceSection heading content) = Inr p"
  shows "section_replaced heading content s (apply_plan p s)"
proof -
  let ?title = "norm_heading heading"
  obtain start later where d: "dropWhile (\<lambda>h. norm_heading (hh_text h) \<noteq> ?title) (scan_headings s) = start # later"
    using assms by (auto simp: plan_body_edit_def Let_def split: if_splits list.splits)
  let ?stop = "find (\<lambda>h. hh_level h \<le> hh_level start) later"
  let ?to = "case ?stop of Some h \<Rightarrow> hh_index h | None \<Rightarrow> length s"
  have p: "p = \<lparr>ep_from = hh_index start, ep_delete = ?to - hh_index start,
      ep_insert = trim_end content @ (if ?stop \<noteq> None then [LF, LF] else [])\<rparr>"
    using assms d by (auto simp: plan_body_edit_def Let_def split: if_splits)
  from dropWhile_split [OF d] obtain a where a: "scan_from 0 (split_lines s) = a @ start # later"
    "\<forall>h \<in> set a. norm_heading (hh_text h) \<noteq> ?title" "norm_heading (hh_text start) = ?title"
    by (auto simp: scan_headings_def)
  from scan_hit [OF a(1)] obtain ls1 l rest where l: "split_lines s = ls1 @ l # rest"
    "heading_of l = Some (hh_level start, hh_text start)" "hh_index start = length (unlines ls1)" "a = scan_from 0 ls1"
    "later = scan_from (hh_index start + length l + 1) rest" by auto
  have un: "untitled ?title ls1" using a(2) l(4) levels_scan unfolding untitled_def by metis
  show ?thesis
  proof (cases ?stop)
    case None
    then have "deeper (hh_level start) rest"
      using levels_scan [of _ rest] l(5) unfolding deeper_def find_None_iff by (metis leI)
    moreover have s: "s = unlines ls1 @ join_lines (l # rest)" using join_append [of "l # rest" ls1] join_split [of s] l(1) by simp
    have "take (length (unlines ls1)) s = unlines ls1" "length (unlines ls1) \<le> length s" using s by (metis append_eq_conv_conj, metis le_add1 length_append)
    then have "apply_plan p s = unlines ls1 @ trim_end content" using None l(3) by (simp add: p apply_plan_def)
    ultimately show ?thesis unfolding section_replaced_def
      using l(1,2) a(3) un by (intro exI [of _ ls1] exI [of _ l] exI [of _ rest] exI [of _ "[]"]) auto
  next
    case (Some e)
    from find_split [OF Some] obtain b c where b: "later = b @ e # c" "\<forall>h \<in> set b. \<not> hh_level h \<le> hh_level start" "hh_level e \<le> hh_level start" by blast
    from scan_hit [OF b(1) [unfolded l(5)]] obtain r1 l' r2 where r: "rest = r1 @ l' # r2"
      "heading_of l' = Some (hh_level e, hh_text e)" "hh_index e = hh_index start + length l + 1 + length (unlines r1)"
      "b = scan_from (hh_index start + length l + 1) r1" by blast
    have deep: "deeper (hh_level start) r1"
      using levels_scan [of _ r1] b(2) r(4) unfolding deeper_def by (metis leI)
    have s: "s = unlines ls1 @ unlines (l # r1) @ join_lines (l' # r2)"
      using join_append [of "l # r1 @ l' # r2" ls1] join_append [of "l' # r2" "l # r1"] join_split [of s] l(1) r(1) by simp
    have "take (length (unlines ls1)) s = unlines ls1" by (simp add: s)
    moreover have "drop (length (unlines ls1) + (length l + 1 + length (unlines r1))) s = join_lines (l' # r2)"
      unfolding s by (simp del: join_lines.simps)
    ultimately have "apply_plan p s = unlines ls1 @ trim_end content @ LF # LF # join_lines (l' # r2)"
      using Some l(3) r(3) by (simp add: p apply_plan_def add.assoc del: join_lines.simps)
    then show ?thesis unfolding section_replaced_def
      using l(1,2) a(3) un deep r(1,2) b(3)
      by (intro exI [of _ ls1] exI [of _ l] exI [of _ r1] exI [of _ "l' # r2"]) auto
  qed
qed

lemma plan_edits: "plan_body_edit s op = Inr p \<Longrightarrow> edited op s (apply_plan p s)"
  by (cases op) (simp_all add: plan_append plan_section del: edited.simps(1))

subsection \<open>The pods together are a sequential editor\<close>







definition acked :: "edit_world \<Rightarrow> string list" where
  "acked w = map fst (filter (\<lambda>a. snd a = None) (ew_acks w))"



lemma acked_ack [simp]:
  "acked (ack i e w) = acked w @ (if e = None then [i] else [])"
  "ew_body (ack i e w) = ew_body w" "ew_tasks (ack i e w) = ew_tasks w" "ew_lock (ack i e w) = ew_lock w"
  by (simp_all add: acked_def ack_def)

lemma acked_update [simp]:
  "acked (w\<lparr>ew_lock := l\<rparr>) = acked w" "acked (w\<lparr>ew_tasks := ts\<rparr>) = acked w" "acked (w\<lparr>ew_body := b\<rparr>) = acked w"
  by (simp_all add: acked_def)




subsection \<open>The lock\<close>






definition idle_world :: "string \<Rightarrow> edit_world" where
  "idle_world s = \<lparr>ew_lock = None, ew_body = s, ew_acks = [], ew_tasks = []\<rparr>"



text \<open>A task that finds the lock free and is not interrupted applies its request.\<close>

lemma task_applies:
  assumes "i < length ts" "ts ! i = Fresh raw" "parse_mcp_edit_request raw = Inr rq" "authorize_edit env rq = Inr ()"
    and "plan_body_edit b (er_op rq) = Inr p"
  shows "run_edits env [Advance i, Advance i, Advance i, Advance i] \<lparr>ew_lock = None, ew_body = b, ew_acks = a, ew_tasks = ts\<rparr> =
    \<lparr>ew_lock = None, ew_body = apply_plan p b, ew_acks = a @ [(er_req_id rq, None)], ew_tasks = ts[i := Finished]\<rparr>"
proof -
  let ?w = "\<lambda>l b a t. \<lparr>ew_lock = l, ew_body = b, ew_acks = a, ew_tasks = ts[i := t]\<rparr>"
  have "edit_step env (Advance i) \<lparr>ew_lock = None, ew_body = b, ew_acks = a, ew_tasks = ts\<rparr> =
      ?w (Some (er_req_id rq)) b a (Elected rq)" using assms by (simp add: edit_step_def)
  moreover have "edit_step env (Advance i) (?w (Some (er_req_id rq)) b a (Elected rq)) = ?w (Some (er_req_id rq)) b a (Authorized rq)"
    using assms by (simp add: edit_step_def)
  moreover have "edit_step env (Advance i) (?w (Some (er_req_id rq)) b a (Authorized rq)) =
      ?w (Some (er_req_id rq)) (apply_plan p b) (a @ [(er_req_id rq, None)]) Releasing"
    using assms by (simp add: edit_step_def ack_def)
  moreover have "edit_step env (Advance i) (?w (Some (er_req_id rq)) (apply_plan p b) (a @ [(er_req_id rq, None)]) Releasing) =
      ?w None (apply_plan p b) (a @ [(er_req_id rq, None)]) Finished"
    using assms by (simp add: edit_step_def)
  ultimately show ?thesis by (simp add: run_edits_def)
qed

subsection \<open>Properties\<close>

text \<open>
  C37. A body edit changes its section and nothing else. When a plan is made, applying its one deletion
  and one insertion appends the content after exactly one empty line, or replaces exactly the lines
  from the first heading with the requested title to the next heading of the same or a higher level.
\<close>

theorem plan_changes_its_section:
  assumes "plan_body_edit s op = Inr p"
  shows "edited op s (apply_plan p s)"
  using assms by (rule plan_edits)

definition sample_doc :: string where
  "sample_doc = join_lines [''intro'', ''# A'', ''x'', ''## A1'', ''y'', ''# B'', ''z'']"

theorem plan_changes_its_section_witness:
  "\<exists>p. plan_body_edit sample_doc (ReplaceSection '' a '' ''# A'') = Inr p \<and>
     apply_plan p sample_doc = join_lines [''intro'', ''# A'', [], ''# B'', ''z''] \<and>
     section_replaced '' a '' ''# A'' sample_doc (apply_plan p sample_doc)"
proof -
  let ?p = "\<lparr>ep_from = 6, ep_delete = 14, ep_insert = ''# A'' @ [LF, LF]\<rparr>"
  have p: "plan_body_edit sample_doc (ReplaceSection '' a '' ''# A'') = Inr ?p" by code_simp
  have "apply_plan ?p sample_doc = join_lines [''intro'', ''# A'', [], ''# B'', ''z'']" by code_simp
  with p plan_changes_its_section [OF p] show ?thesis by auto
qed


definition sample_request :: "json option" where
  "sample_request = Some (JObj
     [(''reqId'', JStr ''r''), (''tenant'', JStr ''T''), (''user'', JStr ''user:u''), (''op'', JStr ''append''),
      (''content'', JStr ''note''), (''sizeCap'', JInt 10)])"

definition sample_pod :: pod_env where
  "sample_pod = \<lparr>pe_room = ''t:T:p:P'', pe_edit = (\<lambda>u p. Some (u = ''user:u'' \<and> p = ''P''))\<rparr>"


text \<open>
  C39. One request can be applied twice. The lock is named by the document and deleted when the
  applier is done, so a pod that gets to the message after that takes the lock again: for every
  append to every text, two pods that receive the one request one after the other both apply it, and
  both acknowledge it, without any lock expiring.
\<close>

theorem late_pod_applies_again:
  assumes "parse_mcp_edit_request raw = Inr rq" and "authorize_edit env rq = Inr ()"
    and "er_op rq = AppendOp content" and "js_trim content \<noteq> []"
  shows "\<exists>evs s'. LockExpires \<notin> set evs \<and> edited (AppendOp content) s s' \<and>
    edited (AppendOp content) s' (ew_body (run_edits env ([Deliver raw, Deliver raw] @ evs) (idle_world s))) \<and>
    acked (run_edits env ([Deliver raw, Deliver raw] @ evs) (idle_world s)) = [er_req_id rq, er_req_id rq]"
proof -
  have plan: "\<exists>p. plan_body_edit b (AppendOp content) = Inr p" for b
    using assms(4) by (simp add: plan_body_edit_def Let_def)
  obtain p where p: "plan_body_edit s (AppendOp content) = Inr p" using plan by blast
  obtain q where q: "plan_body_edit (apply_plan p s) (AppendOp content) = Inr q" using plan by blast
  let ?run = "\<lambda>i. [Advance i, Advance i, Advance i, Advance i]"
  let ?evs = "?run 0 @ ?run 1"
  let ?w = "run_edits env ([Deliver raw, Deliver raw] @ ?evs) (idle_world s)"
  have app: "run_edits env (xs @ ys) w = run_edits env ys (run_edits env xs w)" for xs ys w by (simp add: run_edits_def)
  have d: "run_edits env [Deliver raw, Deliver raw] (idle_world s) =
      \<lparr>ew_lock = None, ew_body = s, ew_acks = [], ew_tasks = [Fresh raw, Fresh raw]\<rparr>"
    by (simp add: run_edits_def edit_step_def idle_world_def)
  have r0: "run_edits env (?run 0) \<lparr>ew_lock = None, ew_body = s, ew_acks = [], ew_tasks = [Fresh raw, Fresh raw]\<rparr> =
      \<lparr>ew_lock = None, ew_body = apply_plan p s, ew_acks = [(er_req_id rq, None)], ew_tasks = [Finished, Fresh raw]\<rparr>"
    using task_applies [of 0 "[Fresh raw, Fresh raw]" raw rq env s p "[]"] assms p by simp
  have r1: "run_edits env (?run 1) \<lparr>ew_lock = None, ew_body = apply_plan p s, ew_acks = [(er_req_id rq, None)], ew_tasks = [Finished, Fresh raw]\<rparr> =
      \<lparr>ew_lock = None, ew_body = apply_plan q (apply_plan p s), ew_acks = [(er_req_id rq, None), (er_req_id rq, None)],
       ew_tasks = [Finished, Finished]\<rparr>"
    using task_applies [of 1 "[Finished, Fresh raw]" raw rq env "apply_plan p s" q "[(er_req_id rq, None)]"] assms q by simp
  have "ew_body ?w = apply_plan q (apply_plan p s) \<and> acked ?w = [er_req_id rq, er_req_id rq]"
    unfolding app d r0 r1 by (simp add: acked_def)
  then show ?thesis using plan_edits [OF p] plan_edits [OF q]
    by (intro exI [of _ ?evs] exI [of _ "apply_plan p s"]) auto
qed

theorem late_pod_applies_again_witness:
  "\<exists>evs s'. LockExpires \<notin> set evs \<and> edited (AppendOp ''note'') ''doc'' s' \<and>
    edited (AppendOp ''note'') s' (ew_body (run_edits sample_pod ([Deliver sample_request, Deliver sample_request] @ evs) (idle_world ''doc'')))"
proof -
  let ?rq = "\<lparr>er_req_id = ''r'', er_tenant = ''T'', er_user = ''user:u'', er_op = AppendOp ''note'', er_size_cap = 10\<rparr>"
  have "parse_mcp_edit_request sample_request = Inr ?rq" by code_simp
  moreover have "authorize_edit sample_pod ?rq = Inr ()" by code_simp
  moreover have "er_op ?rq = AppendOp ''note''" by simp
  moreover have "js_trim ''note'' \<noteq> []" by code_simp
  ultimately show ?thesis using late_pod_applies_again [of sample_request ?rq sample_pod "''note''" "''doc''"] by blast
qed

end
