(* ===== verification/Wk_Ydoc.thy ===== *)
theory Wk_Ydoc
  imports Wk_Collab
begin

section \<open>Persistence of the live document\<close>

text \<open>
  Models \<open>apps/collab/src/ydoc.ts\<close> and the \<open>Database\<close> extension of \<open>apps/collab/src/index.ts\<close>. An
  encoded document is a byte string; the CRDT library is a parameter that answers the text of an
  encoded state, the text of a state applied on top of another, and the encoding of a fresh document.
  The pages table is a list of rows, of which a transaction sees those of its tenant. What a 0-row
  write hides, a gap in what is visible, is a parameter per attempt; so is a failing connection.
\<close>

record crdt =
  cr_text :: "string \<Rightarrow> string"
  cr_merged_text :: "string \<Rightarrow> string \<Rightarrow> string" \<comment> \<open>of the second state applied on the first\<close>
  cr_fresh :: "string \<Rightarrow> string" \<comment> \<open>a new document with one insertion\<close>

record page_row =
  pr_id :: string
  pr_tenant :: string
  pr_ydoc :: "string option"
  pr_published_md :: "string option"
  pr_unpublished :: bool

definition decode_content :: "crdt \<Rightarrow> string \<Rightarrow> string" where
  "decode_content cr state = cr_text cr state"

subsection \<open>Compaction\<close>

definition COMPACT_MIN_BYTES :: nat where "COMPACT_MIN_BYTES = 128 * 1024"

definition compact_if_bloated :: "crdt \<Rightarrow> string \<Rightarrow> string option" where
  "compact_if_bloated cr state =
     (if length state < COMPACT_MIN_BYTES then None
      else let compacted = cr_fresh cr (cr_text cr state)
           in if 4 * length compacted \<le> 3 * length state then Some compacted else None)"

subsection \<open>Reading and the empty-overwrite guard\<close>

definition sees :: "string \<Rightarrow> string \<Rightarrow> page_row \<Rightarrow> bool" where
  "sees tenant page r \<longleftrightarrow> pr_tenant r = tenant \<and> pr_id r = page"

definition load_ydoc :: "string \<Rightarrow> string \<Rightarrow> page_row list \<Rightarrow> string option" where
  "load_ydoc tenant page rows = (case find (sees tenant page) rows of None \<Rightarrow> None | Some r \<Rightarrow> pr_ydoc r)"

definition is_unloaded_empty_flush :: "crdt \<Rightarrow> string \<Rightarrow> string \<Rightarrow> bool" where
  "is_unloaded_empty_flush cr existing incoming =
     (if decode_content cr incoming \<noteq> [] then False
      else if cr_text cr existing = [] then False
      else cr_merged_text cr existing incoming \<noteq> [])"

subsection \<open>Writing\<close>

datatype write_outcome = Stored | Blocked | ZeroRow

datatype db_answer = Answers | Gap | Fails \<comment> \<open>the rows are visible, hidden, the call throws\<close>

definition STORE_MAX_RETRIES :: nat where "STORE_MAX_RETRIES = 3"

definition write_row :: "string \<Rightarrow> string \<Rightarrow> page_row \<Rightarrow> page_row" where
  "write_row state md r = r\<lparr>pr_ydoc := Some state, pr_unpublished := (pr_published_md r \<noteq> Some md)\<rparr>"

definition attempt_write ::
  "crdt \<Rightarrow> string \<Rightarrow> string \<Rightarrow> string \<Rightarrow> string \<Rightarrow> db_answer \<Rightarrow> page_row list \<Rightarrow> page_row list \<times> (unit + write_outcome)" where
  "attempt_write cr tenant page state md db rows =
     (case db of
        Fails \<Rightarrow> (rows, Inl ())
      | Gap \<Rightarrow> (rows, Inr ZeroRow)
      | Answers \<Rightarrow>
          (case (if md = [] then load_ydoc tenant page rows else None) of
             Some existing \<Rightarrow>
               if 0 < length existing \<and> is_unloaded_empty_flush cr existing state then (rows, Inr Blocked)
               else (map (\<lambda>r. if sees tenant page r then write_row state md r else r) rows, Inr Stored)
           | None \<Rightarrow>
               (map (\<lambda>r. if sees tenant page r then write_row state md r else r) rows,
                Inr (if list_ex (sees tenant page) rows then Stored else ZeroRow))))"

record store_result =
  sr_stored :: bool
  sr_blocked :: bool

fun store_loop ::
  "crdt \<Rightarrow> string \<Rightarrow> string \<Rightarrow> string \<Rightarrow> string \<Rightarrow> db_answer list \<Rightarrow> page_row list \<Rightarrow> page_row list \<times> (unit + store_result)" where
  "store_loop cr tenant page state md [] rows = (rows, Inr \<lparr>sr_stored = False, sr_blocked = False\<rparr>)"
| "store_loop cr tenant page state md (db # dbs) rows =
     (case attempt_write cr tenant page state md db rows of
        (rows', Inl e) \<Rightarrow> (rows', Inl e)
      | (rows', Inr Stored) \<Rightarrow> (rows', Inr \<lparr>sr_stored = True, sr_blocked = False\<rparr>)
      | (rows', Inr Blocked) \<Rightarrow> (rows', Inr \<lparr>sr_stored = False, sr_blocked = True\<rparr>)
      | (rows', Inr ZeroRow) \<Rightarrow> store_loop cr tenant page state md dbs rows')"

definition store_ydoc ::
  "crdt \<Rightarrow> string \<Rightarrow> string \<Rightarrow> string \<Rightarrow> (nat \<Rightarrow> db_answer) \<Rightarrow> page_row list \<Rightarrow> page_row list \<times> (unit + store_result)" where
  "store_ydoc cr tenant page state db rows =
     store_loop cr tenant page state (decode_content cr state) (map db [0 ..< STORE_MAX_RETRIES + 1]) rows"

subsection \<open>The hooks of the room server\<close>

definition fetch_hook ::
  "crdt \<Rightarrow> string \<Rightarrow> (nat \<Rightarrow> db_answer) \<Rightarrow> page_row list \<Rightarrow> page_row list \<times> string option option" where
  \<comment> \<open>\<open>None\<close> when the hook throws\<close>
  "fetch_hook cr name db rows =
     (case parse_doc_name name of
        Inl _ \<Rightarrow> (rows, None)
      | Inr r \<Rightarrow>
          if rm_ephemeral r then (rows, Some None)
          else (case load_ydoc (rm_tenant r) (rm_page r) rows of
                  None \<Rightarrow> (rows, Some None)
                | Some state \<Rightarrow>
                    (case compact_if_bloated cr state of
                       None \<Rightarrow> (rows, Some (Some state))
                     | Some compacted \<Rightarrow>
                         (case store_ydoc cr (rm_tenant r) (rm_page r) compacted db rows of
                            (rows', Inl _) \<Rightarrow> (rows', None)
                          | (rows', Inr _) \<Rightarrow> (rows', Some (Some compacted))))))"


subsection \<open>Lemmas\<close>

lemma find_of_ex: "list_ex P xs \<Longrightarrow> \<exists>x. find P xs = Some x \<and> x \<in> set xs \<and> P x"
  by (induction xs) auto








text \<open>Compaction serves the text that was stored.\<close>

lemma compaction_keeps_text:
  assumes "\<And>x. cr_text cr (cr_fresh cr x) = x" "compact_if_bloated cr state = Some c"
  shows "cr_text cr c = cr_text cr state \<and> length c < length state"
  using assms by (auto simp: compact_if_bloated_def COMPACT_MIN_BYTES_def Let_def split: if_splits)

subsection \<open>Properties\<close>





end
