(* ===== verification/Wk_Page_Tree.thy ===== *)
theory Wk_Page_Tree
  imports Wk_Prelude Complex_Main "HOL-Library.Multiset"
begin

section \<open>The page tree: rows, walks, positions\<close>

text \<open>
  Models the structural part of \<open>apps/server/src/routes/pages.ts\<close>: the three recursive queries that
  walk the parent chain under \<open>PAGE_TREE_WALK_CAP\<close>, the fractional positions of siblings and their
  re-spreading. The table is the list of the tenant's rows; a recursive query is its levels, taken up
  to the cap. A position is a rational number and \<open>rnd\<close> the rounding of the number type, so that a
  collapsed gap can happen as it does in the code.
\<close>

record tree_row =
  tr_id :: string
  tr_space :: string
  tr_parent :: "string option"
  tr_position :: rat
  tr_created :: nat
  tr_deleted :: "nat option"
  tr_deleted_root :: "string option"
  tr_published :: bool

definition row_of :: "tree_row list \<Rightarrow> string \<Rightarrow> tree_row option" where
  "row_of rows i = find (\<lambda>r. tr_id r = i) rows"

definition MAX_PAGE_DEPTH :: nat where "MAX_PAGE_DEPTH = 10"

definition PAGE_TREE_WALK_CAP :: nat where "PAGE_TREE_WALK_CAP = MAX_PAGE_DEPTH + 2"

datatype tree_error = PageTreeCorrupt

subsection \<open>Walks\<close>

definition child_ids :: "tree_row list \<Rightarrow> string \<Rightarrow> string list" where
  "child_ids rows i = map tr_id (filter (\<lambda>r. tr_parent r = Some i) rows)"

fun levels :: "tree_row list \<Rightarrow> nat \<Rightarrow> string list \<Rightarrow> string list list" where
  \<comment> \<open>\<open>n\<close> levels, each the children of the one before\<close>
  "levels rows 0 ids = []"
| "levels rows (Suc n) ids = ids # levels rows n (concat (map (child_ids rows) ids))"

definition descendant_ids :: "tree_row list \<Rightarrow> string \<Rightarrow> tree_error + string list" where
  "descendant_ids rows page =
     (let ls = levels rows PAGE_TREE_WALK_CAP (child_ids rows page)
      in if last ls \<noteq> [] then Inl PageTreeCorrupt else Inr (concat ls))"

fun parent_chain :: "tree_row list \<Rightarrow> nat \<Rightarrow> string \<Rightarrow> string option list" where
  \<comment> \<open>the \<open>parent_id\<close> column of the ancestor query, from depth 0 to depth \<open>n\<close>\<close>
  "parent_chain rows n i =
     (case row_of rows i of
        None \<Rightarrow> []
      | Some r \<Rightarrow> tr_parent r #
          (case (tr_parent r, n) of (Some p, Suc m) \<Rightarrow> parent_chain rows m p | _ \<Rightarrow> []))"

definition ancestor_depth :: "tree_row list \<Rightarrow> string \<Rightarrow> tree_error + nat" where
  "ancestor_depth rows i =
     (let anc = parent_chain rows PAGE_TREE_WALK_CAP i
      in if PAGE_TREE_WALK_CAP < length anc then Inl PageTreeCorrupt
         else Inr (length (filter (\<lambda>p. p \<noteq> None) anc)))"

definition subtree_height :: "tree_row list \<Rightarrow> string \<Rightarrow> tree_error + nat" where
  "subtree_height rows i =
     (let ls = levels rows (PAGE_TREE_WALK_CAP + 1) (if row_of rows i = None then [] else [i]);
          h = length (takeWhile (\<lambda>l. l \<noteq> []) ls) - 1
      in if PAGE_TREE_WALK_CAP \<le> h then Inl PageTreeCorrupt else Inr h)"

subsection \<open>Positions\<close>

definition position_between :: "(rat \<Rightarrow> rat) \<Rightarrow> rat option \<Rightarrow> rat option \<Rightarrow> rat" where
  "position_between rnd before after =
     (case (before, after) of
        (None, None) \<Rightarrow> 0
      | (None, Some a) \<Rightarrow> rnd (a - 1)
      | (Some b, None) \<Rightarrow> rnd (b + 1)
      | (Some b, Some a) \<Rightarrow> rnd (rnd (b + a) / 2))"

definition gap_collapsed :: "(rat \<Rightarrow> rat) \<Rightarrow> rat option \<Rightarrow> rat option \<Rightarrow> bool" where
  "gap_collapsed rnd before after =
     (case (before, after) of
        (Some b, Some a) \<Rightarrow> (let mid = rnd (rnd (b + a) / 2) in \<not> (b < mid \<and> mid < a))
      | _ \<Rightarrow> False)"

definition POSITION_STEP :: rat where "POSITION_STEP = 1024"

definition spread_positions :: "nat \<Rightarrow> rat list" where
  "spread_positions n = map (\<lambda>i. of_nat (i + 1) * POSITION_STEP) [0 ..< n]"

definition siblings :: "string \<Rightarrow> string option \<Rightarrow> string \<Rightarrow> tree_row list \<Rightarrow> tree_row list" where
  \<comment> \<open>\<open>ORDER BY position, created_at\<close>\<close>
  "siblings space parent except rows =
     sort_key tr_position (sort_key tr_created
       (filter (\<lambda>r. tr_space r = space \<and> tr_parent r = parent \<and> tr_id r \<noteq> except) rows))"

definition update_row :: "string \<Rightarrow> (tree_row \<Rightarrow> tree_row) \<Rightarrow> tree_row list \<Rightarrow> tree_row list" where
  "update_row i f rows = map (\<lambda>r. if tr_id r = i then f r else r) rows"

definition rebalance_siblings ::
  "string \<Rightarrow> string option \<Rightarrow> string \<Rightarrow> tree_row list \<Rightarrow> tree_row list \<times> (string \<times> rat) list" where
  "rebalance_siblings space parent except rows =
     (let sibs = map tr_id (siblings space parent except rows);
          out = zip sibs (spread_positions (length sibs))
      in (fold (\<lambda>(i, p). update_row i (tr_position_update (\<lambda>_. p))) out rows, out))"

fun slot :: "string option \<Rightarrow> (string \<times> rat) list \<Rightarrow> (rat option \<times> rat option) option" where
  \<comment> \<open>the positions before and after the slot behind \<open>afterId\<close>; \<open>None\<close> when it is no sibling\<close>
  "slot None sibs = Some (None, map_option snd (case sibs of [] \<Rightarrow> None | s # _ \<Rightarrow> Some s))"
| "slot (Some a) [] = None"
| "slot (Some a) (s # sibs) =
     (if fst s = a then Some (Some (snd s), map_option snd (case sibs of [] \<Rightarrow> None | t # _ \<Rightarrow> Some t))
      else slot (Some a) sibs)"

definition compute_position ::
  "(rat \<Rightarrow> rat) \<Rightarrow> string \<Rightarrow> string option \<Rightarrow> string \<Rightarrow> string option \<Rightarrow> tree_row list \<Rightarrow> (tree_row list \<times> rat) option" where
  \<comment> \<open>\<open>None\<close> is the refusal \<open>afterId is not a sibling\<close>\<close>
  "compute_position rnd space parent page after_id rows =
     (case slot after_id (map (\<lambda>r. (tr_id r, tr_position r)) (siblings space parent page rows)) of
        None \<Rightarrow> None
      | Some (before, after) \<Rightarrow>
          if gap_collapsed rnd before after
          then (let (rows', fresh) = rebalance_siblings space parent page rows
                in case slot after_id fresh of
                     None \<Rightarrow> None
                   | Some (before', after') \<Rightarrow> Some (rows', position_between rnd before' after'))
          else Some (rows, position_between rnd before after))"

subsection \<open>Ancestors\<close>

text \<open>The parent function of a table and its iterates; walks are facts about them.\<close>

definition parent_of :: "tree_row list \<Rightarrow> string \<Rightarrow> string option" where
  "parent_of rows i = (case row_of rows i of None \<Rightarrow> None | Some r \<Rightarrow> tr_parent r)"

fun up :: "(string \<Rightarrow> string option) \<Rightarrow> nat \<Rightarrow> string \<Rightarrow> string option" where
  "up par 0 i = Some i"
| "up par (Suc n) i = (case par i of None \<Rightarrow> None | Some p \<Rightarrow> up par n p)"

lemma up_add: "up par (m + n) i = (case up par m i of None \<Rightarrow> None | Some j \<Rightarrow> up par n j)"
  by (induction m arbitrary: i) (auto split: option.splits)

lemma up_none_mono: "up par m i = None \<Longrightarrow> m \<le> n \<Longrightarrow> up par n i = None"
  by (metis le_iff_add option.simps(4) up_add)

lemma up_Suc_last: "up par (Suc n) i = (case up par n i of None \<Rightarrow> None | Some j \<Rightarrow> par j)"
  using up_add [of par n 1 i] by (auto split: option.splits)

lemma up_unchanged:
  assumes "\<And>k. k < n \<Longrightarrow> up par k i \<noteq> Some x"
  shows "up (par(x := y)) n i = up par n i"
  using assms
proof (induction n arbitrary: i)
  case (Suc n)
  have ne: "i \<noteq> x" using Suc.prems [of 0] by auto
  show ?case
  proof (cases "par i")
    case (Some p)
    have "up par k p \<noteq> Some x" if "k < n" for k using Suc.prems [of "Suc k"] that Some by simp
    from Suc.IH [OF this] Some ne show ?thesis by simp
  qed (use ne in simp)
qed simp

definition keyed_rows :: "tree_row list \<Rightarrow> bool" where
  "keyed_rows rows \<longleftrightarrow> distinct (map tr_id rows)"

lemma row_of_iff: "keyed_rows rows \<Longrightarrow> row_of rows i = Some r \<longleftrightarrow> r \<in> set rows \<and> tr_id r = i"
  unfolding keyed_rows_def row_of_def
  by (induction rows) (auto simp: image_iff)

lemma child_iff:
  assumes "keyed_rows rows"
  shows "j \<in> set (child_ids rows i) \<longleftrightarrow> parent_of rows j = Some i"
proof -
  have c: "j \<in> set (child_ids rows i) \<longleftrightarrow> (\<exists>x \<in> set rows. tr_id x = j \<and> tr_parent x = Some i)"
    by (auto simp: child_ids_def)
  show ?thesis
  proof (cases "row_of rows j")
    case None
    have "tr_id x \<noteq> j" if "x \<in> set rows" for x using row_of_iff [OF assms, of j x] None that by simp
    with None c show ?thesis by (simp add: parent_of_def)
  next
    case (Some y)
    have y: "y \<in> set rows" "tr_id y = j" using row_of_iff [OF assms] Some by auto
    have "x = y" if "x \<in> set rows" "tr_id x = j" for x using row_of_iff [OF assms, of j x] Some that by simp
    with y have "(\<exists>x \<in> set rows. tr_id x = j \<and> tr_parent x = Some i) \<longleftrightarrow> tr_parent y = Some i" by blast
    with Some c show ?thesis by (simp add: parent_of_def)
  qed
qed

lemma levels_length [simp]: "length (levels rows n ids) = n"
  by (induction n arbitrary: ids) auto

lemma in_level:
  assumes "keyed_rows rows" "k < n"
  shows "j \<in> set (levels rows n ids ! k) \<longleftrightarrow> (\<exists>i \<in> set ids. up (parent_of rows) k j = Some i)"
  using assms(2)
proof (induction n arbitrary: ids k)
  case (Suc n)
  show ?case
  proof (cases k)
    case (Suc k')
    with Suc.IH [of k'] Suc.prems have "j \<in> set (levels rows (Suc n) ids ! k) \<longleftrightarrow>
        (\<exists>i \<in> set (concat (map (child_ids rows) ids)). up (parent_of rows) k' j = Some i)" by simp
    also have "\<dots> \<longleftrightarrow> (\<exists>i \<in> set ids. up (parent_of rows) k j = Some i)"
      unfolding Suc up_Suc_last by (auto simp: child_iff [OF assms(1)] split: option.splits)
    finally show ?thesis .
  qed auto
qed simp

lemma up_prefix: "up par n i = Some j \<Longrightarrow> m \<le> n \<Longrightarrow> \<exists>x. up par m i = Some x"
  using up_none_mono by (cases "up par m i") fastforce+

lemma level_empty_mono:
  assumes "keyed_rows rows" "k \<le> l" "l < n" "levels rows n ids ! k = []"
  shows "levels rows n ids ! l = []"
proof (rule ccontr)
  assume "levels rows n ids ! l \<noteq> []"
  then obtain j where "j \<in> set (levels rows n ids ! l)" using last_in_set by blast
  then obtain i where i: "i \<in> set ids" "up (parent_of rows) l j = Some i" using in_level [OF assms(1,3)] by blast
  have "l - k + k = l" using assms(2) by simp
  then obtain x where "up (parent_of rows) (l - k) j = Some x" "up (parent_of rows) k x = Some i"
    using i(2) up_add [of "parent_of rows" "l - k" k j] by (auto split: option.splits)
  then have "x \<in> set (levels rows n ids ! k)" using in_level [OF assms(1), of k n] assms(2,3) i(1) by auto
  with assms(4) show False by simp
qed

subsection \<open>What a walk answers\<close>

text \<open>
  A walk always answers, on a table with cycles too. It answers every descendant, every ancestor and
  the exact height, or reports corruption exactly when a chain as long as the cap exists.
\<close>

lemma descendants_exact:
  assumes "keyed_rows rows"
  shows "case descendant_ids rows i of
     Inl _ \<Rightarrow> \<exists>j. up (parent_of rows) PAGE_TREE_WALK_CAP j = Some i
   | Inr ds \<Rightarrow> (\<forall>n \<ge> PAGE_TREE_WALK_CAP. \<forall>j. up (parent_of rows) n j \<noteq> Some i) \<and>
             (\<forall>j. j \<in> set ds \<longleftrightarrow> (\<exists>n. 0 < n \<and> up (parent_of rows) n j = Some i))"
proof -
  let ?par = "parent_of rows" and ?n = PAGE_TREE_WALK_CAP
  let ?ls = "levels rows ?n (child_ids rows i)"
  have lev: "j \<in> set (?ls ! k) \<longleftrightarrow> up ?par (Suc k) j = Some i" if "k < ?n" for j k
    unfolding in_level [OF assms that] up_Suc_last by (auto simp: child_iff [OF assms] split: option.splits)
  have n: "0 < ?n" by (simp add: PAGE_TREE_WALK_CAP_def)
  have last: "last ?ls = ?ls ! (?n - 1)" using n by (subst last_conv_nth) (auto simp flip: length_greater_0_conv)
  show ?thesis
  proof (cases "last ?ls = []")
    case False
    then obtain j where "j \<in> set (?ls ! (?n - 1))" unfolding last using last_in_set by blast
    with lev [of "?n - 1"] n have "up ?par ?n j = Some i" by simp
    with False show ?thesis by (auto simp: descendant_ids_def Let_def)
  next
    case True
    have no: "up ?par m j \<noteq> Some i" if "?n \<le> m" for m j
    proof
      assume u: "up ?par m j = Some i"
      have "m - ?n + ?n = m" using that by simp
      then obtain x where "up ?par ?n x = Some i" using u up_add [of ?par "m - ?n" ?n j] by (auto split: option.splits)
      then have "x \<in> set (?ls ! (?n - 1))" using lev [of "?n - 1" x] n by simp
      with True last show False by simp
    qed
    have "j \<in> set (concat ?ls) \<longleftrightarrow> (\<exists>m. 0 < m \<and> up ?par m j = Some i)" for j
    proof
      assume "j \<in> set (concat ?ls)"
      then obtain l where "l \<in> set ?ls" "j \<in> set l" by auto
      then obtain k where "k < ?n" "j \<in> set (?ls ! k)" by (metis in_set_conv_nth levels_length)
      with lev show "\<exists>m. 0 < m \<and> up ?par m j = Some i" by blast
    next
      assume "\<exists>m. 0 < m \<and> up ?par m j = Some i"
      then obtain k where u: "up ?par (Suc k) j = Some i" by (metis gr0_implies_Suc)
      have k: "k < ?n" using no u by (meson Suc_lessD not_less)
      with u lev have "j \<in> set (?ls ! k)" by blast
      moreover have "?ls ! k \<in> set ?ls" using k by simp
      ultimately show "j \<in> set (concat ?ls)" by auto
    qed
    with no True show ?thesis by (simp add: descendant_ids_def Let_def)
  qed
qed

lemma chain_exact:
  "length (parent_chain rows n i) \<le> Suc n \<and>
   (if length (parent_chain rows n i) \<le> n
    then up (parent_of rows) (Suc (length (filter (\<lambda>p. p \<noteq> None) (parent_chain rows n i)))) i = None \<and>
         up (parent_of rows) (length (filter (\<lambda>p. p \<noteq> None) (parent_chain rows n i))) i \<noteq> None
    else up (parent_of rows) n i \<noteq> None)"
proof (induction n arbitrary: i)
  case 0
  show ?case by (cases "row_of rows i") (auto simp: parent_of_def split: option.splits)
next
  case (Suc n)
  show ?case
  proof (cases "parent_of rows i")
    case None
    then show ?thesis by (cases "row_of rows i") (auto simp: parent_of_def)
  next
    case (Some p)
    then have c: "parent_chain rows (Suc n) i = Some p # parent_chain rows n p"
      by (auto simp: parent_of_def split: option.splits)
    show ?thesis using Suc.IH [of p] Some unfolding c by (cases "length (parent_chain rows n p) \<le> n") (simp_all del: parent_chain.simps)
  qed
qed

declare parent_chain.simps [simp del]

lemma ancestors_exact:
  "case ancestor_depth rows i of
     Inl _ \<Rightarrow> up (parent_of rows) PAGE_TREE_WALK_CAP i \<noteq> None
   | Inr d \<Rightarrow> up (parent_of rows) d i \<noteq> None \<and> up (parent_of rows) (Suc d) i = None"
  using chain_exact [of rows PAGE_TREE_WALK_CAP i]
  by (auto simp: ancestor_depth_def Let_def split: if_splits)

lemma height_bound:
  assumes "keyed_rows rows" "row_of rows i \<noteq> None" "subtree_height rows i = Inr h" "h < n"
  shows "up (parent_of rows) n j \<noteq> Some i"
proof
  assume u: "up (parent_of rows) n j = Some i"
  let ?ls = "levels rows (PAGE_TREE_WALK_CAP + 1) [i]"
  let ?L = "length (takeWhile (\<lambda>l. l \<noteq> []) ?ls)"
  have h: "h = ?L - 1" "?L - 1 < PAGE_TREE_WALK_CAP"
    using assms(2,3) by (auto simp: subtree_height_def Let_def split: if_splits)
  then have L: "?L < length ?ls" "?L \<le> n" using assms(4) by (simp_all del: levels.simps)
  have "?ls ! ?L = []" using nth_length_takeWhile [OF L(1)] by simp
  moreover have "n - ?L + ?L = n" using L(2) by simp
  then obtain x where "up (parent_of rows) ?L x = Some i"
    using u up_add [of "parent_of rows" "n - ?L" ?L j] by (auto split: option.splits)
  then have "x \<in> set (?ls ! ?L)" using in_level [OF assms(1), of ?L "PAGE_TREE_WALK_CAP + 1"] L(1) by (simp del: levels.simps)
  ultimately show False by simp
qed

subsection \<open>Re-parenting\<close>

text \<open>A table is a tree of legal depth when no row has more than \<open>MAX_PAGE_DEPTH\<close> ancestors.\<close>

definition shallow :: "tree_row list \<Rightarrow> bool" where
  "shallow rows \<longleftrightarrow> (\<forall>i. up (parent_of rows) (Suc MAX_PAGE_DEPTH) i = None)"

lemma reparent_shallow:
  assumes legal: "\<forall>i. up par (Suc M) i = None" and off: "\<And>n. up par n q \<noteq> Some x"
    and a: "up par (Suc a) q = None" and h: "\<And>n j. h < n \<Longrightarrow> up par n j \<noteq> Some x" and fits: "a + 1 + h \<le> M"
  shows "up (par(x := Some q)) (Suc M) i = None"
proof (cases "\<exists>n. up par n i = Some x")
  case False
  then have "up (par(x := Some q)) (Suc M) i = up par (Suc M) i" by (intro up_unchanged) auto
  with legal show ?thesis by simp
next
  case True
  define k where "k = (LEAST n. up par n i = Some x)"
  have k: "up par k i = Some x" unfolding k_def using True by (rule LeastI_ex)
  have first: "up par n i \<noteq> Some x" if "n < k" for n using that not_less_Least unfolding k_def by blast
  have "k \<le> h" using h k by (meson not_le_imp_less)
  have "up (par(x := Some q)) k i = Some x" using up_unchanged [of k par i x] first k by metis
  then have "up (par(x := Some q)) (Suc k) i = Some q" unfolding up_Suc_last by simp
  moreover have "up (par(x := Some q)) (Suc a) q = None" using up_unchanged [of "Suc a" par q x] off a by metis
  ultimately have "up (par(x := Some q)) (Suc k + Suc a) i = None" unfolding up_add by simp
  then show ?thesis by (rule up_none_mono) (use \<open>k \<le> h\<close> fits in simp)
qed

lemma uproot_shallow:
  assumes "\<forall>i. up par (Suc M) i = None"
  shows "up (par(x := None)) (Suc M) i = None"
proof (cases "\<exists>n. up par n i = Some x")
  case False
  then have "up (par(x := None)) (Suc M) i = up par (Suc M) i" by (intro up_unchanged) auto
  with assms show ?thesis by simp
next
  case True
  define k where "k = (LEAST n. up par n i = Some x)"
  have k: "up par k i = Some x" unfolding k_def using True by (rule LeastI_ex)
  have first: "up par n i \<noteq> Some x" if "n < k" for n using that not_less_Least unfolding k_def by blast
  have "k < Suc M" using k assms up_none_mono [of par "Suc M" i k] by (metis not_le_imp_less option.distinct(1))
  have "up (par(x := None)) k i = Some x" using up_unchanged [of k par i x] first k by metis
  then have "up (par(x := None)) (Suc k) i = None" unfolding up_Suc_last by simp
  then show ?thesis by (rule up_none_mono) (use \<open>k < Suc M\<close> in simp)
qed

subsection \<open>Where a page lands among its siblings\<close>

text \<open>
  What the number type is relied on for: small integers are exact, and adding or subtracting one to a
  number of moderate size is seen.
\<close>

definition double_like :: "(rat \<Rightarrow> rat) \<Rightarrow> bool" where
  "double_like rnd \<longleftrightarrow> (\<forall>n :: int. \<bar>n\<bar> \<le> 2 ^ 53 \<longrightarrow> rnd (of_int n) = of_int n) \<and>
     (\<forall>p. \<bar>p\<bar> \<le> 2 ^ 52 \<longrightarrow> rnd (p - 1) < p \<and> p < rnd (p + 1))"

definition lands :: "rat \<Rightarrow> (string \<times> rat) list \<Rightarrow> (string \<times> rat) list \<Rightarrow> bool" where
  "lands pos xs ys \<longleftrightarrow> (\<forall>s \<in> set xs. snd s < pos) \<and> (\<forall>s \<in> set ys. pos < snd s)"

definition behind :: "string option \<Rightarrow> (string \<times> rat) list \<Rightarrow> bool" where
  "behind after_id xs \<longleftrightarrow> (case after_id of None \<Rightarrow> xs = [] | Some i \<Rightarrow> xs \<noteq> [] \<and> fst (last xs) = i)"

lemma slot_split:
  "slot after_id l = Some (b, a) \<Longrightarrow> \<exists>xs ys. l = xs @ ys \<and> behind after_id xs \<and>
     b = (if xs = [] then None else Some (snd (last xs))) \<and> a = (case ys of [] \<Rightarrow> None | y # _ \<Rightarrow> Some (snd y))"
proof (induction after_id l rule: slot.induct)
  case (1 sibs)
  then show ?case by (intro exI [of _ "[]"] exI [of _ sibs]) (auto simp: behind_def split: list.splits)
next
  case (3 i s sibs)
  show ?case
  proof (cases "fst s = i")
    case True
    with 3 show ?thesis by (intro exI [of _ "[s]"] exI [of _ sibs]) (auto simp: behind_def split: list.splits)
  next
    case False
    with 3 obtain xs ys where "sibs = xs @ ys" "behind (Some i) xs" "b = (if xs = [] then None else Some (snd (last xs)))"
      "a = (case ys of [] \<Rightarrow> None | y # _ \<Rightarrow> Some (snd y))" by auto
    then have "s # sibs = (s # xs) @ ys \<and> behind (Some i) (s # xs) \<and>
        b = (if s # xs = [] then None else Some (snd (last (s # xs)))) \<and> a = (case ys of [] \<Rightarrow> None | y # _ \<Rightarrow> Some (snd y))"
      by (auto simp: behind_def)
    then show ?thesis by blast
  qed
qed auto

lemma between_strict:
  assumes "double_like rnd" "\<not> gap_collapsed rnd b a"
    and "\<And>p. b = Some p \<Longrightarrow> \<bar>p\<bar> \<le> 2 ^ 52" "\<And>p. a = Some p \<Longrightarrow> \<bar>p\<bar> \<le> 2 ^ 52"
  shows "(\<forall>p. b = Some p \<longrightarrow> p < position_between rnd b a) \<and> (\<forall>p. a = Some p \<longrightarrow> position_between rnd b a < p)"
  using assms unfolding double_like_def
  by (cases b; cases a) (auto simp: position_between_def gap_collapsed_def Let_def)

lemma slot_lands:
  assumes "slot after_id l = Some (b, a)" "double_like rnd" "\<not> gap_collapsed rnd b a"
    and "sorted (map snd l)" "\<forall>s \<in> set l. \<bar>snd s\<bar> \<le> 2 ^ 52"
  shows "\<exists>xs ys. l = xs @ ys \<and> behind after_id xs \<and> lands (position_between rnd b a) xs ys"
proof -
  from slot_split [OF assms(1)] obtain xs ys where l: "l = xs @ ys" "behind after_id xs"
    "b = (if xs = [] then None else Some (snd (last xs)))" "a = (case ys of [] \<Rightarrow> None | y # _ \<Rightarrow> Some (snd y))" by blast
  let ?p = "position_between rnd b a"
  have small: "\<And>p. b = Some p \<Longrightarrow> \<bar>p\<bar> \<le> 2 ^ 52" "\<And>p. a = Some p \<Longrightarrow> \<bar>p\<bar> \<le> 2 ^ 52"
    using assms(5) l by (auto split: if_splits list.splits)
  note strict = between_strict [OF assms(2,3) small]
  have "snd s < ?p" if s: "s \<in> set xs" for s
  proof -
    have ne: "xs \<noteq> []" using s by auto
    have "sorted (map snd xs)" using assms(4) l(1) by (simp add: sorted_append)
    then have "sorted (map snd (butlast xs) @ [snd (last xs)])"
      using ne by (metis append_butlast_last_id list.simps(8,9) map_append)
    then have "snd s \<le> snd (last xs)" using s ne
      by (auto simp: sorted_append) (metis append_butlast_last_id in_set_butlastD order_refl Un_iff list.set(1,2) set_append singletonD insert_iff empty_iff)
    also have "\<dots> < ?p" using strict l(3) ne by simp
    finally show ?thesis .
  qed
  moreover have "?p < snd s" if s: "s \<in> set ys" for s
  proof -
    obtain y zs where ys: "ys = y # zs" using s by (cases ys) auto
    have "sorted (map snd ys)" using assms(4) l(1) by (simp add: sorted_append)
    with s ys have "snd y \<le> snd s" by auto
    moreover have "?p < snd y" using strict l(4) ys by simp
    ultimately show ?thesis by simp
  qed
  ultimately show ?thesis using l(1,2) unfolding lands_def by blast
qed

subsection \<open>Re-spreading keeps the order\<close>

lemma sort_key_map: "sort_key k (map f xs) = map f (sort_key (\<lambda>x. k (f x)) xs)"
proof -
  have "insort_key k (f x) (map f ys) = map f (insort_key (\<lambda>x. k (f x)) x ys)" for x ys
    by (induction ys) auto
  then show ?thesis unfolding sort_key_def by (induction xs) auto
qed

lemma sorted_same_keys:
  fixes k :: "'a \<Rightarrow> rat"
  assumes "mset xs = mset ys" "sorted (map k xs)" "sorted (map k ys)" "distinct (map k xs)"
  shows "xs = ys"
proof -
  have "map k xs = map k ys" using assms(1-3) by (metis mset_map sorted_list_of_multiset_mset sorted_sort_id)
  moreover have "inj_on k (set xs \<union> set ys)" using assms(1,4) by (metis distinct_map set_mset_mset sup.idem)
  ultimately show ?thesis by (rule map_inj_on)
qed

lemma siblings_distinct: "keyed_rows rows \<Longrightarrow> distinct (map tr_id (siblings sp par x rows))"
proof -
  assume "keyed_rows rows"
  then have "distinct (map tr_id (filter P rows))" for P by (simp add: keyed_rows_def distinct_map_filter)
  then show ?thesis unfolding siblings_def
    by (metis (mono_tags, lifting) mset_map mset_sort mset_eq_imp_distinct_iff)
qed

definition assign :: "(string \<times> rat) list \<Rightarrow> tree_row \<Rightarrow> tree_row" where
  "assign out r = (case map_of out (tr_id r) of None \<Rightarrow> r | Some p \<Rightarrow> r\<lparr>tr_position := p\<rparr>)"

lemma assign_fields [simp]:
  "tr_id (assign out r) = tr_id r" "tr_space (assign out r) = tr_space r" "tr_parent (assign out r) = tr_parent r"
  "tr_created (assign out r) = tr_created r" "tr_deleted (assign out r) = tr_deleted r"
  "tr_deleted_root (assign out r) = tr_deleted_root r" "tr_published (assign out r) = tr_published r"
  by (simp_all add: assign_def split: option.splits)

lemma fold_update_assign:
  "distinct (map fst out) \<Longrightarrow>
     fold (\<lambda>(i, p). update_row i (tr_position_update (\<lambda>_. p))) out rows = map (assign out) rows"
proof (induction out arbitrary: rows)
  case (Cons o' out)
  obtain i p where o': "o' = (i, p)" by (cases o')
  with Cons.prems have "map_of out i = None" by (simp add: map_of_eq_None_iff)
  then have "assign out ((if tr_id r = i then tr_position_update (\<lambda>_. p) r else r)) = assign (o' # out) r" for r :: tree_row
    by (auto simp: assign_def o' split: option.splits)
  with Cons o' show ?case by (simp add: update_row_def comp_def)
qed (simp add: assign_def cong: map_cong)

lemma spread_length [simp]: "length (spread_positions n) = n"
  by (simp add: spread_positions_def)

lemma spread_nth [simp]: "i < n \<Longrightarrow> spread_positions n ! i = of_nat (i + 1) * 1024"
  by (simp add: spread_positions_def POSITION_STEP_def)

lemma spread_strict: "sorted_wrt (<) (spread_positions n)"
  by (auto simp: sorted_wrt_iff_nth_less)

lemma rebalance_rows:
  assumes "keyed_rows rows" and "rebalance_siblings sp par x rows = (rows', fresh)"
  shows "fresh = zip (map tr_id (siblings sp par x rows)) (spread_positions (length (siblings sp par x rows))) \<and>
    rows' = map (assign fresh) rows \<and> map (\<lambda>r. (tr_id r, tr_position r)) (siblings sp par x rows') = fresh"
proof -
  let ?S = "siblings sp par x rows"
  have f: "fresh = zip (map tr_id ?S) (spread_positions (length ?S))"
    using assms(2) by (simp add: rebalance_siblings_def Let_def)
  have d: "distinct (map fst fresh)" using siblings_distinct [OF assms(1)] by (simp add: f)
  have r: "rows' = map (assign fresh) rows"
    using assms(2) fold_update_assign [OF d] by (simp add: rebalance_siblings_def Let_def f)
  let ?g = "assign fresh" and ?ys = "sort_key tr_created (filter (\<lambda>r. tr_space r = sp \<and> tr_parent r = par \<and> tr_id r \<noteq> x) rows)"
  have s': "siblings sp par x rows' = sort_key tr_position (map ?g ?ys)"
    by (simp add: siblings_def r filter_map comp_def sort_key_map)
  have at: "tr_position (?g (?S ! i)) = spread_positions (length ?S) ! i" if "i < length ?S" for i
  proof -
    have "(tr_id (?S ! i), spread_positions (length ?S) ! i) \<in> set fresh"
      unfolding f set_zip using that by (auto intro!: exI [of _ i] simp del: spread_nth)
    with d have "map_of fresh (tr_id (?S ! i)) = Some (spread_positions (length ?S) ! i)" by simp
    then show ?thesis by (simp add: assign_def)
  qed
  have pos: "map tr_position (map ?g ?S) = spread_positions (length ?S)"
    by (rule nth_equalityI) (simp_all add: at)
  have "map ?g ?S = siblings sp par x rows'"
  proof (rule sorted_same_keys [where k = tr_position])
    show "mset (map ?g ?S) = mset (siblings sp par x rows')"
      unfolding s' by (simp add: siblings_def)
    show "sorted (map tr_position (map ?g ?S))" "distinct (map tr_position (map ?g ?S))"
      unfolding pos using spread_strict strict_sorted_iff by blast+
    show "sorted (map tr_position (siblings sp par x rows'))" unfolding s' by simp
  qed
  then have "map (\<lambda>r. (tr_id r, tr_position r)) (siblings sp par x rows') = map (\<lambda>r. (tr_id r, tr_position (?g r))) ?S"
    by (metis (no_types, lifting) assign_fields(1) comp_apply map_eq_conv map_map)
  also have "\<dots> = fresh"
  proof (rule nth_equalityI)
    show "length (map (\<lambda>r. (tr_id r, tr_position (?g r))) ?S) = length fresh" by (simp add: f)
    show "map (\<lambda>r. (tr_id r, tr_position (?g r))) ?S ! i = fresh ! i"
      if "i < length (map (\<lambda>r. (tr_id r, tr_position (?g r))) ?S)" for i
      using that at [of i] f by simp
  qed
  finally show ?thesis using f r by blast
qed

definition sibling_keys :: "string \<Rightarrow> string option \<Rightarrow> string \<Rightarrow> tree_row list \<Rightarrow> (string \<times> rat) list" where
  "sibling_keys sp par x rows = map (\<lambda>r. (tr_id r, tr_position r)) (siblings sp par x rows)"

lemma sibling_keys_sorted: "sorted (map snd (sibling_keys sp par x rows))"
  by (simp add: sibling_keys_def siblings_def comp_def)

lemma spread_gap_open:
  assumes "double_like rnd" "i < n" "2048 * (of_nat n + 1) \<le> (2 :: int) ^ 53"
  shows "rnd (rnd (of_nat (i + 1) * 1024 + of_nat (i + 2) * 1024) / 2) = of_nat (2 * i + 3) * 512"
proof -
  have exact: "rnd (of_int m) = of_int m" if "0 \<le> m" "m \<le> 2 ^ 53" for m
    using assms(1) that unfolding double_like_def by simp
  have "rnd (of_nat (i + 1) * 1024 + of_nat (i + 2) * 1024) = of_nat (2 * i + 3) * 1024"
    using exact [of "(2 * int i + 3) * 1024"] assms(2,3) by (simp add: algebra_simps)
  moreover have "rnd (of_nat (2 * i + 3) * 512) = of_nat (2 * i + 3) * 512"
    using exact [of "(2 * int i + 3) * 512"] assms(2,3) by (simp add: algebra_simps)
  moreover have "of_nat (2 * i + 3) * 1024 / 2 = (of_nat (2 * i + 3) * 512 :: rat)" by simp
  ultimately show ?thesis by metis
qed

lemma fresh_slot_open:
  assumes "slot after_id (zip ids (spread_positions (length ids))) = Some (b, a)" "double_like rnd"
    and "2048 * (of_nat (length ids) + 1) \<le> (2 :: int) ^ 53"
  shows "\<not> gap_collapsed rnd b a"
proof (rule ccontr)
  assume c: "\<not> \<not> gap_collapsed rnd b a"
  let ?l = "zip ids (spread_positions (length ids))"
  from slot_split [OF assms(1)] obtain xs ys where l: "?l = xs @ ys" "b = (if xs = [] then None else Some (snd (last xs)))"
    "a = (case ys of [] \<Rightarrow> None | y # _ \<Rightarrow> Some (snd y))" by blast
  from c have "b \<noteq> None" "a \<noteq> None" by (auto simp: gap_collapsed_def split: option.splits)
  with l have ne: "xs \<noteq> []" "ys \<noteq> []" by (auto split: list.splits)
  define i where "i = length xs - 1"
  have len: "length xs + length ys = length ids" using arg_cong [OF l(1), of length] by simp
  moreover have pos: "0 < length xs" "0 < length ys" using ne by (auto simp: length_greater_0_conv)
  ultimately have i: "Suc i = length xs" "Suc i < length ids" unfolding i_def by linarith+
  have "last xs = ?l ! i" using l(1) ne(1) i(1) by (simp add: last_conv_nth nth_append i_def)
  then have bv: "b = Some (of_nat (i + 1) * 1024)" using l(2) ne i by simp
  have "hd ys = ?l ! (Suc i)" using l(1) ne(2) i(1) by (simp add: hd_conv_nth nth_append)
  then have av: "a = Some (of_nat (i + 2) * 1024)" using l(3) ne i by (cases ys) (simp_all add: algebra_simps)
  have "rnd (rnd (of_nat (i + 1) * 1024 + of_nat (i + 2) * 1024) / 2) = of_nat (2 * i + 3) * 512"
    by (rule spread_gap_open [OF assms(2) _ assms(3)]) (use i in simp)
  with c bv av show False by (simp add: gap_collapsed_def Let_def del: of_nat_add) (simp add: algebra_simps)
qed

lemma position_lands:
  assumes "keyed_rows rows" "double_like rnd" and small: "\<forall>r \<in> set rows. \<bar>tr_position r\<bar> \<le> 2 ^ 52"
    and count: "2048 * (of_nat (length rows) + 1) \<le> (2 :: int) ^ 53"
    and "compute_position rnd sp par x after_id rows = Some (rows', pos)"
  shows "\<exists>xs ys. sibling_keys sp par x rows' = xs @ ys \<and> behind after_id xs \<and> lands pos xs ys \<and>
    map fst (sibling_keys sp par x rows') = map fst (sibling_keys sp par x rows)"
proof -
  obtain b a where s: "slot after_id (sibling_keys sp par x rows) = Some (b, a)"
    using assms(5) by (auto simp: compute_position_def sibling_keys_def split: option.splits)
  have sub: "set (siblings sp par x rows) \<subseteq> set rows" by (auto simp: siblings_def)
  have lens: "length (siblings sp par x rows) \<le> length rows" by (simp add: siblings_def)
  show ?thesis
  proof (cases "gap_collapsed rnd b a")
    case False
    then have r: "rows' = rows" "pos = position_between rnd b a"
      using assms(5) s by (auto simp: compute_position_def sibling_keys_def)
    have "\<forall>s \<in> set (sibling_keys sp par x rows). \<bar>snd s\<bar> \<le> 2 ^ 52" using small sub by (auto simp: sibling_keys_def)
    from slot_lands [OF s assms(2) False sibling_keys_sorted this] r show ?thesis by auto
  next
    case True
    obtain rows0 fresh where rb0: "rebalance_siblings sp par x rows = (rows0, fresh)" by (cases "rebalance_siblings sp par x rows")
    then obtain b' a' where f: "slot after_id fresh = Some (b', a')" "pos = position_between rnd b' a'" and r0: "rows0 = rows'"
      using assms(5) s True by (auto simp: compute_position_def sibling_keys_def split: option.splits)
    note rb = rb0 [unfolded r0]
    from rebalance_rows [OF assms(1) rb] have fr: "fresh = zip (map tr_id (siblings sp par x rows)) (spread_positions (length (siblings sp par x rows)))"
      "sibling_keys sp par x rows' = fresh" by (auto simp: sibling_keys_def)
    have cnt: "2048 * (of_nat (length (siblings sp par x rows)) + 1) \<le> (2 :: int) ^ 53" using count lens by simp
    have "\<not> gap_collapsed rnd b' a'"
      using fresh_slot_open [of after_id "map tr_id (siblings sp par x rows)" b' a' rnd] f(1) fr(1) assms(2) cnt by simp
    moreover have "\<forall>s \<in> set fresh. \<bar>snd s\<bar> \<le> 2 ^ 52"
    proof
      fix s assume "s \<in> set fresh"
      then obtain i where "i < length (siblings sp par x rows)" "snd s = of_nat (i + 1) * 1024"
        unfolding fr(1) by (auto simp: set_zip)
      moreover have "of_nat (i + 1) * (1024 :: rat) \<le> 2 ^ 52" if "i < length (siblings sp par x rows)" for i
      proof -
        have "(int i + 1) * 1024 \<le> 2 ^ 52" using that cnt by simp
        then have "of_int ((int i + 1) * 1024) \<le> (of_int (2 ^ 52) :: rat)" by (simp only: of_int_le_iff)
        then show ?thesis by simp
      qed
      ultimately show "\<bar>snd s\<bar> \<le> 2 ^ 52" by simp
    qed
    moreover have "sorted (map snd fresh)" using sibling_keys_sorted fr(2) by metis
    ultimately have "\<exists>xs ys. fresh = xs @ ys \<and> behind after_id xs \<and> lands pos xs ys"
      using slot_lands [OF f(1) assms(2)] f(2) by blast
    moreover have "map fst fresh = map fst (sibling_keys sp par x rows)" by (simp add: fr(1) sibling_keys_def comp_def)
    ultimately show ?thesis using fr(2) by auto
  qed
qed

subsection \<open>Properties\<close>

text \<open>
  C13. The walks end and are exact on every table. The descendant query answers exactly the pages
  below a page, and the ancestor query its exact depth; they refuse as corrupt instead exactly when
  the page has a descendant, or an ancestor, as far away as the cap. On a page that lies on a parent
  cycle both refuse: neither runs forever, neither answers a truncated set.
\<close>

theorem walks_end_and_are_exact:
  assumes "keyed_rows rows"
  shows "(case descendant_ids rows i of
       Inl _ \<Rightarrow> \<exists>j. up (parent_of rows) PAGE_TREE_WALK_CAP j = Some i
     | Inr ds \<Rightarrow> (\<forall>n \<ge> PAGE_TREE_WALK_CAP. \<forall>j. up (parent_of rows) n j \<noteq> Some i) \<and>
               (\<forall>j. j \<in> set ds \<longleftrightarrow> (\<exists>n. 0 < n \<and> up (parent_of rows) n j = Some i))) \<and>
    (case ancestor_depth rows i of
       Inl _ \<Rightarrow> up (parent_of rows) PAGE_TREE_WALK_CAP i \<noteq> None
     | Inr d \<Rightarrow> up (parent_of rows) d i \<noteq> None \<and> up (parent_of rows) (Suc d) i = None) \<and>
    (\<forall>n. 0 < n \<and> up (parent_of rows) n i = Some i \<longrightarrow>
       descendant_ids rows i = Inl PageTreeCorrupt \<and> ancestor_depth rows i = Inl PageTreeCorrupt)"
proof (intro conjI allI impI)
  fix n assume n: "0 < n \<and> up (parent_of rows) n i = Some i"
  have cyc: "up (parent_of rows) (m * n) i = Some i" for m
    by (induction m) (use n in \<open>simp_all add: up_add\<close>)
  have far: "k \<le> k * n" for k using n by simp
  show "descendant_ids rows i = Inl PageTreeCorrupt"
  proof (cases "descendant_ids rows i")
    case (Inr ds)
    with descendants_exact [OF assms, of i] cyc [of PAGE_TREE_WALK_CAP] far show ?thesis by auto
  qed (use tree_error.exhaust in auto)
  show "ancestor_depth rows i = Inl PageTreeCorrupt"
  proof (cases "ancestor_depth rows i")
    case (Inr d)
    then have "up (parent_of rows) (Suc d) i = None" using ancestors_exact [of rows i] by simp
    then have "up (parent_of rows) (Suc d * n) i = None" using far by (rule up_none_mono)
    with cyc [of "Suc d"] show ?thesis by simp
  qed (use tree_error.exhaust in auto)
qed (rule descendants_exact [OF assms], rule ancestors_exact)

definition plain_row :: "string \<Rightarrow> string option \<Rightarrow> rat \<Rightarrow> tree_row" where
  "plain_row i p pos = \<lparr>tr_id = i, tr_space = ''S'', tr_parent = p, tr_position = pos, tr_created = 0,
     tr_deleted = None, tr_deleted_root = None, tr_published = True\<rparr>"

theorem walks_end_and_are_exact_witness:
  "descendant_ids [plain_row ''a'' (Some ''b'') 0, plain_row ''b'' (Some ''a'') 0] ''a'' = Inl PageTreeCorrupt"
proof -
  let ?rows = "[plain_row ''a'' (Some ''b'') 0, plain_row ''b'' (Some ''a'') 0]"
  have k: "keyed_rows ?rows" by (simp add: keyed_rows_def plain_row_def)
  have "0 < (2::nat) \<and> up (parent_of ?rows) 2 ''a'' = Some ''a''"
    by (simp add: eval_nat_numeral parent_of_def row_of_def plain_row_def)
  with walks_end_and_are_exact [OF k, of "''a''"] show ?thesis by blast
qed

text \<open>
  C14. A page lands exactly behind the sibling it was dropped after, or first. Whatever the
  positions, duplicates and exhausted gaps included, the siblings keep their order, those up to the
  chosen one get a smaller position than the page and those behind it a larger one, so the next
  listing shows the page in the slot; a collapsed gap is re-spread first.
\<close>

theorem page_lands_in_its_slot:
  assumes "keyed_rows rows" and "double_like rnd" and "\<forall>r \<in> set rows. \<bar>tr_position r\<bar> \<le> 2 ^ 52"
    and "2048 * (of_nat (length rows) + 1) \<le> (2 :: int) ^ 53"
    and "compute_position rnd sp par x after_id rows = Some (rows', pos)"
  shows "\<exists>xs ys. sibling_keys sp par x rows' = xs @ ys \<and> behind after_id xs \<and> lands pos xs ys \<and>
    map fst (sibling_keys sp par x rows') = map fst (sibling_keys sp par x rows)"
  using assms by (rule position_lands)

theorem page_lands_in_its_slot_witness:
  "\<exists>rows' pos xs ys. compute_position id ''S'' None ''x'' (Some ''a'') [plain_row ''a'' None 7, plain_row ''b'' None 7] = Some (rows', pos) \<and>
    sibling_keys ''S'' None ''x'' rows' = xs @ ys \<and> behind (Some ''a'') xs \<and> lands pos xs ys"
proof -
  let ?rows = "[plain_row ''a'' None 7, plain_row ''b'' None 7]"
  have k: "keyed_rows ?rows" by (simp add: keyed_rows_def plain_row_def)
  have d: "double_like id" by (simp add: double_like_def)
  have s: "\<forall>r \<in> set ?rows. \<bar>tr_position r\<bar> \<le> 2 ^ 52" by (simp add: plain_row_def)
  have l: "2048 * (of_nat (length ?rows) + 1) \<le> (2 :: int) ^ 53" by simp
  have "compute_position id ''S'' None ''x'' (Some ''a'') ?rows \<noteq> None"
    by (simp add: compute_position_def siblings_def plain_row_def gap_collapsed_def Let_def rebalance_siblings_def
        spread_positions_def POSITION_STEP_def)
  then obtain rows' pos where "compute_position id ''S'' None ''x'' (Some ''a'') ?rows = Some (rows', pos)" by auto
  with page_lands_in_its_slot [OF k d s l this] show ?thesis by blast
qed

end
