(* ===== verification/Wk_Page_Move.thy ===== *)
theory Wk_Page_Move
  imports Wk_Page_Tree Wk_Outbox
begin

section \<open>Creating and moving pages\<close>

text \<open>
  Models \<open>createPage\<close> (its structural part), \<open>movePage\<close>, \<open>swapSpaceTuples\<close>, \<open>syncPageParentTuple\<close> and
  \<open>applyMovePrivacyBoundary\<close> of \<open>apps/server/src/routes/pages.ts\<close>. A move is two definitions, as it
  has two atomic parts in the code: \<open>move_prepare\<close> reads and authorizes before the transaction,
  \<open>move_commit\<close> is the transaction and what follows it, on the state it then finds. The answers of the
  authorization store are parameters over its state. An outer \<open>None\<close> is a paged read that never ends.
  The share-link sweep of the privacy boundary and the delivery flag of the events are left out.
\<close>

subsection \<open>State\<close>

record 's wiki =
  wk_rows :: "tree_row list"
  wk_home :: "string \<Rightarrow> string option" \<comment> \<open>\<open>spaces.home_page_id\<close>\<close>
  wk_managers_only :: "string \<Rightarrow> bool" \<comment> \<open>\<open>page_creation_policy = 'managers'\<close>\<close>
  wk_store :: 's
  wk_outbox :: "search_intent list"
  wk_events :: "(string \<times> string) list"

record 's page_env =
  pe_store :: "'s tuple_store"
  pe_can :: "'s \<Rightarrow> string \<Rightarrow> capability \<Rightarrow> resource_ref \<Rightarrow> bool"
  pe_private :: "'s \<Rightarrow> string \<Rightarrow> bool" \<comment> \<open>the probe \<open>checkRelation(..., 'private', page)\<close>\<close>
  pe_own_private :: "'s \<Rightarrow> string \<Rightarrow> bool" \<comment> \<open>the page's own marker\<close>
  pe_rnd :: "rat \<Rightarrow> rat"

datatype page_error =
    PageNotFound
  | ParentNotFound
  | ParentNotInSpace
  | HomeIsLeaf
  | PageForbidden
  | CreationRestricted
  | UnderItself
  | UnderDescendant
  | TooDeep
  | NotASibling
  | CorruptTree
  | StoreRefused store_error
  | PublicGrantNotRemoved "string list"
  | TrashDisabled
  | DirectDisabled
  | RowsNotWritten

definition tuple_key :: "string \<Rightarrow> string \<Rightarrow> string \<Rightarrow> tuple" where
  "tuple_key u r i = \<lparr>tp_user = u, tp_relation = r, tp_object = ''page:'' @ i\<rparr>"

definition plain_tuple :: "tuple \<Rightarrow> tuple_input" where
  "plain_tuple t = \<lparr>ti_key = t, ti_condition = None\<rparr>"

definition parent_tuple :: "string \<Rightarrow> string \<Rightarrow> tuple" where
  "parent_tuple parent i = tuple_key (''page:'' @ parent) ''parent'' i"

definition space_tuple :: "string \<Rightarrow> string \<Rightarrow> tuple" where
  "space_tuple space i = tuple_key (''space:'' @ space) ''space'' i"

definition PUBLIC_GRANT :: "string \<Rightarrow> tuple" where
  "PUBLIC_GRANT i = tuple_key ''user:*'' ''view_base'' i"

definition can_on :: "'s page_env \<Rightarrow> 's wiki \<Rightarrow> string \<Rightarrow> capability \<Rightarrow> resource_type \<Rightarrow> string \<Rightarrow> bool" where
  "can_on env w user cap t i = pe_can env (wk_store w) (''user:'' @ user) cap \<lparr>rtype = t, rid = i\<rparr>"

definition walk :: "tree_error + 'a \<Rightarrow> page_error + 'a" where
  "walk x = (case x of Inl _ \<Rightarrow> Inl CorruptTree | Inr y \<Rightarrow> Inr y)"

subsection \<open>Creating\<close>

definition create_guards :: "'s page_env \<Rightarrow> string \<Rightarrow> string \<Rightarrow> string option \<Rightarrow> 's wiki \<Rightarrow> page_error + unit" where
  "create_guards env user space parent w =
     (if \<not> can_on env w user Edit SpaceR space then Inl PageForbidden
      else if wk_managers_only w space \<and> \<not> can_on env w user Manage SpaceR space then Inl CreationRestricted
      else case parent of
        None \<Rightarrow> Inr ()
      | Some p \<Rightarrow>
          (case row_of (wk_rows w) p of
             None \<Rightarrow> Inl ParentNotInSpace
           | Some q \<Rightarrow>
               if tr_deleted q \<noteq> None \<or> tr_space q \<noteq> space then Inl ParentNotInSpace
               else if wk_home w space = Some p then Inl HomeIsLeaf
               else case walk (ancestor_depth (wk_rows w) p) of
                      Inl e \<Rightarrow> Inl e
                    | Inr d \<Rightarrow> if MAX_PAGE_DEPTH < d + 1 then Inl TooDeep else Inr ()))"

definition last_position :: "string \<Rightarrow> string option \<Rightarrow> tree_row list \<Rightarrow> rat option" where
  \<comment> \<open>\<open>MAX(position)\<close>\<close>
  "last_position space parent rows =
     (case map tr_position (filter (\<lambda>r. tr_space r = space \<and> tr_parent r = parent) rows) of
        [] \<Rightarrow> None | p # ps \<Rightarrow> Some (fold max ps p))"

definition create_page ::
  "'s page_env \<Rightarrow> string \<Rightarrow> string \<Rightarrow> string option \<Rightarrow> string \<Rightarrow> nat \<Rightarrow> 's wiki \<Rightarrow> 's wiki \<times> (page_error + tree_row)" where
  \<comment> \<open>\<open>i\<close> is the id the insert answers; the tuples are written inside the transaction\<close>
  "create_page env user space parent i now w =
     (case create_guards env user space parent w of
        Inl e \<Rightarrow> (w, Inl e)
      | Inr _ \<Rightarrow>
          let pos = position_between (pe_rnd env) (last_position space parent (wk_rows w)) None;
              r = \<lparr>tr_id = i, tr_space = space, tr_parent = parent, tr_position = pos, tr_created = now,
                   tr_deleted = None, tr_deleted_root = None, tr_published = False\<rparr>;
              ts = plain_tuple (tuple_key (''user:'' @ user) ''manage_direct'' i) #
                   (case parent of None \<Rightarrow> [] | Some p \<Rightarrow> [plain_tuple (parent_tuple p i)])
          in case write_tuples (pe_store env) ts (wk_store w) of
               (s, Inl err) \<Rightarrow> (w\<lparr>wk_store := s\<rparr>, Inl (StoreRefused err))
             | (s, Inr _) \<Rightarrow>
                 (w\<lparr>wk_store := s, wk_rows := wk_rows w @ [r],
                    wk_outbox := wk_outbox w @ [\<lparr>si_page = i, si_op = UpsertOp\<rparr>],
                    wk_events := wk_events w @ [(''page.created'', i)]\<rparr>, Inr r))"

subsection \<open>The reads before a move\<close>

record move_plan =
  mp_page :: string
  mp_row :: tree_row
  mp_parent :: "string option"
  mp_after :: "string option"
  mp_target :: string
  mp_cross :: bool
  mp_eff_changed :: bool
  mp_will_be_private :: bool

definition move_target ::
  "tree_row \<Rightarrow> string option \<Rightarrow> string option \<Rightarrow> 's wiki \<Rightarrow> page_error + string" where
  \<comment> \<open>the parent's space is authoritative for the destination\<close>
  "move_target r parent space w =
     (case parent of
        None \<Rightarrow> Inr (nullish (tr_space r) space)
      | Some p \<Rightarrow>
          (case row_of (wk_rows w) p of
             None \<Rightarrow> Inl ParentNotFound
           | Some q \<Rightarrow>
               if tr_deleted q \<noteq> None then Inl ParentNotFound
               else if space \<noteq> None \<and> space \<noteq> Some (tr_space q) then Inl ParentNotInSpace
               else Inr (tr_space q)))"

definition move_prepare ::
  "'s page_env \<Rightarrow> string \<Rightarrow> string \<Rightarrow> string option \<Rightarrow> string option \<Rightarrow> string option \<Rightarrow> 's wiki \<Rightarrow> page_error + move_plan" where
  "move_prepare env user i parent after_id space w =
     (case row_of (wk_rows w) i of
        None \<Rightarrow> Inl PageNotFound
      | Some r \<Rightarrow>
        if tr_deleted r \<noteq> None then Inl PageNotFound
        else case move_target r parent space w of
          Inl e \<Rightarrow> Inl e
        | Inr target \<Rightarrow>
          let cross = (target \<noteq> tr_space r)
          in if wk_home w (tr_space r) = Some i \<and> parent \<noteq> None then Inl HomeIsLeaf
             else if parent \<noteq> None \<and> wk_home w target = parent then Inl HomeIsLeaf
             else
               let was = pe_private env (wk_store w) i;
                   will = (pe_own_private env (wk_store w) i \<or>
                           (case parent of None \<Rightarrow> False | Some p \<Rightarrow> pe_private env (wk_store w) p));
                   eff = (was \<noteq> will)
               in if (if cross then \<not> can_on env w user Manage PageR i \<or> \<not> can_on env w user Edit SpaceR target
                      else \<not> can_on env w user (if eff then Manage else Edit) PageR i)
                  then Inl PageForbidden
                  else if eff \<and> will \<and> descendant_ids (wk_rows w) i = Inl PageTreeCorrupt then Inl CorruptTree
                  else if parent = Some i then Inl UnderItself
                  else Inr \<lparr>mp_page = i, mp_row = r, mp_parent = parent, mp_after = after_id, mp_target = target,
                            mp_cross = cross, mp_eff_changed = eff, mp_will_be_private = will\<rparr>)"

subsection \<open>The transaction\<close>

definition structural_guards :: "tree_row list \<Rightarrow> string \<Rightarrow> string option \<Rightarrow> page_error + unit" where
  "structural_guards rows i parent =
     (case parent of
        None \<Rightarrow> Inr ()
      | Some p \<Rightarrow>
          (case walk (descendant_ids rows i) of
             Inl e \<Rightarrow> Inl e
           | Inr ds \<Rightarrow>
               if p \<in> set ds then Inl UnderDescendant
               else case (walk (ancestor_depth rows p), walk (subtree_height rows i)) of
                      (Inl e, _) \<Rightarrow> Inl e
                    | (_, Inl e) \<Rightarrow> Inl e
                    | (Inr d, Inr h) \<Rightarrow> if MAX_PAGE_DEPTH < d + 1 + h then Inl TooDeep else Inr ()))"

fun swap_collect ::
  "'s tuple_store \<Rightarrow> string \<Rightarrow> string \<Rightarrow> string list \<Rightarrow> 's \<Rightarrow> ('s \<times> (raw_error + tuple list \<times> tuple list)) option" where
  "swap_collect st old new [] s = Some (s, Inr ([], []))"
| "swap_collect st old new (i # ids) s =
     (case read_object_tuples st (''page:'' @ i) s of
        None \<Rightarrow> None
      | Some (s1, Inl err) \<Rightarrow> Some (s1, Inl err)
      | Some (s1, Inr keys) \<Rightarrow>
          let had = (\<lambda>k. list_ex (\<lambda>t. tp_relation t = ''space'' \<and> tp_user t = ''space:'' @ k) keys)
          in (case swap_collect st old new ids s1 of
                None \<Rightarrow> None
              | Some (s2, Inl err) \<Rightarrow> Some (s2, Inl err)
              | Some (s2, Inr (ds, ws)) \<Rightarrow>
                  Some (s2, Inr (if \<not> had old then (ds, ws)
                                 else (space_tuple old i # ds, if had new then ws else space_tuple new i # ws)))))"

definition swap_space_tuples ::
  "'s tuple_store \<Rightarrow> string \<Rightarrow> string \<Rightarrow> string list \<Rightarrow> 's \<Rightarrow> ('s \<times> (store_error + unit)) option" where
  \<comment> \<open>all deletes in one write, then all additions in one write\<close>
  "swap_space_tuples st old new ids s =
     (case swap_collect st old new ids s of
        None \<Rightarrow> None
      | Some (s1, Inl err) \<Rightarrow> Some (s1, Inl (Raw err))
      | Some (s1, Inr (ds, ws)) \<Rightarrow>
          Some (case (if ds = [] then (s1, Inr ()) else delete_tuples st ds s1) of
                  (s2, Inl err) \<Rightarrow> (s2, Inl err)
                | (s2, Inr _) \<Rightarrow> if ws = [] then (s2, Inr ()) else write_tuples st (map plain_tuple ws) s2))"

definition sync_page_parent_tuple ::
  "'s tuple_store \<Rightarrow> string \<Rightarrow> string option \<Rightarrow> string option \<Rightarrow> 's \<Rightarrow> 's \<times> (store_error + unit)" where
  "sync_page_parent_tuple st i old new s =
     (if old = new then (s, Inr ())
      else case (case old of None \<Rightarrow> (s, Inr ())
                 | Some p \<Rightarrow> (case delete_tuples st [parent_tuple p i] s of
                              (s', Inl err) \<Rightarrow> (s', if is_already_converged err then Inr () else Inl err)
                            | (s', Inr _) \<Rightarrow> (s', Inr ()))) of
             (s1, Inl err) \<Rightarrow> (s1, Inl err)
           | (s1, Inr _) \<Rightarrow> (case new of None \<Rightarrow> (s1, Inr ())
                             | Some p \<Rightarrow> write_tuples st [plain_tuple (parent_tuple p i)] s1))"

fun strip_public :: "'s tuple_store \<Rightarrow> string list \<Rightarrow> 's \<Rightarrow> 's \<times> string list" where
  \<comment> \<open>the ids whose public grant could not be removed\<close>
  "strip_public st [] s = (s, [])"
| "strip_public st (i # ids) s =
     (case delete_tuples st [PUBLIC_GRANT i] s of
        (s1, res) \<Rightarrow>
          let (s2, still) = strip_public st ids s1
          in (s2, if (case res of Inl err \<Rightarrow> \<not> is_already_converged err | Inr _ \<Rightarrow> False) then i # still else still))"

definition upserts :: "string list \<Rightarrow> search_intent list" where
  "upserts ids = map (\<lambda>i. \<lparr>si_page = i, si_op = UpsertOp\<rparr>) ids"

definition apply_move_privacy_boundary ::
  "'s tuple_store \<Rightarrow> string \<Rightarrow> bool \<Rightarrow> bool \<Rightarrow> 's wiki \<Rightarrow> 's wiki \<times> (page_error + unit)" where
  "apply_move_privacy_boundary st i strip reindex w =
     (case walk (descendant_ids (wk_rows w) i) of
        Inl e \<Rightarrow> (w, Inl e)
      | Inr ds \<Rightarrow>
          let subtree = i # ds;
              (s, still) = (if strip then strip_public st subtree (wk_store w) else (wk_store w, []))
          in (w\<lparr>wk_store := s, wk_outbox := wk_outbox w @ (if reindex then upserts subtree else [])\<rparr>,
              if still \<noteq> [] then Inl (PublicGrantNotRemoved still) else Inr ()))"

definition place :: "string \<Rightarrow> string option \<Rightarrow> rat \<Rightarrow> tree_row \<Rightarrow> tree_row" where
  "place i parent pos r = r\<lparr>tr_parent := parent, tr_position := pos\<rparr>"

definition move_tx_intra ::
  "'s page_env \<Rightarrow> move_plan \<Rightarrow> 's wiki \<Rightarrow> ('s wiki \<times> (page_error + unit)) option" where
  "move_tx_intra env mp w =
     Some (case structural_guards (wk_rows w) (mp_page mp) (mp_parent mp) of
             Inl e \<Rightarrow> (w, Inl e)
           | Inr _ \<Rightarrow>
               (case compute_position (pe_rnd env) (mp_target mp) (mp_parent mp) (mp_page mp) (mp_after mp) (wk_rows w) of
                  None \<Rightarrow> (w, Inl NotASibling)
                | Some (rows, pos) \<Rightarrow>
                    (w\<lparr>wk_rows := update_row (mp_page mp) (place (mp_page mp) (mp_parent mp) pos) rows\<rparr>, Inr ())))"

definition move_tx_cross ::
  "'s page_env \<Rightarrow> move_plan \<Rightarrow> 's wiki \<Rightarrow> ('s wiki \<times> (page_error + unit)) option" where
  \<comment> \<open>a throw rolls the rows and the outbox back, not the store\<close>
  "move_tx_cross env mp w =
     (case structural_guards (wk_rows w) (mp_page mp) (mp_parent mp) of
        Inl e \<Rightarrow> Some (w, Inl e)
      | Inr _ \<Rightarrow>
          (case compute_position (pe_rnd env) (mp_target mp) (mp_parent mp) (mp_page mp) (mp_after mp) (wk_rows w) of
             None \<Rightarrow> Some (w, Inl NotASibling)
           | Some (rows, pos) \<Rightarrow>
               (case walk (descendant_ids rows (mp_page mp)) of
                  Inl e \<Rightarrow> Some (w, Inl e)
                | Inr ds \<Rightarrow>
                    let subtree = mp_page mp # ds;
                        rows1 = map (\<lambda>r. if tr_id r \<in> set subtree then r\<lparr>tr_space := mp_target mp\<rparr> else r) rows;
                        rows2 = update_row (mp_page mp) (place (mp_page mp) (mp_parent mp) pos) rows1
                    in (case swap_space_tuples (pe_store env) (tr_space (mp_row mp)) (mp_target mp) subtree (wk_store w) of
                          None \<Rightarrow> None
                        | Some (s, Inl err) \<Rightarrow> Some (w\<lparr>wk_store := s\<rparr>, Inl (StoreRefused err))
                        | Some (s, Inr _) \<Rightarrow>
                            Some (w\<lparr>wk_rows := rows2, wk_store := s, wk_outbox := wk_outbox w @ upserts subtree\<rparr>, Inr ())))))"

definition move_commit ::
  "'s page_env \<Rightarrow> move_plan \<Rightarrow> 's wiki \<Rightarrow> ('s wiki \<times> (page_error + unit)) option" where
  "move_commit env mp w =
     (case (if mp_cross mp then move_tx_cross env mp w else move_tx_intra env mp w) of
        None \<Rightarrow> None
      | Some (w1, Inl e) \<Rightarrow> Some (w1, Inl e)
      | Some (w1, Inr _) \<Rightarrow>
          Some (case sync_page_parent_tuple (pe_store env) (mp_page mp) (tr_parent (mp_row mp)) (mp_parent mp) (wk_store w1) of
                  (s, Inl err) \<Rightarrow> (w1\<lparr>wk_store := s\<rparr>, Inl (StoreRefused err))
                | (s, Inr _) \<Rightarrow>
                    let w2 = w1\<lparr>wk_store := s\<rparr>;
                        (w3, res) = (if (if mp_cross mp then mp_will_be_private mp \<and> mp_eff_changed mp else mp_eff_changed mp)
                                     then apply_move_privacy_boundary (pe_store env) (mp_page mp) (mp_will_be_private mp)
                                            (\<not> mp_cross mp) w2
                                     else (w2, Inr ()))
                    in (case res of
                          Inl e \<Rightarrow> (w3, Inl e)
                        | Inr _ \<Rightarrow> (w3\<lparr>wk_events := wk_events w3 @ [(''page.moved'', mp_page mp)]\<rparr>, Inr ()))))"

definition move_page ::
  "'s page_env \<Rightarrow> string \<Rightarrow> string \<Rightarrow> string option \<Rightarrow> string option \<Rightarrow> string option \<Rightarrow> 's wiki
   \<Rightarrow> ('s wiki \<times> (page_error + unit)) option" where
  "move_page env user i parent after_id space w =
     (case move_prepare env user i parent after_id space w of
        Inl e \<Rightarrow> Some (w, Inl e)
      | Inr mp \<Rightarrow> move_commit env mp w)"

subsection \<open>The tree invariant\<close>

text \<open>
  A sound table: unique ids, at most \<open>MAX_PAGE_DEPTH\<close> ancestors each (so no cycle), and every parent
  an existing row of the same space.
\<close>

definition space_of :: "tree_row list \<Rightarrow> string \<Rightarrow> string option" where
  "space_of rows i = map_option tr_space (row_of rows i)"

definition sound_tree :: "tree_row list \<Rightarrow> bool" where
  "sound_tree rows \<longleftrightarrow> keyed_rows rows \<and> shallow rows \<and>
     (\<forall>i p. parent_of rows i = Some p \<longrightarrow> (\<exists>sp. space_of rows p = Some sp \<and> space_of rows i = Some sp))"

lemma row_of_map:
  assumes "\<And>r. tr_id (f r) = tr_id r"
  shows "row_of (map f rows) i = map_option f (row_of rows i)"
  unfolding row_of_def using assms by (induction rows) auto

lemma keyed_map: "(\<And>r. tr_id (f r) = tr_id r) \<Longrightarrow> keyed_rows (map f rows) = keyed_rows rows"
  by (simp add: keyed_rows_def comp_def)

lemma sound_map:
  assumes "sound_tree rows" and "\<And>r. tr_id (f r) = tr_id r" "\<And>r. tr_parent (f r) = tr_parent r" "\<And>r. tr_space (f r) = tr_space r"
  shows "sound_tree (map f rows)"
proof -
  have "parent_of (map f rows) = parent_of rows"
    using assms(3) by (auto simp: parent_of_def row_of_map [OF assms(2)] fun_eq_iff split: option.splits)
  moreover have "space_of (map f rows) = space_of rows"
    using assms(4) by (simp add: space_of_def row_of_map [OF assms(2)] fun_eq_iff option.map_comp comp_def)
  ultimately show ?thesis using assms(1) unfolding sound_tree_def keyed_map [OF assms(2)] shallow_def by presburger
qed

lemma rebalance_sound:
  assumes "sound_tree rows" "compute_position rnd sp par x after_id rows = Some (rows', pos)"
  shows "sound_tree rows' \<and> (\<exists>f. rows' = map f rows \<and> (\<forall>r. tr_id (f r) = tr_id r \<and> tr_parent (f r) = tr_parent r \<and> tr_space (f r) = tr_space r))"
proof -
  have "rows' = rows \<or> (\<exists>fresh. rebalance_siblings sp par x rows = (rows', fresh))"
    using assms(2) by (auto simp: compute_position_def split: option.splits if_splits prod.splits)
  then show ?thesis
  proof
    assume "rows' = rows"
    then show ?thesis using assms(1) by (auto intro!: exI [of _ id])
  next
    assume "\<exists>fresh. rebalance_siblings sp par x rows = (rows', fresh)"
    then obtain fresh where "rows' = map (assign fresh) rows"
      using rebalance_rows assms(1) unfolding sound_tree_def by blast
    then show ?thesis using sound_map [OF assms(1), of "assign fresh"] by auto
  qed
qed

lemma place_fields [simp]:
  "tr_id (place i p x r) = tr_id r" "tr_space (place i p x r) = tr_space r" "tr_parent (place i p x r) = p"
  by (simp_all add: place_def)

lemma parent_of_place:
  assumes "row_of rows i \<noteq> None"
  shows "parent_of (update_row i (place i p x) rows) = (parent_of rows)(i := p)"
proof
  fix j
  have "row_of (update_row i (place i p x) rows) j = map_option (\<lambda>r. if tr_id r = i then place i p x r else r) (row_of rows j)"
    unfolding update_row_def by (rule row_of_map) simp
  moreover have "row_of rows j = Some r \<Longrightarrow> tr_id r = j" for r by (auto simp: row_of_def find_Some_iff)
  ultimately show "parent_of (update_row i (place i p x) rows) j = ((parent_of rows)(i := p)) j"
    using assms by (auto simp: parent_of_def split: option.splits)
qed

lemma guards_off:
  assumes "keyed_rows rows" "structural_guards rows i (Some q) = Inr u" "q \<noteq> i"
  shows "up (parent_of rows) n q \<noteq> Some i"
proof
  assume u: "up (parent_of rows) n q = Some i"
  then have "0 < n" using assms(3) by (cases n) auto
  moreover obtain ds where d: "descendant_ids rows i = Inr ds" "q \<notin> set ds"
    using assms(2) by (auto simp: structural_guards_def walk_def split: sum.splits if_splits)
  moreover have "q \<in> set ds \<longleftrightarrow> (\<exists>n. 0 < n \<and> up (parent_of rows) n q = Some i)"
    using descendants_exact [OF assms(1), of i] d(1) by simp
  ultimately show False using u by blast
qed

lemma guarded_move_shallow:
  assumes s: "sound_tree rows" and i: "row_of rows i \<noteq> None" and g: "structural_guards rows i parent = Inr u" and ne: "parent \<noteq> Some i"
  shows "shallow (update_row i (place i parent x) rows)"
proof (cases parent)
  case None
  then show ?thesis using uproot_shallow [of "parent_of rows" MAX_PAGE_DEPTH] s
    unfolding shallow_def parent_of_place [OF i] sound_tree_def by auto
next
  case (Some q)
  have k: "keyed_rows rows" using s by (simp add: sound_tree_def)
  obtain d h where dh: "ancestor_depth rows q = Inr d" "subtree_height rows i = Inr h" "d + 1 + h \<le> MAX_PAGE_DEPTH"
    using g Some by (auto simp: structural_guards_def walk_def split: sum.splits if_splits)
  have "up (parent_of rows) (Suc d) q = None" using ancestors_exact [of rows q] dh(1) by simp
  moreover have "up (parent_of rows) n q \<noteq> Some i" for n using guards_off [OF k g [unfolded Some]] ne Some by simp
  moreover have "up (parent_of rows) n j \<noteq> Some i" if "h < n" for n j using height_bound [OF k i dh(2) that] .
  ultimately show ?thesis
    using reparent_shallow [of "parent_of rows" MAX_PAGE_DEPTH q i d h] s dh(3)
    unfolding shallow_def parent_of_place [OF i] Some sound_tree_def by blast
qed

lemma space_of_place: "space_of (update_row i (place i p x) rows) = space_of rows"
proof -
  have "row_of (update_row i (place i p x) rows) j = map_option (\<lambda>r. if tr_id r = i then place i p x r else r) (row_of rows j)" for j
    unfolding update_row_def by (rule row_of_map) simp
  moreover have "map_option tr_space (map_option (\<lambda>r. if tr_id r = i then place i p x r else r) y) = map_option tr_space y" for y
    by (cases y) simp_all
  ultimately show ?thesis by (simp add: space_of_def fun_eq_iff)
qed

lemma keyed_place: "keyed_rows (update_row i (place i p x) rows) = keyed_rows rows"
  unfolding update_row_def by (rule keyed_map) simp

lemma intra_sound:
  assumes "sound_tree rows" "row_of rows i \<noteq> None" "structural_guards rows i parent = Inr u" "parent \<noteq> Some i"
    and "\<And>p. parent = Some p \<Longrightarrow> space_of rows p = space_of rows i"
  shows "sound_tree (update_row i (place i parent x) rows)"
proof -
  obtain sp where "space_of rows i = Some sp" using assms(2) by (auto simp: space_of_def)
  then have "\<exists>sp. space_of rows p = Some sp \<and> space_of rows j = Some sp" if "((parent_of rows)(i := parent)) j = Some p" for j p
    using that assms(1,5) by (auto simp: sound_tree_def split: if_splits)
  with guarded_move_shallow [OF assms(1-4)] assms(1) show ?thesis
    unfolding sound_tree_def keyed_place space_of_place parent_of_place [OF assms(2)] by blast
qed

text \<open>A subtree changes its space as a whole.\<close>

definition respace :: "string set \<Rightarrow> string \<Rightarrow> tree_row list \<Rightarrow> tree_row list" where
  "respace S sp rows = map (\<lambda>r. if tr_id r \<in> S then r\<lparr>tr_space := sp\<rparr> else r) rows"

lemma respace_fields:
  "row_of (respace S sp rows) i = map_option (\<lambda>r. if tr_id r \<in> S then r\<lparr>tr_space := sp\<rparr> else r) (row_of rows i)"
  unfolding respace_def by (rule row_of_map) simp

lemma parent_of_respace [simp]: "parent_of (respace S sp rows) = parent_of rows"
  by (auto simp: parent_of_def respace_fields fun_eq_iff split: option.splits)

lemma space_of_respace: "space_of (respace S sp rows) i = (if i \<in> S \<and> space_of rows i \<noteq> None then Some sp else space_of rows i)"
proof -
  have "row_of rows i = Some r \<Longrightarrow> tr_id r = i" for r by (auto simp: row_of_def find_Some_iff)
  then show ?thesis by (cases "row_of rows i") (auto simp: space_of_def respace_fields)
qed

lemma keyed_respace [simp]: "keyed_rows (respace S sp rows) = keyed_rows rows"
  unfolding respace_def by (rule keyed_map) simp

text \<open>The walks read ids and parents only.\<close>

lemma guards_map:
  assumes f: "\<And>r. tr_id (f r) = tr_id r" "\<And>r. tr_parent (f r) = tr_parent r"
  shows "structural_guards (map f rows) i p = structural_guards rows i p"
    and "descendant_ids (map f rows) i = descendant_ids rows i"
proof -
  have c: "child_ids (map f rows) = child_ids rows"
    using f by (auto simp: child_ids_def fun_eq_iff filter_map comp_def)
  have l: "levels (map f rows) n ids = levels rows n ids" for n ids
    by (induction n arbitrary: ids) (simp_all add: c)
  have p: "parent_chain (map f rows) n j = parent_chain rows n j" for n j
  proof (induction n arbitrary: j)
    case 0
    show ?case by (subst (1 2) parent_chain.simps) (auto simp: row_of_map [OF f(1)] f(2) split: option.splits)
  next
    case (Suc n)
    then show ?case by (subst (1 2) parent_chain.simps) (auto simp: row_of_map [OF f(1)] f(2) split: option.splits)
  qed
  have rn: "row_of (map f rows) j = None \<longleftrightarrow> row_of rows j = None" for j by (simp add: row_of_map [OF f(1)])
  show d: "descendant_ids (map f rows) j = descendant_ids rows j" for j by (simp add: descendant_ids_def c l)
  have a: "ancestor_depth (map f rows) j = ancestor_depth rows j" for j by (simp only: ancestor_depth_def p)
  have h: "subtree_height (map f rows) j = subtree_height rows j" for j by (simp only: subtree_height_def l rn)
  show "structural_guards (map f rows) i p = structural_guards rows i p" by (simp only: structural_guards_def d a h)
qed

lemma cross_sound:
  assumes s: "sound_tree rows" and i: "row_of rows i \<noteq> None" and g: "structural_guards rows i parent = Inr u" and ne: "parent \<noteq> Some i"
    and d: "descendant_ids rows i = Inr ds" and t: "\<And>p. parent = Some p \<Longrightarrow> space_of rows p = Some sp"
  shows "sound_tree (update_row i (place i parent x) (respace (set (i # ds)) sp rows))"
proof -
  let ?S = "set (i # ds)" and ?rows = "respace (set (i # ds)) sp rows"
  have k: "keyed_rows rows" using s by (simp add: sound_tree_def)
  have i': "row_of ?rows i \<noteq> None" using i by (simp add: respace_fields)
  have below: "j \<in> ?S \<longleftrightarrow> (\<exists>n. up (parent_of rows) n j = Some i)" for j
  proof -
    have "j \<in> set ds \<longleftrightarrow> (\<exists>n. 0 < n \<and> up (parent_of rows) n j = Some i)" using descendants_exact [OF k, of i] d by simp
    moreover have "up (parent_of rows) 0 j = Some i \<longleftrightarrow> j = i" by simp
    ultimately show ?thesis by (metis gr0I list.set_intros(1,2) set_ConsD)
  qed
  have sh: "shallow (update_row i (place i parent x) ?rows)"
  proof -
    have "shallow (update_row i (place i parent x) rows)" by (rule guarded_move_shallow [OF s i g ne])
    then show ?thesis unfolding shallow_def parent_of_place [OF i] parent_of_place [OF i'] by simp
  qed
  have "\<exists>y. space_of ?rows p = Some y \<and> space_of ?rows j = Some y"
    if "((parent_of rows)(i := parent)) j = Some p" for j p
  proof (cases "j = i")
    case True
    then have p: "parent = Some p" using that by simp
    have "space_of rows i \<noteq> None" using i by (simp add: space_of_def)
    with t [OF p] True show ?thesis unfolding space_of_respace by auto
  next
    case False
    then have par: "parent_of rows j = Some p" using that by simp
    have "up (parent_of rows) (Suc n) j = up (parent_of rows) n p" for n using par by simp
    then have "(\<exists>n. 0 < n \<and> up (parent_of rows) n j = Some i) \<longleftrightarrow> p \<in> ?S" unfolding below by (metis Suc_pred zero_less_Suc)
    moreover have "(\<exists>n. 0 < n \<and> up (parent_of rows) n j = Some i) \<longleftrightarrow> j \<in> ?S"
      unfolding below using False by (metis gr0I option.inject up.simps(1))
    ultimately have "p \<in> ?S \<longleftrightarrow> j \<in> ?S" by blast
    moreover obtain y where "space_of rows p = Some y" "space_of rows j = Some y" using s par unfolding sound_tree_def by blast
    ultimately show ?thesis unfolding space_of_respace by auto
  qed
  with sh k show ?thesis
    unfolding sound_tree_def keyed_place space_of_place parent_of_place [OF i'] parent_of_respace keyed_respace by blast
qed

end
