(* ===== verification/Wk_Trash.thy ===== *)
theory Wk_Trash
  imports Wk_Page_Move "HOL-Library.List_Lexorder" "HOL-Library.Char_ord"
begin

section \<open>The page trash\<close>

text \<open>
  Models the trash of \<open>apps/server/src/routes/pages.ts\<close>: \<open>trashPage\<close>, \<open>restorePage\<close>, \<open>purgePage\<close>,
  \<open>listSpaceTrash\<close>, \<open>deletePage\<close>, \<open>directDeletePage\<close>, \<open>physicalDeletePage\<close> and one tenant's pass of
  \<open>sweepExpiredTrash\<close>. \<open>committed\<close> is the answer of the database to the transaction of a call; one that
  fails leaves the rows and the outbox as they were. Times are milliseconds. Titles, \<open>deleted_by\<close>, and
  the rows of pins, watches, role assignments and the audit ledger are left out.
\<close>

subsection \<open>Which pathways exist\<close>

datatype delete_mode = TrashOnly | BothPaths | DirectOnly

definition resolve_delete_mode :: "(string option \<times> string option) option \<Rightarrow> delete_mode" where
  \<comment> \<open>the space's override and the tenant's default, when the space's row exists\<close>
  "resolve_delete_mode row =
     (let v = (case row of
                 None \<Rightarrow> ''trash_only''
               | Some (mode, tenant_mode) \<Rightarrow> nullish (nullish ''trash_only'' tenant_mode) mode)
      in if v = ''both'' then BothPaths else if v = ''direct_only'' then DirectOnly else TrashOnly)"

definition TRASHED_MARKERS :: "string \<Rightarrow> tuple list" where
  "TRASHED_MARKERS i = [tuple_key ''user:*'' ''trashed'' i, tuple_key ''share_link:*'' ''trashed'' i]"

subsection \<open>Trashing\<close>

fun mark_all :: "'s tuple_store \<Rightarrow> string list \<Rightarrow> 's \<Rightarrow> 's \<times> (store_error + unit)" where
  "mark_all st [] s = (s, Inr ())"
| "mark_all st (i # ids) s =
     (case write_tuples st (map plain_tuple (TRASHED_MARKERS i)) s of
        (s1, Inl err) \<Rightarrow> if is_already_converged err then mark_all st ids s1 else (s1, Inl err)
      | (s1, Inr _) \<Rightarrow> mark_all st ids s1)"

fun unmark_best_effort :: "'s tuple_store \<Rightarrow> string list \<Rightarrow> 's \<Rightarrow> 's" where
  "unmark_best_effort st [] s = s"
| "unmark_best_effort st (i # ids) s = unmark_best_effort st ids (fst (delete_tuples st (TRASHED_MARKERS i) s))"

definition stamp :: "string set \<Rightarrow> string \<Rightarrow> nat \<Rightarrow> tree_row list \<Rightarrow> tree_row list" where
  "stamp ids trash_root now rows =
     map (\<lambda>r. if tr_id r \<in> ids then r\<lparr>tr_deleted := Some now, tr_deleted_root := Some trash_root\<rparr> else r) rows"

definition fresh_ids :: "tree_row list \<Rightarrow> string list \<Rightarrow> string list" where
  "fresh_ids rows subtree = map tr_id (filter (\<lambda>r. tr_id r \<in> set subtree \<and> tr_deleted_root r = None) rows)"

definition removals :: "string list \<Rightarrow> search_intent list" where
  "removals ids = map (\<lambda>i. \<lparr>si_page = i, si_op = DeleteDocOp\<rparr>) ids"

definition trash_page ::
  "'s page_env \<Rightarrow> (string \<Rightarrow> (string option \<times> string option) option) \<Rightarrow> string \<Rightarrow> string \<Rightarrow> bool \<Rightarrow> nat \<Rightarrow> 's wiki
   \<Rightarrow> 's wiki \<times> (page_error + unit)" where
  "trash_page env modes user i committed now w =
     (if \<not> can_on env w user Delete PageR i then (w, Inl PageForbidden)
      else case row_of (wk_rows w) i of
        None \<Rightarrow> (w, Inl PageNotFound)
      | Some r \<Rightarrow>
        if nonempty (tr_deleted_root r) \<noteq> None then (w, Inr ())
        else if resolve_delete_mode (modes (tr_space r)) = DirectOnly then (w, Inl TrashDisabled)
        else case walk (descendant_ids (wk_rows w) i) of
          Inl e \<Rightarrow> (w, Inl e)
        | Inr ds \<Rightarrow>
          let fresh = fresh_ids (wk_rows w) (i # ds)
          in if fresh = [] then (w, Inr ())
             else case mark_all (pe_store env) fresh (wk_store w) of
               (s, Inl err) \<Rightarrow> (w\<lparr>wk_store := s\<rparr>, Inl (StoreRefused err))
             | (s, Inr _) \<Rightarrow>
                 if committed
                 then (w\<lparr>wk_store := s, wk_rows := stamp (set fresh) i now (wk_rows w),
                         wk_outbox := wk_outbox w @ removals fresh,
                         wk_events := wk_events w @ [(''page.trashed'', i)]\<rparr>, Inr ())
                 else (w\<lparr>wk_store := unmark_best_effort (pe_store env) fresh s\<rparr>, Inl RowsNotWritten))"

subsection \<open>Restoring\<close>

fun unmark_all :: "'s tuple_store \<Rightarrow> string list \<Rightarrow> 's \<Rightarrow> 's \<times> (store_error + unit)" where
  "unmark_all st [] s = (s, Inr ())"
| "unmark_all st (i # ids) s =
     (case delete_tuples st (TRASHED_MARKERS i) s of
        (s1, Inl err) \<Rightarrow> if is_already_converged err then unmark_all st ids s1 else (s1, Inl err)
      | (s1, Inr _) \<Rightarrow> unmark_all st ids s1)"

definition riding :: "string \<Rightarrow> tree_row list \<Rightarrow> tree_row list" where
  "riding i rows = filter (\<lambda>r. tr_deleted_root r = Some i) rows"

definition unstamp :: "string \<Rightarrow> tree_row list \<Rightarrow> tree_row list" where
  "unstamp i rows =
     map (\<lambda>r. if tr_deleted_root r = Some i then r\<lparr>tr_deleted := None, tr_deleted_root := None\<rparr> else r) rows"

definition is_trash_root :: "tree_row list \<Rightarrow> string \<Rightarrow> tree_row option" where
  "is_trash_root rows i =
     (case row_of rows i of None \<Rightarrow> None | Some r \<Rightarrow> if tr_deleted_root r = Some i then Some r else None)"

definition restore_page ::
  "'s page_env \<Rightarrow> string \<Rightarrow> string \<Rightarrow> bool \<Rightarrow> 's wiki \<Rightarrow> 's wiki \<times> (page_error + bool)" where
  \<comment> \<open>the answer is \<open>reparented\<close>\<close>
  "restore_page env user i committed w =
     (if \<not> can_on env w user Delete PageR i then (w, Inl PageNotFound)
      else case is_trash_root (wk_rows w) i of
        None \<Rightarrow> (w, Inl PageNotFound)
      | Some r \<Rightarrow>
          let rows = riding i (wk_rows w)
          in case unmark_all (pe_store env) (map tr_id rows) (wk_store w) of
               (s, Inl err) \<Rightarrow> (w\<lparr>wk_store := s\<rparr>, Inl (StoreRefused err))
             | (s, Inr _) \<Rightarrow>
                 let reparented = (case nonempty (tr_parent r) of
                                     None \<Rightarrow> False
                                   | Some p \<Rightarrow> (case row_of (wk_rows w) p of
                                                  None \<Rightarrow> True | Some q \<Rightarrow> tr_deleted q \<noteq> None));
                     rows1 = unstamp i (wk_rows w);
                     rows2 = (if reparented then update_row i (tr_parent_update (\<lambda>_. None)) rows1 else rows1)
                 in if committed
                    then (w\<lparr>wk_store := s, wk_rows := rows2,
                            wk_outbox := wk_outbox w @ upserts (map tr_id (filter tr_published rows)),
                            wk_events := wk_events w @ [(''page.trash_restored'', i)]\<rparr>, Inr reparented)
                    else (w\<lparr>wk_store := s\<rparr>, Inl RowsNotWritten))"

subsection \<open>Deleting for good\<close>

fun sweep_objects :: "'s tuple_store \<Rightarrow> string list \<Rightarrow> 's \<Rightarrow> ('s \<times> (store_error + unit)) option" where
  "sweep_objects st [] s = Some (s, Inr ())"
| "sweep_objects st (i # ids) s =
     (case delete_object_tuples st (''page:'' @ i) s of
        None \<Rightarrow> None
      | Some (s1, Inl err) \<Rightarrow> Some (s1, Inl err)
      | Some (s1, Inr _) \<Rightarrow> sweep_objects st ids s1)"

definition physical_delete_page ::
  "'s page_env \<Rightarrow> string \<Rightarrow> bool \<Rightarrow> 's wiki \<Rightarrow> ('s wiki \<times> (page_error + unit)) option" where
  \<comment> \<open>the delete of the row cascades to the rows below it\<close>
  "physical_delete_page env i committed w =
     (case walk (descendant_ids (wk_rows w) i) of
        Inl e \<Rightarrow> Some (w, Inl e)
      | Inr ds \<Rightarrow>
          (case sweep_objects (pe_store env) (i # ds) (wk_store w) of
             None \<Rightarrow> None
           | Some (s, Inl err) \<Rightarrow> Some (w\<lparr>wk_store := s\<rparr>, Inl (StoreRefused err))
           | Some (s, Inr _) \<Rightarrow>
               Some (if committed
                     then (w\<lparr>wk_store := s, wk_rows := filter (\<lambda>r. tr_id r \<notin> set (i # ds)) (wk_rows w),
                             wk_outbox := wk_outbox w @ removals (i # ds),
                             wk_events := wk_events w @ [(''page.deleted'', i)]\<rparr>, Inr ())
                     else (w\<lparr>wk_store := s\<rparr>, Inl RowsNotWritten))))"

definition delete_page ::
  "'s page_env \<Rightarrow> string \<Rightarrow> string \<Rightarrow> bool \<Rightarrow> 's wiki \<Rightarrow> ('s wiki \<times> (page_error + unit)) option" where
  "delete_page env user i committed w =
     (if \<not> can_on env w user Delete PageR i then Some (w, Inl PageForbidden)
      else physical_delete_page env i committed w)"

definition purge_page ::
  "'s page_env \<Rightarrow> string \<Rightarrow> string \<Rightarrow> bool \<Rightarrow> 's wiki \<Rightarrow> ('s wiki \<times> (page_error + unit)) option" where
  "purge_page env user i committed w =
     (if \<not> can_on env w user Delete PageR i then Some (w, Inl PageNotFound)
      else if is_trash_root (wk_rows w) i = None then Some (w, Inl PageNotFound)
      else delete_page env user i committed w)"

definition direct_delete_page ::
  "'s page_env \<Rightarrow> (string \<Rightarrow> (string option \<times> string option) option) \<Rightarrow> string \<Rightarrow> string \<Rightarrow> bool \<Rightarrow> 's wiki
   \<Rightarrow> ('s wiki \<times> (page_error + unit)) option" where
  "direct_delete_page env modes user i committed w =
     (if \<not> can_on env w user Delete PageR i then Some (w, Inl PageForbidden)
      else case row_of (wk_rows w) i of
        None \<Rightarrow> Some (w, Inl PageNotFound)
      | Some r \<Rightarrow>
          if nonempty (tr_deleted_root r) \<noteq> None then Some (w, Inl PageNotFound)
          else if resolve_delete_mode (modes (tr_space r)) = TrashOnly then Some (w, Inl DirectDisabled)
          else physical_delete_page env i committed w)"

record trash_entry =
  te_id :: string
  te_deleted :: nat
  te_descendants :: nat

definition list_space_trash ::
  "'s page_env \<Rightarrow> string \<Rightarrow> string \<Rightarrow> 's wiki \<Rightarrow> page_error + trash_entry list" where
  \<comment> \<open>newest first, the greater id first among equals\<close>
  "list_space_trash env user space w =
     (if \<not> can_on env w user View SpaceR space then Inl PageNotFound
      else let found = filter (\<lambda>r. tr_space r = space \<and> tr_deleted_root r = Some (tr_id r)) (wk_rows w);
               listed = take 200 (rev (sort_key (\<lambda>r. nullish 0 (tr_deleted r)) (sort_key tr_id found)))
           in Inr (map (\<lambda>r. \<lparr>te_id = tr_id r, te_deleted = nullish 0 (tr_deleted r),
                             te_descendants = length (riding (tr_id r) (wk_rows w)) - 1\<rparr>)
                    (filter (\<lambda>r. can_on env w user Delete PageR (tr_id r)) listed)))"

subsection \<open>The retention sweep\<close>

definition TRASH_RETENTION_DAYS :: nat where "TRASH_RETENTION_DAYS = 30"

fun restamp_orphans :: "string list \<Rightarrow> nat \<Rightarrow> 's wiki \<Rightarrow> 's wiki" where
  "restamp_orphans [] now w = w"
| "restamp_orphans (i # ids) now w =
     restamp_orphans ids now
       (w\<lparr>wk_rows := map (\<lambda>r. if tr_id r = i \<and> tr_deleted r = None
                              then r\<lparr>tr_deleted := Some now, tr_deleted_root := Some i\<rparr> else r) (wk_rows w),
          wk_outbox := wk_outbox w @ removals [i]\<rparr>)"

fun purge_roots :: "'s page_env \<Rightarrow> (string \<Rightarrow> bool) \<Rightarrow> string list \<Rightarrow> nat \<Rightarrow> 's wiki \<Rightarrow> ('s wiki \<times> nat \<times> bool) option" where
  \<comment> \<open>the count so far; the first failure ends the tenant's pass\<close>
  "purge_roots env committed [] n w = Some (w, n, True)"
| "purge_roots env committed (i # ids) n w =
     (case physical_delete_page env i (committed i) w of
        None \<Rightarrow> None
      | Some (w1, Inl _) \<Rightarrow> Some (w1, n, False)
      | Some (w1, Inr _) \<Rightarrow> purge_roots env committed ids (Suc n) w1)"

definition sweep_tenant_trash :: "'s page_env \<Rightarrow> (string \<Rightarrow> bool) \<Rightarrow> string list \<Rightarrow> nat \<Rightarrow> 's wiki \<Rightarrow> ('s wiki \<times> nat \<times> bool) option" where
  \<comment> \<open>\<open>marked\<close> are the pages that carry the marker in the store\<close>
  "sweep_tenant_trash env committed marked now w =
     (let orphans = map tr_id (filter (\<lambda>r. tr_id r \<in> set marked \<and> tr_deleted r = None) (wk_rows w));
          w1 = restamp_orphans orphans now w;
          expired = map tr_id (filter (\<lambda>r. tr_deleted_root r = Some (tr_id r) \<and>
             (case tr_deleted r of None \<Rightarrow> False | Some d \<Rightarrow> d + TRASH_RETENTION_DAYS * 86400000 < now)) (wk_rows w1))
      in purge_roots env committed expired 0 w1)"

end
