(* ===== verification/Wk_Page_Laws.thy ===== *)
theory Wk_Page_Laws
  imports Wk_Trash
begin

section \<open>Laws of the page tree and its links\<close>

text \<open>
  The operations of \<open>Wk_Page_Move\<close> and \<open>Wk_Trash\<close> as one step relation, run one at a time, and what
  every run keeps: a sound tree, and in the authorization store no page linked to a space other than
  its own. Then the two ways the code breaks the agreement of the table and the store.
\<close>

subsection \<open>Rows added and removed\<close>

lemma parent_of_space: "sound_tree rows \<Longrightarrow> parent_of rows j = Some p \<Longrightarrow> \<exists>sp. space_of rows p = Some sp \<and> space_of rows j = Some sp"
  by (simp add: sound_tree_def)


lemma row_of_append:
  "row_of rows (tr_id r) = None \<Longrightarrow> row_of (rows @ [r]) j = (if j = tr_id r then Some r else row_of rows j)"
  unfolding row_of_def by (induction rows) auto

lemma row_of_None: "row_of rows i = None \<longleftrightarrow> i \<notin> tr_id ` set rows"
  unfolding row_of_def by (auto simp: find_None_iff)

lemma append_sound:
  assumes s: "sound_tree rows" and n: "row_of rows (tr_id r) = None"
    and p: "\<And>p. tr_parent r = Some p \<Longrightarrow> space_of rows p = Some (tr_space r) \<and>
      (\<exists>d. ancestor_depth rows p = Inr d \<and> d + 1 \<le> MAX_PAGE_DEPTH)"
  shows "sound_tree (rows @ [r])"
proof -
  let ?i = "tr_id r"
  have par: "parent_of (rows @ [r]) = (parent_of rows)(?i := tr_parent r)"
    by (rule ext) (simp add: parent_of_def row_of_append [OF n])
  have sp: "space_of (rows @ [r]) j = (if j = ?i then Some (tr_space r) else space_of rows j)" for j
    by (simp add: space_of_def row_of_append [OF n])
  have none: "space_of rows ?i = None" using n by (simp add: space_of_def)
  have up_i: "up (parent_of rows) m j \<noteq> Some ?i" if "0 < m" for m j
  proof
    assume u: "up (parent_of rows) m j = Some ?i"
    obtain m' where m: "m = Suc m'" using \<open>0 < m\<close> by (cases m) auto
    with u obtain x where "parent_of rows x = Some ?i" by (auto simp: up_Suc_last simp del: up.simps split: option.splits)
    with parent_of_space [OF s] none show False by fastforce
  qed
  have sh: "shallow (rows @ [r])"
  proof (cases "tr_parent r")
    case None
    then show ?thesis using uproot_shallow [of "parent_of rows" MAX_PAGE_DEPTH] s
      unfolding shallow_def par sound_tree_def by simp
  next
    case (Some q)
    from p [OF Some] obtain d where d: "ancestor_depth rows q = Inr d" "d + 1 + 0 \<le> MAX_PAGE_DEPTH" and q: "space_of rows q \<noteq> None" by auto
    have "up (parent_of rows) (Suc d) q = None" using ancestors_exact [of rows q] d(1) by simp
    moreover have "up (parent_of rows) m q \<noteq> Some ?i" for m
      using up_i [of m q] q none by (cases m) auto
    ultimately show ?thesis
      using reparent_shallow [of "parent_of rows" MAX_PAGE_DEPTH q ?i d 0] s d(2) up_i
      unfolding shallow_def par Some sound_tree_def by blast
  qed
  have k: "keyed_rows (rows @ [r])" using s n by (auto simp: sound_tree_def keyed_rows_def row_of_None)
  have "\<exists>y. space_of (rows @ [r]) q = Some y \<and> space_of (rows @ [r]) j = Some y" if "((parent_of rows)(?i := tr_parent r)) j = Some q" for j q
  proof (cases "j = ?i")
    case True
    with that p [of q] none show ?thesis by (auto simp: sp)
  next
    case False
    with that parent_of_space [OF s, of j q] none show ?thesis by (auto simp: sp)
  qed
  with sh k show ?thesis unfolding sound_tree_def par by blast
qed

lemma below_iff:
  assumes "keyed_rows rows" "descendant_ids rows i = Inr ds"
  shows "j \<in> set (i # ds) \<longleftrightarrow> (\<exists>n. up (parent_of rows) n j = Some i)"
proof -
  have "j \<in> set ds \<longleftrightarrow> (\<exists>n. 0 < n \<and> up (parent_of rows) n j = Some i)" using descendants_exact [OF assms(1), of i] assms(2) by simp
  moreover have "up (parent_of rows) 0 j = Some i \<longleftrightarrow> j = i" by simp
  ultimately show ?thesis by (metis gr0I list.set_intros(1,2) set_ConsD)
qed

lemma row_of_filter: "row_of (filter (\<lambda>r. tr_id r \<notin> S) rows) j = (if j \<in> S then None else row_of rows j)"
  unfolding row_of_def by (induction rows) auto

lemma delete_sound:
  assumes s: "sound_tree rows" and d: "descendant_ids rows i = Inr ds"
  shows "sound_tree (filter (\<lambda>r. tr_id r \<notin> set (i # ds)) rows)" (is "sound_tree ?rows")
proof -
  let ?S = "set (i # ds)"
  have k: "keyed_rows rows" using s by (simp add: sound_tree_def)
  have par: "parent_of ?rows j = (if j \<in> ?S then None else parent_of rows j)" for j
    unfolding parent_of_def row_of_filter by simp
  have sp: "space_of ?rows j = (if j \<in> ?S then None else space_of rows j)" for j
    unfolding space_of_def row_of_filter by simp
  have closed: "j \<in> ?S" if par_j: "parent_of rows j = Some p" and in_S: "p \<in> ?S" for j p
  proof -
    obtain n where "up (parent_of rows) n p = Some i" using in_S unfolding below_iff [OF k d] by blast
    then have "up (parent_of rows) (Suc n) j = Some i" using par_j by simp
    then show ?thesis unfolding below_iff [OF k d] by blast
  qed
  have up: "up (parent_of ?rows) n j = (if j \<in> ?S then up (\<lambda>_. None) n j else up (parent_of rows) n j)" for n j
  proof (induction n arbitrary: j)
    case (Suc n)
    show ?case
    proof (cases "j \<in> ?S")
      case False
      have "p \<notin> ?S" if "parent_of rows j = Some p" for p using closed [OF that] False by blast
      then have "up (parent_of ?rows) n p = up (parent_of rows) n p" if "parent_of rows j = Some p" for p using that Suc.IH [of p] by presburger
      moreover have "parent_of ?rows j = parent_of rows j" using False par by simp
      ultimately show ?thesis using False by (cases "parent_of rows j") simp_all
    qed (simp add: par del: list.set)
  qed simp
  have "up (parent_of ?rows) (Suc MAX_PAGE_DEPTH) j = None" for j
  proof -
    have "up (parent_of rows) (Suc MAX_PAGE_DEPTH) j = None" using s unfolding sound_tree_def shallow_def by blast
    moreover have "up (\<lambda>_. None) (Suc MAX_PAGE_DEPTH) j = None" by simp
    ultimately show ?thesis unfolding up by presburger
  qed
  then have "shallow ?rows" unfolding shallow_def by blast
  moreover have "keyed_rows ?rows" using k by (simp add: keyed_rows_def distinct_map_filter)
  moreover have "\<exists>y. space_of ?rows p = Some y \<and> space_of ?rows j = Some y" if "parent_of ?rows j = Some p" for j p
  proof -
    have "j \<notin> ?S" "parent_of rows j = Some p" using that unfolding par by (auto split: if_splits)
    moreover then have "p \<notin> ?S" using closed by blast
    ultimately show ?thesis using parent_of_space [OF s] unfolding sp by simp
  qed
  ultimately show ?thesis unfolding sound_tree_def by blast
qed

lemma uproot_sound:
  assumes s: "sound_tree rows" and i: "row_of rows i \<noteq> None"
  shows "sound_tree (update_row i (tr_parent_update (\<lambda>_. None)) rows)" (is "sound_tree ?rows")
proof -
  have r: "row_of ?rows j = map_option (\<lambda>r. if tr_id r = i then tr_parent_update (\<lambda>_. None) r else r) (row_of rows j)" for j
    unfolding update_row_def by (rule row_of_map) simp
  have id: "row_of rows j = Some r \<Longrightarrow> tr_id r = j" for r j by (auto simp: row_of_def find_Some_iff)
  have par: "parent_of ?rows = (parent_of rows)(i := None)"
    using id by (auto simp: fun_eq_iff parent_of_def r split: option.splits)
  have sp: "space_of ?rows = space_of rows"
    by (auto simp: fun_eq_iff space_of_def r option.map_comp comp_def intro!: arg_cong2 [of _ _ _ _ map_option])
  have "keyed_rows ?rows" using s unfolding update_row_def sound_tree_def by (subst keyed_map) simp_all
  moreover have "shallow ?rows" using uproot_shallow [of "parent_of rows" MAX_PAGE_DEPTH] s unfolding shallow_def par sound_tree_def by simp
  ultimately show ?thesis using s unfolding sound_tree_def par sp by (auto split: if_splits)
qed

subsection \<open>What a move does to the rows\<close>

lemma boundary_rows: "wk_rows (fst (apply_move_privacy_boundary st i strip reindex w)) = wk_rows w"
  by (auto simp: apply_move_privacy_boundary_def Let_def split: sum.splits prod.splits)

definition moved_rows :: "'s page_env \<Rightarrow> move_plan \<Rightarrow> tree_row list \<Rightarrow> tree_row list \<Rightarrow> bool" where
  \<comment> \<open>the rows a transaction of the plan commits\<close>
  "moved_rows env mp rows rows' \<longleftrightarrow>
     (\<exists>rows1 pos. structural_guards rows (mp_page mp) (mp_parent mp) = Inr () \<and>
        compute_position (pe_rnd env) (mp_target mp) (mp_parent mp) (mp_page mp) (mp_after mp) rows = Some (rows1, pos) \<and>
        (if mp_cross mp
         then \<exists>ds. descendant_ids rows1 (mp_page mp) = Inr ds \<and>
                rows' = update_row (mp_page mp) (place (mp_page mp) (mp_parent mp) pos) (respace (set (mp_page mp # ds)) (mp_target mp) rows1)
         else rows' = update_row (mp_page mp) (place (mp_page mp) (mp_parent mp) pos) rows1))"

lemma walk_Inr: "walk x = Inr y \<longleftrightarrow> x = Inr y"
  by (auto simp: walk_def split: sum.splits)

lemma tx_rows:
  assumes "(if mp_cross mp then move_tx_cross env mp w else move_tx_intra env mp w) = Some (w1, r)"
  shows "wk_rows w1 = wk_rows w \<and> r \<noteq> Inr () \<or> moved_rows env mp (wk_rows w) (wk_rows w1) \<and> r = Inr ()"
proof (cases "mp_cross mp")
  case True
  with assms show ?thesis
    by (auto simp: move_tx_cross_def moved_rows_def respace_def walk_Inr Let_def split: sum.splits option.splits prod.splits)
next
  case False
  with assms show ?thesis
    by (auto simp: move_tx_intra_def moved_rows_def split: sum.splits option.splits prod.splits)
qed

lemma commit_rows:
  assumes "move_commit env mp w = Some (w', r)"
  shows "wk_rows w' = wk_rows w \<or> moved_rows env mp (wk_rows w) (wk_rows w')"
proof -
  obtain w1 r1 where t: "(if mp_cross mp then move_tx_cross env mp w else move_tx_intra env mp w) = Some (w1, r1)"
    using assms by (auto simp: move_commit_def split: option.splits)
  have "wk_rows w' = wk_rows w1"
  proof (cases r1)
    case (Inr u)
    obtain s x where "sync_page_parent_tuple (pe_store env) (mp_page mp) (tr_parent (mp_row mp)) (mp_parent mp) (wk_store w1) = (s, x)" by fastforce
    with assms t Inr show ?thesis
      using boundary_rows [of "pe_store env" "mp_page mp" "mp_will_be_private mp" "\<not> mp_cross mp" "w1\<lparr>wk_store := s\<rparr>"]
      by (auto simp: move_commit_def Let_def split: sum.splits prod.splits if_splits)
  qed (use assms t in \<open>simp add: move_commit_def\<close>)
  with tx_rows [OF t] show ?thesis by auto
qed

lemma prepare_facts:
  assumes "move_prepare env user i parent after_id space w = Inr mp"
  shows "mp_page mp = i \<and> mp_parent mp = parent \<and> mp_after mp = after_id \<and> parent \<noteq> Some i \<and>
    row_of (wk_rows w) i = Some (mp_row mp) \<and> tr_deleted (mp_row mp) = None \<and> mp_cross mp = (mp_target mp \<noteq> tr_space (mp_row mp)) \<and>
    (\<forall>p. parent = Some p \<longrightarrow> space_of (wk_rows w) p = Some (mp_target mp))"
proof -
  obtain r where r: "row_of (wk_rows w) i = Some r" "tr_deleted r = None"
    using assms by (auto simp: move_prepare_def split: option.splits if_splits)
  obtain t where t: "move_target r parent space w = Inr t"
    using assms r by (auto simp: move_prepare_def split: sum.splits)
  have m: "mp_page mp = i \<and> mp_parent mp = parent \<and> mp_after mp = after_id \<and> parent \<noteq> Some i \<and> mp_row mp = r \<and>
      mp_target mp = t \<and> mp_cross mp = (t \<noteq> tr_space r)"
    using assms r t by (auto simp: move_prepare_def Let_def split: if_splits)
  have "space_of (wk_rows w) p = Some t" if "parent = Some p" for p
    using t that by (auto simp: move_target_def space_of_def split: option.splits if_splits)
  with m r show ?thesis by simp
qed

lemma moved_sound:
  assumes s: "sound_tree (wk_rows w)" and p: "move_prepare env user i parent after_id space w = Inr mp"
    and m: "moved_rows env mp (wk_rows w) rows'"
  shows "sound_tree rows'"
proof -
  let ?rows = "wk_rows w"
  note f = prepare_facts [OF p]
  from m f obtain rows1 pos where g: "structural_guards ?rows i parent = Inr ()"
    and c: "compute_position (pe_rnd env) (mp_target mp) parent i after_id ?rows = Some (rows1, pos)"
    and r: "if mp_cross mp then \<exists>ds. descendant_ids rows1 i = Inr ds \<and>
                rows' = update_row i (place i parent pos) (respace (set (i # ds)) (mp_target mp) rows1)
         else rows' = update_row i (place i parent pos) rows1"
    unfolding moved_rows_def by auto
  from rebalance_sound [OF s c] obtain h where s1: "sound_tree rows1" and h: "rows1 = map h ?rows"
    "\<And>r. tr_id (h r) = tr_id r" "\<And>r. tr_parent (h r) = tr_parent r" "\<And>r. tr_space (h r) = tr_space r" by auto
  have g1: "structural_guards rows1 i parent = Inr ()" using guards_map(1) [of h, OF h(2,3)] g h(1) by simp
  have row1: "row_of rows1 j = map_option h (row_of ?rows j)" for j unfolding h(1) by (rule row_of_map [OF h(2)])
  have sp1: "space_of rows1 j = space_of ?rows j" for j
    by (simp add: space_of_def row1 option.map_comp comp_def h(4))
  have i1: "row_of rows1 i \<noteq> None" using f row1 by simp
  have par: "space_of rows1 q = Some (mp_target mp)" if "parent = Some q" for q using f that sp1 by simp
  show ?thesis
  proof (cases "mp_cross mp")
    case True
    with r cross_sound [OF s1 i1 g1] par f show ?thesis by auto
  next
    case False
    have "space_of ?rows i = Some (mp_target mp)" using f False by (simp add: space_of_def)
    then have "space_of rows1 q = space_of rows1 i" if "parent = Some q" for q
      using par [OF that] sp1 [of i] by presburger
    with r False intra_sound [OF s1 i1 g1] f show ?thesis by auto
  qed
qed

lemma move_sound:
  assumes "sound_tree (wk_rows w)" "move_page env user i parent after_id space w = Some (w', r)"
  shows "sound_tree (wk_rows w')"
proof (cases "move_prepare env user i parent after_id space w")
  case (Inr mp)
  with assms commit_rows [of env mp w w' r] moved_sound [OF assms(1) Inr] show ?thesis by (auto simp: move_page_def)
qed (use assms in \<open>auto simp: move_page_def\<close>)

subsection \<open>One operation after the other\<close>

text \<open>An operation that only stamps rows keeps the tree.\<close>

lemma unstamp_sound: "sound_tree rows \<Longrightarrow> sound_tree (unstamp i rows)"
  unfolding unstamp_def by (rule sound_map) auto

lemma stamp_sound: "sound_tree rows \<Longrightarrow> sound_tree (stamp ids t now rows)"
  unfolding stamp_def by (rule sound_map) auto

lemma create_sound:
  assumes "sound_tree (wk_rows w)" "row_of (wk_rows w) i = None" "create_page env user space parent i now w = (w', r)"
  shows "sound_tree (wk_rows w')"
proof (cases "wk_rows w' = wk_rows w")
  case False
  then obtain x where g: "create_guards env user space parent w = Inr ()" and x: "wk_rows w' = wk_rows w @ [x]"
    "tr_id x = i" "tr_space x = space" "tr_parent x = parent"
    using assms(3) by (auto simp: create_page_def Let_def split: sum.splits prod.splits)
  have "space_of (wk_rows w) p = Some space \<and> (\<exists>d. ancestor_depth (wk_rows w) p = Inr d \<and> d + 1 \<le> MAX_PAGE_DEPTH)"
    if "parent = Some p" for p
    using g that by (auto simp: create_guards_def space_of_def walk_def split: option.splits sum.splits if_splits)
  with append_sound [OF assms(1), of x] assms(2) x show ?thesis by simp
qed (use assms in simp)

lemma trash_rows:
  "trash_page env modes user i committed now w = (w', r) \<Longrightarrow>
   wk_rows w' = wk_rows w \<or> (\<exists>ids. wk_rows w' = stamp ids i now (wk_rows w))"
  by (auto simp: trash_page_def Let_def split: option.splits sum.splits prod.splits if_splits)

lemma restore_rows:
  "restore_page env user i committed w = (w', r) \<Longrightarrow>
   wk_rows w' = wk_rows w \<or> wk_rows w' = unstamp i (wk_rows w) \<or>
   row_of (wk_rows w) i \<noteq> None \<and> wk_rows w' = update_row i (tr_parent_update (\<lambda>_. None)) (unstamp i (wk_rows w))"
  by (auto simp: restore_page_def is_trash_root_def Let_def split: option.splits sum.splits prod.splits if_splits)

lemma row_of_unstamp: "row_of rows i \<noteq> None \<Longrightarrow> row_of (unstamp j rows) i \<noteq> None"
  unfolding unstamp_def by (subst row_of_map) auto

lemma restore_sound:
  assumes "sound_tree (wk_rows w)" "restore_page env user i committed w = (w', r)"
  shows "sound_tree (wk_rows w')"
  using restore_rows [OF assms(2)] assms(1) unstamp_sound uproot_sound [OF unstamp_sound [OF assms(1)] row_of_unstamp] by metis

lemma physical_rows:
  "physical_delete_page env i committed w = Some (w', r) \<Longrightarrow>
   wk_rows w' = wk_rows w \<or>
   (\<exists>ds. descendant_ids (wk_rows w) i = Inr ds \<and> wk_rows w' = filter (\<lambda>r. tr_id r \<notin> set (i # ds)) (wk_rows w))"
  by (auto simp: physical_delete_page_def walk_Inr split: option.splits sum.splits prod.splits if_splits)

lemma physical_sound:
  assumes "sound_tree (wk_rows w)" "physical_delete_page env i committed w = Some (w', r)"
  shows "sound_tree (wk_rows w')"
  using physical_rows [OF assms(2)] delete_sound [OF assms(1)] assms(1) by fastforce

lemma restamp_sound: "sound_tree (wk_rows w) \<Longrightarrow> sound_tree (wk_rows (restamp_orphans ids now w))"
proof (induction ids arbitrary: w)
  case (Cons i ids)
  have "sound_tree (map (\<lambda>r. if tr_id r = i \<and> tr_deleted r = None then r\<lparr>tr_deleted := Some now, tr_deleted_root := Some i\<rparr> else r) (wk_rows w))"
    by (rule sound_map [OF Cons.prems]) auto
  with Cons.IH show ?case by simp
qed simp

lemma purge_roots_sound:
  "sound_tree (wk_rows w) \<Longrightarrow> purge_roots env committed ids n w = Some (w', m, b) \<Longrightarrow> sound_tree (wk_rows w')"
proof (induction ids arbitrary: w n)
  case (Cons i ids)
  then obtain w1 r where p: "physical_delete_page env i (committed i) w = Some (w1, r)" by (auto split: option.splits)
  with Cons physical_sound [OF Cons.prems(1) p] show ?case by (cases r) auto
qed simp

text \<open>A step is one operation, run to its end, whatever its answer; a created page has a new id.\<close>

inductive page_step :: "'s page_env \<Rightarrow> 's wiki \<Rightarrow> 's wiki \<Rightarrow> bool" for env :: "'s page_env" where
  created: "row_of (wk_rows w) i = None \<Longrightarrow> create_page env user space parent i now w = (w', r) \<Longrightarrow> page_step env w w'"
| moved: "move_page env user i parent after_id space w = Some (w', r') \<Longrightarrow> page_step env w w'"
| trashed: "trash_page env modes user i committed now w = (w', r') \<Longrightarrow> page_step env w w'"
| restored: "restore_page env user i committed w = (w', r'') \<Longrightarrow> page_step env w w'"
| purged: "purge_page env user i committed w = Some (w', r') \<Longrightarrow> page_step env w w'"
| deleted: "direct_delete_page env modes user i committed w = Some (w', r') \<Longrightarrow> page_step env w w'"
| swept: "sweep_tenant_trash env commits marked now w = Some (w', n, b) \<Longrightarrow> page_step env w w'"

lemma deletes_are_physical:
  "purge_page env user i committed w = Some (w', r) \<Longrightarrow> w' = w \<or> physical_delete_page env i committed w = Some (w', r)"
  "direct_delete_page env modes user i committed w = Some (w', r) \<Longrightarrow> w' = w \<or> physical_delete_page env i committed w = Some (w', r)"
  by (auto simp: purge_page_def delete_page_def direct_delete_page_def split: option.splits if_splits)

lemma step_sound: "page_step env w w' \<Longrightarrow> sound_tree (wk_rows w) \<Longrightarrow> sound_tree (wk_rows w')"
proof (induction rule: page_step.induct)
  case created
  then show ?case using create_sound by metis
next
  case moved
  then show ?case using move_sound by metis
next
  case restored
  then show ?case using restore_sound by metis
next
  case (trashed modes user i committed now w w' r')
  from trash_rows [OF trashed(1)] trashed(2) show ?case by (auto simp: stamp_sound)
next
  case (purged user i committed w w' r')
  from deletes_are_physical(1) [OF purged(1)] show ?case using physical_sound [OF purged(2)] purged(2) by auto
next
  case (deleted modes user i committed w w' r')
  from deletes_are_physical(2) [OF deleted(1)] show ?case using physical_sound [OF deleted(2)] deleted(2) by auto
next
  case (swept commits marked now w w' n b)
  from purge_roots_sound [OF restamp_sound [OF swept(2)]] swept(1) show ?case by (auto simp: sweep_tenant_trash_def Let_def)
qed

subsection \<open>The links of a page\<close>

text \<open>
  A store as its documentation has it: a write that is accepted lands whole, one that is refused lands
  nothing, and a read changes nothing and answers the object's tuples, all of them.
\<close>

definition whole_tuple :: "tuple \<Rightarrow> bool" where
  "whole_tuple t \<longleftrightarrow> tp_user t \<noteq> [] \<and> tp_relation t \<noteq> [] \<and> tp_object t \<noteq> []"

definition exact_store :: "'s tuple_store \<Rightarrow> ('s \<Rightarrow> tuple set) \<Rightarrow> bool" where
  "exact_store st contents \<longleftrightarrow> deletes_soundly st contents \<and>
     (\<forall>s ts s'. ts_write st s ts [] = (s', Inr ()) \<longrightarrow> contents s' = contents s \<union> ti_key ` set ts) \<and>
     (\<forall>s ts s' err. ts_write st s ts [] = (s', Inl err) \<longrightarrow> contents s' = contents s) \<and>
     (\<forall>s ob s' err. read_object_tuples st ob s = Some (s', Inl err) \<longrightarrow> contents s' = contents s) \<and>
     (\<forall>s ob s' ts. read_object_tuples st ob s = Some (s', Inr ts) \<longrightarrow>
        contents s' = contents s \<and> set ts = {t \<in> contents s. tp_object t = ob \<and> whole_tuple t})"



lemma exact_storeD:
  assumes "exact_store st contents"
  shows "deletes_soundly st contents"
    and "ts_write st s ts [] = (s', Inr ()) \<Longrightarrow> contents s' = contents s \<union> ti_key ` set ts"
    and "ts_write st s ts [] = (s', Inl err) \<Longrightarrow> contents s' = contents s"
  subgoal using assms by (simp add: exact_store_def)
  subgoal using conjunct1 [OF conjunct2 [OF assms [unfolded exact_store_def]]] by blast
  subgoal using conjunct1 [OF conjunct2 [OF conjunct2 [OF assms [unfolded exact_store_def]]]] by blast
  done

lemma store_write:
  assumes "exact_store st contents" "write_tuples st ts s = (s', r)"
  shows "contents s' = (if r = Inr () then contents s \<union> ti_key ` set ts else contents s)"
proof -
  obtain s1 x where "ts_write st s ts [] = (s1, x)" by fastforce
  with assms(2) exact_storeD(2,3) [OF assms(1), of s ts s1] show ?thesis
    by (cases x) (auto simp: write_tuples_def)
qed













lemma space_tuple_inject [simp]: "space_tuple a i = space_tuple b j \<longleftrightarrow> a = b \<and> i = j"
  by (auto simp: space_tuple_def tuple_key_def)




















subsection \<open>There and back\<close>

definition refusal_means_absent :: "'s tuple_store \<Rightarrow> ('s \<Rightarrow> tuple set) \<Rightarrow> bool" where
  \<comment> \<open>a delete refused because a tuple does not exist was sent one that does not\<close>
  "refusal_means_absent st contents \<longleftrightarrow>
     (\<forall>s ts s' err. ts_write st s [] ts = (s', Inl err) \<longrightarrow> is_already_converged (as_domain_error err DeleteOp) \<longrightarrow>
        (\<exists>t \<in> set ts. t \<notin> contents s))"

definition markers :: "string set \<Rightarrow> tuple set" where
  "markers M = (\<Union>i \<in> M. set (TRASHED_MARKERS i))"

lemma marker_key: "t \<in> set (TRASHED_MARKERS i) \<Longrightarrow> tp_object t = ''page:'' @ i"
  by (auto simp: TRASHED_MARKERS_def tuple_key_def)

lemma markers_simps [simp]: "markers {} = {}" "markers (insert i M) = set (TRASHED_MARKERS i) \<union> markers M"
  by (auto simp: markers_def)

lemma markers_apart: "j \<notin> M \<Longrightarrow> set (TRASHED_MARKERS j) \<inter> markers M = {}"
  by (auto simp: markers_def dest!: marker_key)

lemma mark_all_contents:
  "exact_store st contents \<Longrightarrow> mark_all st ids s = (s', Inr ()) \<Longrightarrow> \<exists>M \<subseteq> set ids. contents s' = contents s \<union> markers M"
proof (induction ids arbitrary: s)
  case (Cons i ids)
  obtain s1 x where w: "write_tuples st (map plain_tuple (TRASHED_MARKERS i)) s = (s1, x)" by fastforce
  have keys: "ti_key ` set (map plain_tuple (TRASHED_MARKERS i)) = set (TRASHED_MARKERS i)" by (force simp: plain_tuple_def)
  have c1: "contents s1 = contents s \<union> markers (if x = Inr () then {i} else {})"
    using store_write [OF Cons.prems(1) w] keys by simp
  have "mark_all st ids s1 = (s', Inr ())" using Cons.prems(2) w by (auto split: sum.splits if_splits)
  from Cons.IH [OF Cons.prems(1) this] obtain M where M: "M \<subseteq> set ids" "contents s' = contents s1 \<union> markers M" by blast
  have "contents s' = contents s \<union> markers (M \<union> (if x = Inr () then {i} else {}))"
    using M(2) c1 by (auto simp: markers_def)
  with M(1) show ?case by (intro exI [of _ "M \<union> (if x = Inr () then {i} else {})"]) auto
qed (auto simp: markers_def intro!: exI [of _ "{}"])

lemma unmark_all_contents:
  "exact_store st contents \<Longrightarrow> refusal_means_absent st contents \<Longrightarrow> unmark_all st ids s = (s', Inr ()) \<Longrightarrow>
   \<forall>i \<in> set ids. set (TRASHED_MARKERS i) \<subseteq> contents s \<or> set (TRASHED_MARKERS i) \<inter> contents s = {} \<Longrightarrow>
   contents s' = contents s - markers (set ids)"
proof (induction ids arbitrary: s)
  case (Cons i ids)
  obtain s0 y where ts: "ts_write st s [] (TRASHED_MARKERS i) = (s0, y)" by fastforce
  have c: "contents s0 = contents s - set (TRASHED_MARKERS i)" and rest: "unmark_all st ids s0 = (s', Inr ())"
  proof -
    note ds = deletes_soundlyD [OF exact_storeD(1) [OF Cons.prems(1)]]
    have "contents s0 = contents s - set (TRASHED_MARKERS i) \<and> unmark_all st ids s0 = (s', Inr ())"
    proof (cases y)
      case (Inl err)
      then have a: "is_already_converged (as_domain_error err DeleteOp)" and u: "unmark_all st ids s0 = (s', Inr ())"
        using Cons.prems(3) ts by (auto simp: delete_tuples_def split: if_splits)
      have "\<exists>t \<in> set (TRASHED_MARKERS i). t \<notin> contents s"
        using Cons.prems(2) ts Inl a unfolding refusal_means_absent_def by blast
      with Cons.prems(4) have "set (TRASHED_MARKERS i) \<inter> contents s = {}" by auto
      then have "contents s = contents s - set (TRASHED_MARKERS i)" by blast
      with ds(2) [of s "TRASHED_MARKERS i" s0 err] ts Inl u show ?thesis by simp
    next
      case (Inr v)
      with ds(1) [of s "TRASHED_MARKERS i" s0] ts Cons.prems(3) show ?thesis by (simp add: delete_tuples_def)
    qed
    then show "contents s0 = contents s - set (TRASHED_MARKERS i)" "unmark_all st ids s0 = (s', Inr ())" by blast+
  qed
  have "set (TRASHED_MARKERS j) \<subseteq> contents s0 \<or> set (TRASHED_MARKERS j) \<inter> contents s0 = {}" if "j \<in> set ids" for j
  proof (cases "j = i")
    case False
    then have "set (TRASHED_MARKERS j) \<inter> set (TRASHED_MARKERS i) = {}" using markers_apart [of j "{i}"] by simp
    with Cons.prems(4) that c show ?thesis by (metis Diff_disjoint Diff_triv Int_Diff Int_commute inf_le1 le_iff_inf list.set_intros(2))
  qed (use c in auto)
  then have "contents s' = contents s0 - markers (set ids)" using Cons.IH [OF Cons.prems(1,2) rest] by blast
  with c show ?case by auto
qed (auto simp: markers_def)

lemma unstamp_stamp:
  assumes "keyed_rows rows" "\<forall>r \<in> set rows. tr_deleted_root r \<noteq> Some i"
    and "\<forall>r \<in> set rows. tr_deleted_root r = None \<longrightarrow> tr_deleted r = None"
  shows "unstamp i (stamp (set (fresh_ids rows sub)) i now rows) = rows"
    and "map tr_id (riding i (stamp (set (fresh_ids rows sub)) i now rows)) = fresh_ids rows sub"
proof -
  let ?F = "set (fresh_ids rows sub)"
  have in_F: "tr_id r \<in> ?F \<longleftrightarrow> tr_id r \<in> set sub \<and> tr_deleted_root r = None" if "r \<in> set rows" for r
  proof -
    have "x = r" if "x \<in> set rows" "tr_id x = tr_id r" for x
      using assms(1) that \<open>r \<in> set rows\<close> unfolding keyed_rows_def distinct_map inj_on_def by blast
    then show ?thesis using that unfolding fresh_ids_def by (auto simp: image_iff)
  qed
  have "(if tr_deleted_root x = Some i then x\<lparr>tr_deleted := None, tr_deleted_root := None\<rparr> else x) = r"
    if "r \<in> set rows" "x = (if tr_id r \<in> ?F then r\<lparr>tr_deleted := Some now, tr_deleted_root := Some i\<rparr> else r)" for r x
    using that(2) assms(2,3) that(1) in_F [OF that(1)] by (cases r) auto
  then show "unstamp i (stamp ?F i now rows) = rows"
    unfolding unstamp_def stamp_def map_map by (intro map_idI) (simp add: comp_def)
  have "filter (\<lambda>r. tr_deleted_root (if tr_id r \<in> ?F then r\<lparr>tr_deleted := Some now, tr_deleted_root := Some i\<rparr> else r) = Some i) rows =
      filter (\<lambda>r. tr_id r \<in> set sub \<and> tr_deleted_root r = None) rows"
    by (rule filter_cong) (use in_F assms(2) in auto)
  then show "map tr_id (riding i (stamp ?F i now rows)) = fresh_ids rows sub"
    unfolding riding_def stamp_def filter_map by (simp add: comp_def fresh_ids_def)
qed

subsection \<open>A store that keeps a list\<close>

lemma list_store_read: "read_object_tuples list_store ob s = Some (s, Inr (filter (\<lambda>t. tp_object t = ob \<and> whole_tuple t) s))"
proof -
  have "page_tuples \<lparr>rp_tuples = Some (map (\<lambda>t. Some \<lparr>rt_user = Some (tp_user t), rt_relation = Some (tp_relation t),
      rt_object = Some (tp_object t)\<rparr>) ts), rp_token = Some []\<rparr> = filter whole_tuple ts" for ts
    by (induction ts) (auto simp: page_tuples_def map_filter_simps page_tuple_def nonempty_def whole_tuple_def)
  then show ?thesis
    unfolding read_object_tuples_def by (subst read_loop.simps) (simp add: list_store_def nonempty_def filter_filter conj_commute)
qed

lemma list_store_write:
  "ts_write list_store s ws ds =
     (if set ds \<subseteq> set s then (filter (\<lambda>t. t \<notin> set ds) (s @ map ti_key ws), Inr ())
      else (s, Inl \<lparr>er_status = Some 400, er_message = ''Cannot delete a tuple which does not exist''\<rparr>))"
  by (simp add: list_store_def)

lemma list_store_exact: "exact_store list_store set"
  using list_store_sound by (auto simp: exact_store_def list_store_read list_store_write split: if_splits)

lemma list_store_refusals: "refusal_means_absent list_store set"
  by (auto simp: refusal_means_absent_def list_store_def split: if_splits)

definition open_env :: "tuple list page_env" where
  "open_env = \<lparr>pe_store = list_store, pe_can = (\<lambda>_ _ _ _. True), pe_private = (\<lambda>_ _. False), pe_own_private = (\<lambda>_ _. False), pe_rnd = id\<rparr>"

definition small_wiki :: "tree_row list \<Rightarrow> tuple list \<Rightarrow> tuple list wiki" where
  "small_wiki rows ts = \<lparr>wk_rows = rows, wk_home = (\<lambda>_. None), wk_managers_only = (\<lambda>_. False), wk_store = ts, wk_outbox = [], wk_events = []\<rparr>"

lemma open_env_simps [simp]:
  "pe_store open_env = list_store" "can_on open_env w u cap t i = True" "pe_private open_env s i = False"
  "pe_own_private open_env s i = False" "pe_rnd open_env = id"
  by (simp_all add: open_env_def can_on_def)

lemma small_wiki_simps [simp]:
  "wk_rows (small_wiki rows ts) = rows" "wk_home (small_wiki rows ts) = (\<lambda>_. None)"
  "wk_managers_only (small_wiki rows ts) = (\<lambda>_. False)" "wk_store (small_wiki rows ts) = ts"
  by (simp_all add: small_wiki_def)

subsection \<open>Properties\<close>

text \<open>
  C8. The tree stays a tree. Whatever creations, moves, trashings, restores, purges and sweeps run
  one after the other from a sound table, refused ones included, page ids stay unique, no page is
  ever above itself, no page has more than \<open>MAX_PAGE_DEPTH\<close> ancestors, every parent is a page of
  the child's own space, and so no walk ever refuses the tree as corrupt.
\<close>

theorem tree_stays_sound:
  assumes "(page_step env)\<^sup>*\<^sup>* w w'" and "sound_tree (wk_rows w)"
  shows "keyed_rows (wk_rows w') \<and>
    (\<forall>i n. 0 < n \<longrightarrow> up (parent_of (wk_rows w')) n i \<noteq> Some i) \<and>
    (\<forall>i n. MAX_PAGE_DEPTH < n \<longrightarrow> up (parent_of (wk_rows w')) n i = None) \<and>
    (\<forall>i p. parent_of (wk_rows w') i = Some p \<longrightarrow>
       (\<exists>sp. space_of (wk_rows w') p = Some sp \<and> space_of (wk_rows w') i = Some sp)) \<and>
    (\<forall>i. \<exists>ds d. descendant_ids (wk_rows w') i = Inr ds \<and> ancestor_depth (wk_rows w') i = Inr d)"
proof -
  have s: "sound_tree (wk_rows w')" using assms by (induction rule: rtranclp_induct) (auto intro: step_sound)
  let ?par = "parent_of (wk_rows w')"
  have none: "up ?par n i = None" if "MAX_PAGE_DEPTH < n" for n i
    using s up_none_mono [of ?par "Suc MAX_PAGE_DEPTH" i n] that by (simp add: sound_tree_def shallow_def)
  have cyc: "up ?par n i \<noteq> Some i" if "0 < n" for n i
  proof
    assume u: "up ?par n i = Some i"
    have "up ?par (m * n) i = Some i" for m by (induction m) (use u in \<open>simp_all add: up_add\<close>)
    moreover have "Suc MAX_PAGE_DEPTH * 1 \<le> Suc MAX_PAGE_DEPTH * n" using that by (intro mult_le_mono2) simp
    then have "MAX_PAGE_DEPTH < Suc MAX_PAGE_DEPTH * n" by (simp only: mult_1_right Suc_le_eq)
    ultimately show False using none by (metis option.distinct(1))
  qed
  have k: "keyed_rows (wk_rows w')" using s by (simp add: sound_tree_def)
  have cap: "MAX_PAGE_DEPTH < PAGE_TREE_WALK_CAP" by (simp add: PAGE_TREE_WALK_CAP_def)
  have walks: "\<exists>ds d. descendant_ids (wk_rows w') i = Inr ds \<and> ancestor_depth (wk_rows w') i = Inr d" for i
    using descendants_exact [OF k, of i] ancestors_exact [of "wk_rows w'" i] none [OF cap] by (auto split: sum.splits)
  show ?thesis using k cyc none walks parent_of_space [OF s] by blast
qed

theorem tree_stays_sound_witness:
  "\<exists>w' r. create_page open_env ''u'' ''S'' None ''a'' 0 (small_wiki [] []) = (w', Inr r) \<and> tr_id r = ''a'' \<and>
    keyed_rows (wk_rows w') \<and> (\<exists>d. ancestor_depth (wk_rows w') ''a'' = Inr d)"
proof -
  have e: "sound_tree (wk_rows (small_wiki [] []))"
    by (simp add: sound_tree_def keyed_rows_def shallow_def parent_of_def row_of_def)
  obtain w' r where c: "create_page open_env ''u'' ''S'' None ''a'' 0 (small_wiki [] []) = (w', Inr r)" and i: "tr_id r = ''a''"
    by (auto simp: create_page_def create_guards_def last_position_def position_between_def write_tuples_def list_store_def Let_def)
  have "page_step open_env (small_wiki [] []) w'" by (rule page_step.created [OF _ c]) (simp add: row_of_def)
  with tree_stays_sound [OF r_into_rtranclp e] c i show ?thesis by blast
qed


lemma root_depth:
  assumes "row_of rows i = Some r" "tr_parent r = None"
  shows "ancestor_depth rows i = Inr 0"
proof -
  have "parent_chain rows n i = [None]" for n by (subst parent_chain.simps) (simp add: assms)
  then show ?thesis by (simp add: ancestor_depth_def PAGE_TREE_WALK_CAP_def)
qed

lemma levels_none: "levels rows n [] = replicate n []"
  by (induction n) auto

lemma leaf_walks:
  assumes "child_ids rows i = []"
  shows "descendant_ids rows i = Inr []"
  using assms by (simp add: descendant_ids_def levels_none PAGE_TREE_WALK_CAP_def)

lemma two_pages_sound: "sound_tree [plain_row ''a'' None 0, plain_row ''b'' None 0]"
proof -
  let ?rows = "[plain_row ''a'' None 0, plain_row ''b'' None 0]"
  have "parent_of ?rows i = None" for i by (simp add: parent_of_def row_of_def plain_row_def)
  then show ?thesis by (simp add: sound_tree_def keyed_rows_def shallow_def plain_row_def)
qed


text \<open>
  C11. Restoring undoes trashing. Over an exact store, a page trashed with its subtree and then
  restored leaves the store's tuples as they were, and the rows too, save that a page whose parent
  has meanwhile left the tree comes back at the root of its space; pages of the subtree that
  were in the trash before stay there.
\<close>

theorem restore_undoes_trash:
  assumes "exact_store (pe_store env) contents" and "refusal_means_absent (pe_store env) contents"
    and "keyed_rows (wk_rows w)"
    and "\<forall>r \<in> set (wk_rows w). tr_deleted_root r \<noteq> Some i \<and> (tr_deleted_root r = None \<longrightarrow> tr_deleted r = None \<and>
       set (TRASHED_MARKERS (tr_id r)) \<inter> contents (wk_store w) = {})"
    and "trash_page env modes user i committed now w = (w1, Inr ())"
    and "restore_page env user' i committed' w1 = (w2, Inr reparented)"
  shows "contents (wk_store w2) = contents (wk_store w) \<and>
    wk_rows w2 = (if reparented then update_row i (tr_parent_update (\<lambda>_. None)) (wk_rows w) else wk_rows w)"
proof -
  have "is_trash_root (wk_rows w) i = None"
    using assms(4) by (auto simp: is_trash_root_def row_of_def find_Some_iff split: option.splits)
  then have "w1 \<noteq> w" using assms(6) by (auto simp: restore_page_def split: if_splits)
  then obtain ds s where m: "mark_all (pe_store env) (fresh_ids (wk_rows w) (i # ds)) (wk_store w) = (s, Inr ())"
    and w1: "wk_store w1 = s" "wk_rows w1 = stamp (set (fresh_ids (wk_rows w) (i # ds))) i now (wk_rows w)"
    using assms(5) by (auto simp: trash_page_def Let_def split: option.splits sum.splits prod.splits if_splits)
  let ?F = "fresh_ids (wk_rows w) (i # ds)"
  have undone: "unstamp i (wk_rows w1) = wk_rows w" "map tr_id (riding i (wk_rows w1)) = ?F"
    using unstamp_stamp [OF assms(3), of i "i # ds" now] assms(4) unfolding w1 by blast+
  obtain s2 where u: "unmark_all (pe_store env) ?F s = (s2, Inr ())" and w2: "wk_store w2 = s2"
    "wk_rows w2 = (if reparented then update_row i (tr_parent_update (\<lambda>_. None)) (wk_rows w) else wk_rows w)"
    using assms(6) undone w1(1) by (auto simp: restore_page_def Let_def split: option.splits sum.splits prod.splits if_splits)
  from mark_all_contents [OF assms(1) m] obtain M where M: "M \<subseteq> set ?F" "contents s = contents (wk_store w) \<union> markers M" by blast
  have clean: "set (TRASHED_MARKERS j) \<inter> contents (wk_store w) = {}" if "j \<in> set ?F" for j
    using that assms(4) by (auto simp: fresh_ids_def)
  have "set (TRASHED_MARKERS j) \<subseteq> contents s \<or> set (TRASHED_MARKERS j) \<inter> contents s = {}" if "j \<in> set ?F" for j
    using clean [OF that] markers_apart [of j M] M(2) by (cases "j \<in> M") (auto simp: markers_def)
  with unmark_all_contents [OF assms(1,2) u] have "contents s2 = contents s - markers (set ?F)" by blast
  moreover have "markers M \<subseteq> markers (set ?F)" using M(1) by (auto simp: markers_def)
  moreover have "markers (set ?F) \<inter> contents (wk_store w) = {}" using clean unfolding markers_def by blast
  ultimately have "contents s2 = contents (wk_store w)" using M(2) by blast
  with w2 show ?thesis by simp
qed

theorem restore_undoes_trash_witness:
  "\<exists>w1 w2. trash_page open_env (\<lambda>_. None) ''u'' ''a'' True 5 (small_wiki [plain_row ''a'' None 0] [space_tuple ''S'' ''a'']) = (w1, Inr ()) \<and>
    restore_page open_env ''u'' ''a'' True w1 = (w2, Inr False) \<and>
    set (wk_store w2) = {space_tuple ''S'' ''a''} \<and> wk_rows w2 = [plain_row ''a'' None 0]"
proof -
  let ?w = "small_wiki [plain_row ''a'' None 0] [space_tuple ''S'' ''a'']"
  have ex: "exact_store (pe_store open_env) set" "refusal_means_absent (pe_store open_env) set"
    by (simp_all add: list_store_exact list_store_refusals)
  have k: "keyed_rows (wk_rows ?w)" by (simp add: keyed_rows_def)
  have cl: "\<forall>r \<in> set (wk_rows ?w). tr_deleted_root r \<noteq> Some ''a'' \<and> (tr_deleted_root r = None \<longrightarrow> tr_deleted r = None \<and>
      set (TRASHED_MARKERS (tr_id r)) \<inter> set (wk_store ?w) = {})"
    by (simp add: plain_row_def TRASHED_MARKERS_def tuple_key_def space_tuple_def)
  have d: "descendant_ids [plain_row ''a'' None 0] ''a'' = Inr []" by (rule leaf_walks) (simp add: child_ids_def plain_row_def)
  have t: "trash_page open_env (\<lambda>_. None) ''u'' ''a'' True 5 ?w = (fst (trash_page open_env (\<lambda>_. None) ''u'' ''a'' True 5 ?w), Inr ())"
    by (simp add: trash_page_def d [unfolded plain_row_def] walk_def row_of_def plain_row_def resolve_delete_mode_def nonempty_def fresh_ids_def
        write_tuples_def list_store_write TRASHED_MARKERS_def)
  have r: "restore_page open_env ''u'' ''a'' True (fst (trash_page open_env (\<lambda>_. None) ''u'' ''a'' True 5 ?w)) =
      (fst (restore_page open_env ''u'' ''a'' True (fst (trash_page open_env (\<lambda>_. None) ''u'' ''a'' True 5 ?w))), Inr False)"
    by (simp add: restore_page_def trash_page_def d [unfolded plain_row_def] walk_def row_of_def plain_row_def resolve_delete_mode_def nonempty_def fresh_ids_def
        write_tuples_def delete_tuples_def list_store_write TRASHED_MARKERS_def stamp_def is_trash_root_def riding_def
        plain_tuple_def tuple_key_def)
  from restore_undoes_trash [OF ex k cl t r] t r show ?thesis by (intro exI conjI) auto
qed



text \<open>
  C10. A move decides on reads made before it holds the lock. \<open>movePage\<close> takes the destination space
  from a read of the parent outside its transaction, and locks that space only. When the parent
  moves to another space between that read and the transaction, the move still succeeds, and
  leaves a page whose parent is in another space: the two moves are not serialised.
\<close>

theorem stale_move_splits_a_family:
  "\<exists>(w :: tuple list wiki) mp w1 w2. sound_tree (wk_rows w) \<and>
     move_prepare open_env ''alice'' ''a'' (Some ''b'') None None w = Inr mp \<and>
     move_page open_env ''bob'' ''b'' None None (Some ''T'') w = Some (w1, Inr ()) \<and>
     move_commit open_env mp w1 = Some (w2, Inr ()) \<and>
     parent_of (wk_rows w2) ''a'' = Some ''b'' \<and> space_of (wk_rows w2) ''a'' = Some ''S'' \<and> space_of (wk_rows w2) ''b'' = Some ''T''"
proof -
  let ?w = "small_wiki [plain_row ''a'' None 0, plain_row ''b'' None 0] []"
  let ?mp = "\<lparr>mp_page = ''a'', mp_row = plain_row ''a'' None 0, mp_parent = Some ''b'', mp_after = None, mp_target = ''S'',
    mp_cross = False, mp_eff_changed = False, mp_will_be_private = False\<rparr>"
  let ?rows1 = "[plain_row ''a'' None 0, (plain_row ''b'' None 0)\<lparr>tr_space := ''T''\<rparr>]"
  have prep: "move_prepare open_env ''alice'' ''a'' (Some ''b'') None None ?w = Inr ?mp"
    by (simp add: move_prepare_def move_target_def row_of_def plain_row_def Let_def)
  have leaf: "descendant_ids [plain_row ''a'' None 0, plain_row ''b'' None 0] i = Inr []" "descendant_ids ?rows1 i = Inr []" for i
    by (rule leaf_walks, simp add: child_ids_def plain_row_def)+
  have bob: "move_page open_env ''bob'' ''b'' None None (Some ''T'') ?w = Some (?w\<lparr>wk_rows := ?rows1,
      wk_outbox := upserts [''b''], wk_events := [(''page.moved'', ''b'')]\<rparr>, Inr ())"
    using leaf(1) by (simp add: move_page_def move_prepare_def move_target_def move_commit_def move_tx_cross_def row_of_def plain_row_def Let_def
        structural_guards_def compute_position_def siblings_def gap_collapsed_def position_between_def walk_def swap_space_tuples_def
        list_store_read update_row_def place_def sync_page_parent_tuple_def small_wiki_def upserts_def)
  have depth: "ancestor_depth ?rows1 ''b'' = Inr 0"
    by (rule root_depth [where r = "(plain_row ''b'' None 0)\<lparr>tr_space := ''T''\<rparr>"]) (simp_all add: row_of_def plain_row_def)
  have height: "subtree_height ?rows1 ''a'' = Inr 0"
    by (simp add: row_of_def plain_row_def subtree_height_def child_ids_def levels_none PAGE_TREE_WALK_CAP_def)
  have "\<exists>w2. move_commit open_env ?mp (?w\<lparr>wk_rows := ?rows1, wk_outbox := upserts [''b''], wk_events := [(''page.moved'', ''b'')]\<rparr>) = Some (w2, Inr ()) \<and>
      parent_of (wk_rows w2) ''a'' = Some ''b'' \<and> space_of (wk_rows w2) ''a'' = Some ''S'' \<and> space_of (wk_rows w2) ''b'' = Some ''T''"
    using leaf(2) [of "''a''"] depth height
    by (simp add: move_commit_def move_tx_intra_def structural_guards_def walk_def compute_position_def siblings_def gap_collapsed_def
        position_between_def update_row_def place_def sync_page_parent_tuple_def plain_row_def write_tuples_def list_store_write
        parent_of_def row_of_def space_of_def MAX_PAGE_DEPTH_def)
  then obtain w2 where fin: "move_commit open_env ?mp (?w\<lparr>wk_rows := ?rows1, wk_outbox := upserts [''b''], wk_events := [(''page.moved'', ''b'')]\<rparr>) = Some (w2, Inr ())"
    "parent_of (wk_rows w2) ''a'' = Some ''b''" "space_of (wk_rows w2) ''a'' = Some ''S''" "space_of (wk_rows w2) ''b'' = Some ''T''" by blast
  have sound: "sound_tree (wk_rows ?w)" by (simp add: two_pages_sound)
  from sound prep bob fin show ?thesis by blast
qed

end
