(* ===== verification/Spec2Isabelle.thy ===== *)
theory Spec2Isabelle
  imports Wk_Authz_Laws Wk_Rate Wk_Search Wk_Embed Wk_Outbox Wk_Audit Wk_Factor Wk_Entitlements Wk_Store_Binding Wk_Mcp_Edit Wk_Ydoc Wk_Page_Laws
begin

text \<open>
  Wikistead: a verification library.

  The program. Wikistead is a multi-tenant wiki: a Fastify server (\<open>apps/server\<close>), a realtime
  process for the live documents (\<open>apps/collab\<close>), a React client (\<open>apps/web\<close>) and shared packages
  (\<open>packages/*\<close>). The rows are in PostgreSQL, the authorization tuples in OpenFGA, counters and
  messages in Valkey, the search index in Meilisearch. All four are parameters here: a store is a
  record of functions over an abstract state, and what a theorem needs of it is a named hypothesis
  with a concrete store that has it. The code under \<open>src/\<close> is translated; a throw or an early
  return is an \<open>Inl\<close> value, an awaited call returns its state, a loop over a paged read is a
  \<open>partial_function (option)\<close> in which \<open>None\<close> is a read that never ends.

  How the parts interact. Every route asks the authorization primitives, which apply the ambient
  scope and its restriction first. The routes change rows in a transaction and tuples through the
  tuple client, and queue what must follow: tuple deletes and search documents go through outboxes
  that workers drain under a lease. Search and the tree listing read an index or a cache and
  confirm each candidate with the primitives before it is shown. The realtime process asks the same
  primitives at the door and obeys revocations; a connector edits a live document through it.

  Theories and sources.
    \<open>Wk_Prelude\<close>: JavaScript built-ins, shared lemmas. \<open>Wk_Json\<close>, \<open>Wk_Base64\<close>: serialization.
    \<open>Wk_Scope\<close>: \<open>packages/authz/src/scope.ts\<close>, \<open>restriction.ts\<close>, the hooks of \<open>packages/hooks\<close>.
    \<open>Wk_Authz\<close>, \<open>Wk_Authz_Laws\<close>: \<open>packages/authz/src/check.ts\<close>, \<open>degradation.ts\<close>.
    \<open>Wk_Tuples\<close>: \<open>packages/authz/src/tuples.ts\<close>.
    \<open>Wk_Store_Binding\<close>: \<open>packages/authz/src/store-binding.ts\<close>, \<open>apps/server/src/openfga-resolve.ts\<close>.
    \<open>Wk_Page_Tree\<close>, \<open>Wk_Page_Move\<close>, \<open>Wk_Trash\<close>, \<open>Wk_Page_Laws\<close>: the tree of
      \<open>apps/server/src/routes/pages.ts\<close>: walks and positions, creation and moves, the trash, and the
      laws of all of them as one step relation. A state is the table of rows (\<open>wk_rows\<close>), the state of
      the tuple store, the search intents and the events.
    \<open>Wk_Rate\<close>: \<open>rate-limit.ts\<close> and both \<open>abuse-rate.ts\<close>. \<open>Wk_Search\<close>: \<open>search/\<close> and its route.
    \<open>Wk_Cache\<close>: \<open>title-dict-cache.ts\<close>, \<open>tree-confirm-cache.ts\<close>. \<open>Wk_Embed\<close>: \<open>embed-frameability.ts\<close>,
      \<open>page-view-gate.ts\<close>.
    \<open>Wk_Outbox\<close>: \<open>db/outbox-lease.ts\<close>, \<open>db/tuple-outbox.ts\<close>, \<open>search/outbox.ts\<close>.
    \<open>Wk_Audit\<close>: \<open>audit/chain.ts\<close>, \<open>audit/operator-ledger.ts\<close>. \<open>Wk_Factor\<close>: \<open>auth/factor-policy.ts\<close>,
      the factor removal of \<open>routes/second-factor.ts\<close>. \<open>Wk_Entitlements\<close>: \<open>packages/entitlements\<close>.
    \<open>Wk_Collab\<close>: \<open>apps/collab/src/authenticate.ts\<close>, \<open>on-authenticate.ts\<close>, \<open>revoke.ts\<close>.
    \<open>Wk_Mcp_Edit\<close>: \<open>mcp-edit-apply.ts\<close> and its subscriber in \<open>index.ts\<close>. \<open>Wk_Ydoc\<close>: \<open>ydoc.ts\<close>.

  What the lemmas show. Authorization: the batched filter is the per-id check, it never grants
  more, never reads silence as an answer, and a restriction without an evaluator refuses. Page tree:
  any run of the operations keeps a forest of bounded depth inside each space, the walks end on
  every table, a page lands in the slot it was dropped in, no page is linked to a foreign space,
  and a restore undoes a trash; two theorems show where the code breaks the agreement of rows and
  tuples. Queues: leases are exclusive and fair, no intent is lost, drains converge. Caches: entries
  answer for the viewer and the lifetime they were stored for, and overtaken writers are refused;
  the contract is a locale interpreted on each cache. Rate caps: the budget is exact; the locale is
  interpreted on both processes. Audit: the chain determines its entries, the ledger verifies after
  any actions. Factors: no removal strands the tenant. Store binding: one store for ever. Realtime:
  who joins holds the relation, a revoked link is out; the connector pods refine a sequential
  editor, save for the double application proved possible; a store never wipes a text unseen.

  Bounds and fuel. Tree walks go \<open>PAGE_TREE_WALK_CAP\<close> = 12 levels deep, as in the code, which is
  enough for every tree the operations can build (ten ancestors). Positions are rationals rounded by
  a parameter; \<open>double_like\<close> states what binary64 guarantees on the integers below 2^53. The drain
  of a worker tick is the code's own bound of twenty. No other definition has fuel.

  Not modelled. The web client (views over library state), rendering and import or export over
  third-party parsers, sign-in protocols over cryptographic libraries, billing, telemetry and
  AI calls of external services, migrations and process assembly. Of the page routes: publication,
  visibility, grants and bulk operations; of the trash: pins, watches, role assignments and audit
  rows. The OpenFGA model is not code of the program: where a theorem speaks of what the store
  derives, it says which tuples are there.
\<close>

end
